(* ===== verification/Silog_Prelude.thy ===== *)
theory Silog_Prelude
  imports Main "HOL-Library.Word" "HOL-Library.Monad_Syntax" "HOL-Library.Multiset"
begin

text \<open>
  Shared vocabulary of the SiLog development: the C integer types as machine words, the error
  codes of \<open>silog_error.h\<close>, byte strings, and the generic lemmas on list segments
  (\<open>seg\<close>, \<open>overwrite\<close>) and words that the component theories use.
\<close>

unbundle bit_operations_syntax

section \<open>C types\<close>

type_synonym byte = "8 word"
type_synonym u16 = "16 word"
type_synonym u32 = "32 word"
type_synonym u64 = "64 word"

text \<open>
  A possibly undefined computation: \<open>None\<close> is undefined behaviour of the C program (an access
  outside the memory, \<open>memcpy\<close> on overlapping regions) or a loop that never ends;
  \<open>Some r\<close> is a run that returns \<open>r\<close>.
\<close>

type_synonym 'a c_result = "'a option"

section \<open>Error codes (silog_error.h)\<close>

datatype ErrorCode =
    SILOG_OK
  | SILOG_UNKNOWN | SILOG_INVALID_ARG | SILOG_NULL_PTR | SILOG_OUT_OF_MEMORY | SILOG_TIMEOUT
  | SILOG_NOT_IMPLEMENTED | SILOG_BUSY
  | SILOG_FILE_OPEN | SILOG_FILE_READ | SILOG_FILE_WRITE | SILOG_FILE_NOT_EXIST
  | SILOG_FILE_PERMISSION
  | SILOG_NET_CONNECT | SILOG_NET_FILE_CREATE | SILOG_NET_FILE_OPEN | SILOG_NET_FILE_ERROR
  | SILOG_NET_SEND | SILOG_NET_RECV | SILOG_NET_TIMEOUT | SILOG_NET_CLOSED
  | SILOG_NET_UNREACHABLE
  | SILOG_SYS_CALL | SILOG_SYS_RESOURCE | SILOG_THREAD_CREATE | SILOG_THREAD_JOIN
  | SILOG_MUTEX_LOCK
  | SILOG_STR_TOO_LONG | SILOG_STR_EMPTY | SILOG_STR_ERR
  | SILOG_TRANS_NOT_INIT | SILOG_TRANS_QUEUE_FULL | SILOG_TRANS_QUEUE_EMPTY
  | SILOG_FILE_MANAGER_NOT_INIT

text \<open>The numeric values the enumeration gives the codes.\<close>

fun error_value :: "ErrorCode \<Rightarrow> int" where
  "error_value SILOG_OK = 0"
| "error_value SILOG_UNKNOWN = 1000"
| "error_value SILOG_INVALID_ARG = 1001"
| "error_value SILOG_NULL_PTR = 1002"
| "error_value SILOG_OUT_OF_MEMORY = 1003"
| "error_value SILOG_TIMEOUT = 1004"
| "error_value SILOG_NOT_IMPLEMENTED = 1005"
| "error_value SILOG_BUSY = 1006"
| "error_value SILOG_FILE_OPEN = 2000"
| "error_value SILOG_FILE_READ = 2001"
| "error_value SILOG_FILE_WRITE = 2002"
| "error_value SILOG_FILE_NOT_EXIST = 2003"
| "error_value SILOG_FILE_PERMISSION = 2004"
| "error_value SILOG_NET_CONNECT = 3000"
| "error_value SILOG_NET_FILE_CREATE = 3001"
| "error_value SILOG_NET_FILE_OPEN = 3002"
| "error_value SILOG_NET_FILE_ERROR = 3003"
| "error_value SILOG_NET_SEND = 3004"
| "error_value SILOG_NET_RECV = 3005"
| "error_value SILOG_NET_TIMEOUT = 3006"
| "error_value SILOG_NET_CLOSED = 3007"
| "error_value SILOG_NET_UNREACHABLE = 3008"
| "error_value SILOG_SYS_CALL = 4000"
| "error_value SILOG_SYS_RESOURCE = 4001"
| "error_value SILOG_THREAD_CREATE = 4002"
| "error_value SILOG_THREAD_JOIN = 4003"
| "error_value SILOG_MUTEX_LOCK = 4004"
| "error_value SILOG_STR_TOO_LONG = 5000"
| "error_value SILOG_STR_EMPTY = 5001"
| "error_value SILOG_STR_ERR = 5002"
| "error_value SILOG_TRANS_NOT_INIT = 5003"
| "error_value SILOG_TRANS_QUEUE_FULL = 5004"
| "error_value SILOG_TRANS_QUEUE_EMPTY = 5005"
| "error_value SILOG_FILE_MANAGER_NOT_INIT = 5006"

text \<open>The codes are ordered by their values, so the library's order lemmas apply to them.\<close>

lemma error_value_inject: "error_value a = error_value b \<Longrightarrow> a = b"
  by (cases a; cases b; simp)

instantiation ErrorCode :: linorder
begin

definition less_eq_ErrorCode :: "ErrorCode \<Rightarrow> ErrorCode \<Rightarrow> bool" where
  "less_eq_ErrorCode a b = (error_value a \<le> error_value b)"

definition less_ErrorCode :: "ErrorCode \<Rightarrow> ErrorCode \<Rightarrow> bool" where
  "less_ErrorCode a b = (error_value a < error_value b)"

instance
  by standard (auto simp: less_eq_ErrorCode_def less_ErrorCode_def intro: error_value_inject)

end

section \<open>Segments of lists\<close>

definition seg :: "nat \<Rightarrow> nat \<Rightarrow> 'a list \<Rightarrow> 'a list" where
  "seg a n xs = take n (drop a xs)"

definition overwrite :: "nat \<Rightarrow> 'a list \<Rightarrow> 'a list \<Rightarrow> 'a list" where
  "overwrite a ys xs = take a xs @ ys @ drop (a + length ys) xs"

named_theorems seg_simps \<open>rewriting of list segments\<close>

lemma length_seg [simp]: "length (seg a n xs) = min n (length xs - a)"
  by (simp add: seg_def)

lemma length_overwrite [simp]: "a + length ys \<le> length xs \<Longrightarrow> length (overwrite a ys xs) = length xs"
  by (simp add: overwrite_def)

lemma seg_0 [simp]: "seg a 0 xs = []"
  by (simp add: seg_def)

lemma overwrite_Nil [simp]: "overwrite a [] xs = xs"
  by (simp add: overwrite_def)

lemma seg_all [simp]: "seg 0 (length xs) xs = xs"
  by (simp add: seg_def)

lemma nth_seg [simp]: "i < n \<Longrightarrow> a + i < length xs \<Longrightarrow> seg a n xs ! i = xs ! (a + i)"
  by (simp add: seg_def)

lemma nth_overwrite:
  assumes "a + length ys \<le> length xs" and "i < length xs"
  shows "overwrite a ys xs ! i = (if a \<le> i \<and> i < a + length ys then ys ! (i - a) else xs ! i)"
  using assms by (auto simp: overwrite_def nth_append min_def)

lemma seg_overwrite_same [seg_simps]:
  "a + length ys \<le> length xs \<Longrightarrow> n = length ys \<Longrightarrow> seg a n (overwrite a ys xs) = ys"
  by (simp add: seg_def overwrite_def)

lemma seg_overwrite_disjoint [seg_simps]:
  assumes "a + length ys \<le> length xs" and "b + n \<le> a \<or> a + length ys \<le> b" and "b + n \<le> length xs"
  shows "seg b n (overwrite a ys xs) = seg b n xs"
  by (rule nth_equalityI) (use assms in \<open>auto simp: nth_overwrite\<close>)

lemma take_overwrite_before [seg_simps]: "n \<le> a \<Longrightarrow> a \<le> length xs \<Longrightarrow> take n (overwrite a ys xs) = take n xs"
  by (simp add: overwrite_def min_def)

lemma drop_overwrite_after [seg_simps]:
  "a + length ys \<le> length xs \<Longrightarrow> a + length ys \<le> n \<Longrightarrow> drop n (overwrite a ys xs) = drop n xs"
  by (simp add: overwrite_def)

lemma drop_overwrite_at: "a \<le> length xs \<Longrightarrow> drop a (overwrite a ys xs) = ys @ drop (a + length ys) xs"
  by (simp add: overwrite_def)

lemma overwrite_seg_id: "a + n \<le> length xs \<Longrightarrow> overwrite a (seg a n xs) xs = xs"
  by (rule nth_equalityI) (auto simp: nth_overwrite)

lemma drop_seg_append: "a + n \<le> length xs \<Longrightarrow> drop a xs = seg a n xs @ drop (a + n) xs"
  by (metis add.commute append_take_drop_id drop_drop seg_def)

lemma overwrite_overwrite_next:
  "a + length xs + length ys \<le> length m \<Longrightarrow>
   overwrite (a + length xs) ys (overwrite a xs m) = overwrite a (xs @ ys) m"
  by (simp add: overwrite_def ac_simps)

lemma takeWhile_full: "length (takeWhile P xs) = length xs \<Longrightarrow> \<forall>x \<in> set xs. P x"
  by (induction xs) (auto split: if_splits)

lemma takeWhile_stop:
  assumes "length (takeWhile P xs) \<noteq> length xs"
  obtains x ys where "xs = takeWhile P xs @ x # ys" and "\<not> P x"
proof -
  have "dropWhile P xs \<noteq> []"
    using assms by (metis append_Nil2 takeWhile_dropWhile_id)
  then obtain x ys where "dropWhile P xs = x # ys" by (cases "dropWhile P xs") auto
  moreover from this have "\<not> P x" using hd_dropWhile [of P xs] by simp
  ultimately show thesis using that [of x ys] by (metis takeWhile_dropWhile_id)
qed

section \<open>Counting loops\<close>

text \<open>\<open>for (i = 0; i < n; i++)\<close> over the indices \<open>[0..<n]\<close>; the body may fail.\<close>

fun c_for :: "nat list \<Rightarrow> (nat \<Rightarrow> 's \<Rightarrow> 's c_result) \<Rightarrow> 's \<Rightarrow> 's c_result" where
  "c_for [] body s = Some s"
| "c_for (i # is) body s = Option.bind (body i s) (c_for is body)"

lemma c_for_append: "c_for (is @ js) body s = Option.bind (c_for is body s) (c_for js body)"
  by (induction "is" arbitrary: s) (auto split: bind_splits)

text \<open>A loop whose body keeps an invariant indexed by the number of iterations done.\<close>

lemma c_for_invariant:
  assumes "P 0 s" and "\<And>i s. i < n \<Longrightarrow> P i s \<Longrightarrow> \<exists>s'. body i s = Some s' \<and> P (Suc i) s'"
  shows "\<exists>s'. c_for [0..<n] body s = Some s' \<and> P n s'"
proof -
  have "k \<le> n \<Longrightarrow> \<exists>s'. c_for [0..<k] body s = Some s' \<and> P k s'" for k
  proof (induction k)
    case 0
    then show ?case using assms(1) by simp
  next
    case (Suc k)
    then obtain s1 where "c_for [0..<k] body s = Some s1" "P k s1" by auto
    moreover obtain s2 where "body k s1 = Some s2" "P (Suc k) s2"
      using assms(2) [of k s1] Suc.prems calculation by auto
    ultimately show ?case by (simp add: c_for_append)
  qed
  then show ?thesis by simp
qed

section \<open>Byte strings\<close>

text \<open>
  A C string is the bytes up to the first NUL. \<open>chars\<close> is a literal of the source as bytes.
\<close>

definition cstr :: "byte list \<Rightarrow> byte list" where
  "cstr bs = takeWhile (\<lambda>b. b \<noteq> 0) bs"

definition chars :: "string \<Rightarrow> byte list" where
  "chars s = map of_char s"

lemma cstr_Nil [simp]: "cstr [] = []"
  by (simp add: cstr_def)

lemma cstr_Cons [simp]: "cstr (b # bs) = (if b = 0 then [] else b # cstr bs)"
  by (simp add: cstr_def)

lemma zero_notin_cstr [simp]: "0 \<notin> set (cstr bs)"
  by (auto simp: cstr_def dest: set_takeWhileD)

lemma length_cstr_le: "length (cstr bs) \<le> length bs"
  by (simp add: cstr_def length_takeWhile_le)

lemma cstr_append_zero: "0 \<notin> set xs \<Longrightarrow> cstr (xs @ 0 # ys) = xs"
  by (induction xs) auto

lemma cstr_no_zero: "0 \<notin> set xs \<Longrightarrow> cstr xs = xs"
  by (induction xs) auto

lemma take_length_cstr: "take (length (cstr bs)) bs = cstr bs"
  unfolding cstr_def by (rule takeWhile_eq_take [symmetric])

lemma nth_length_cstr: "length (cstr bs) < length bs \<Longrightarrow> bs ! length (cstr bs) = 0"
  using nth_length_takeWhile [of "\<lambda>b. b \<noteq> 0" bs] by (simp add: cstr_def)

lemma cstr_split: "length (cstr bs) < length bs \<Longrightarrow> bs = cstr bs @ 0 # drop (Suc (length (cstr bs))) bs"
  by (metis id_take_nth_drop nth_length_cstr take_length_cstr)

lemma cstr_take: "cstr (take n bs) = take n (cstr bs)"
  by (induction bs arbitrary: n) (auto simp: take_Cons split: nat.splits)

section \<open>32-bit indices\<close>

named_theorems unat_exact \<open>word operations that do not wrap, read as natural numbers\<close>

lemma unat_parent [unat_exact]: "0 < (i::u32) \<Longrightarrow> unat ((i - 1) div 2) = (unat i - 1) div 2"
  by (simp add: unat_div_distrib unat_minus_one word_neq_0_conv [symmetric] del: word_neq_0_conv)

lemma unat_mult_exact [unat_exact]:
  "unat (a::u32) * unat b < 2 ^ 32 \<Longrightarrow> unat (a * b) = unat a * unat b"
  by (simp add: unat_word_ariths)

lemma unat_add_exact [unat_exact]:
  "unat (a::u32) + unat b < 2 ^ 32 \<Longrightarrow> unat (a + b) = unat a + unat b"
  by (simp add: unat_word_ariths)

lemma unat_sub_one [unat_exact]: "0 < (a::u32) \<Longrightarrow> unat (a - 1) = unat a - 1"
  by (simp add: unat_minus_one word_neq_0_conv [symmetric] del: word_neq_0_conv)

section \<open>Descriptor flags\<close>

text \<open>\<open>fcntl\<close> is given the command; a negative result is a failure.\<close>

datatype fcntl_cmd = F_GETFL | F_SETFL int

end
