(* ===== verification/Silog_CMem.thy ===== *)
theory Silog_CMem
  imports Silog_Prelude
begin

text \<open>
  The memory of the process and the functions of \<open>string.h\<close> that SiLog calls on it. The memory
  is one list of bytes, an address is an index into it, and a pointer is \<open>None\<close> (NULL) or an
  address, so that two pointer arguments of a function may overlap. \<open>size_t\<close> values are natural
  numbers: every length is bounded by the memory, and the one subtraction on them
  (\<open>destMax - 1\<close>) is guarded by \<open>destMax \<noteq> 0\<close>. A result \<open>None\<close> is undefined behaviour.
\<close>

type_synonym mem = "byte list"
type_synonym ptr = "nat option"

section \<open>Access\<close>

definition load :: "mem \<Rightarrow> nat \<Rightarrow> nat \<Rightarrow> byte list c_result" where
  "load m a n = (if a + n \<le> length m then Some (seg a n m) else None)"

definition store :: "mem \<Rightarrow> nat \<Rightarrow> byte list \<Rightarrow> mem c_result" where
  "store m a bs = (if a + length bs \<le> length m then Some (overwrite a bs m) else None)"

text \<open>Pointer arithmetic may not leave the memory (one past its end is allowed).\<close>

definition ptr_add :: "mem \<Rightarrow> nat \<Rightarrow> nat \<Rightarrow> nat c_result" where
  "ptr_add m a n = (if a + n \<le> length m then Some (a + n) else None)"

section \<open>string.h\<close>

definition c_memset :: "mem \<Rightarrow> nat \<Rightarrow> byte \<Rightarrow> nat \<Rightarrow> mem c_result" where
  "c_memset m d c n = store m d (replicate n c)"

definition c_memmove :: "mem \<Rightarrow> nat \<Rightarrow> nat \<Rightarrow> nat \<Rightarrow> mem c_result" where
  "c_memmove m d s n = do { bs \<leftarrow> load m s n; store m d bs }"

text \<open>\<open>memcpy\<close> on overlapping regions is undefined.\<close>

definition overlap :: "nat \<Rightarrow> nat \<Rightarrow> nat \<Rightarrow> bool" where
  "overlap d s n \<longleftrightarrow> 0 < n \<and> s < d + n \<and> d < s + n"

definition c_memcpy :: "mem \<Rightarrow> nat \<Rightarrow> nat \<Rightarrow> nat \<Rightarrow> mem c_result" where
  "c_memcpy m d s n = (if overlap d s n then None else c_memmove m d s n)"

definition c_strlen :: "mem \<Rightarrow> nat \<Rightarrow> nat c_result" where
  "c_strlen m a =
     (let k = length (cstr (drop a m)) in if a + k < length m then Some k else None)"

text \<open>\<open>strnlen\<close> stops at \<open>n\<close> bytes or at the first NUL, whichever comes first.\<close>

definition c_strnlen :: "mem \<Rightarrow> nat \<Rightarrow> nat \<Rightarrow> nat c_result" where
  "c_strnlen m a n =
     (let k = length (cstr (seg a n m)) in if k = n \<or> a + k < length m then Some k else None)"

text \<open>\<open>memcmp\<close> promises only the sign of the difference at the first differing byte.\<close>

fun cmp_bytes :: "byte list \<Rightarrow> byte list \<Rightarrow> int" where
  "cmp_bytes (x # xs) (y # ys) = (if x < y then -1 else if y < x then 1 else cmp_bytes xs ys)"
| "cmp_bytes _ _ = 0"

definition c_memcmp :: "mem \<Rightarrow> nat \<Rightarrow> nat \<Rightarrow> nat \<Rightarrow> int c_result" where
  "c_memcmp m a b n = do { xs \<leftarrow> load m a n; ys \<leftarrow> load m b n; Some (cmp_bytes xs ys) }"

text \<open>\<open>memchr\<close> and \<open>strchr\<close> read no byte after the one they find.\<close>

definition c_memchr :: "mem \<Rightarrow> nat \<Rightarrow> byte \<Rightarrow> nat \<Rightarrow> ptr c_result" where
  "c_memchr m a c n =
     (let k = length (takeWhile (\<lambda>b. b \<noteq> c) (seg a n m))
      in if k = n then Some None else if a + k < length m then Some (Some (a + k)) else None)"

definition c_strchr :: "mem \<Rightarrow> nat \<Rightarrow> byte \<Rightarrow> ptr c_result" where
  "c_strchr m a c =
     (let k = length (takeWhile (\<lambda>b. b \<noteq> 0 \<and> b \<noteq> c) (drop a m))
      in if a + k < length m then Some (if m ! (a + k) = c then Some (a + k) else None) else None)"

section \<open>Formatted output\<close>

text \<open>
  What the conversions of a format make of its arguments is a parameter: \<open>Rendered t\<close> is the
  text before truncation, \<open>RenderErr junk\<close> an encoding error or a text longer than
  \<open>INT_MAX\<close>, after which the buffer holds some bytes. \<open>vsnprintf\<close> stores at most \<open>n - 1\<close>
  bytes of the text and a NUL, and returns the length of the whole text.
\<close>

datatype rendered = Rendered "byte list" | RenderErr "byte list"

definition c_vsnprintf :: "mem \<Rightarrow> nat \<Rightarrow> nat \<Rightarrow> rendered \<Rightarrow> (int \<times> mem) c_result" where
  "c_vsnprintf m d n r =
     (case r of
        Rendered t \<Rightarrow>
          if n = 0 then Some (int (length t), m)
          else do { m' \<leftarrow> store m d (take (n - 1) t @ [0]); Some (int (length t), m') }
      | RenderErr junk \<Rightarrow> do { m' \<leftarrow> store m d (take n junk); Some (-1, m') })"

section \<open>Rules\<close>

lemma load_eq: "a + n \<le> length m \<Longrightarrow> load m a n = Some (seg a n m)"
  by (simp add: load_def)

lemma store_eq: "a + length bs \<le> length m \<Longrightarrow> store m a bs = Some (overwrite a bs m)"
  by (simp add: store_def)

lemma c_memmove_eq:
  "d + n \<le> length m \<Longrightarrow> s + n \<le> length m \<Longrightarrow> c_memmove m d s n = Some (overwrite d (seg s n m) m)"
  by (simp add: c_memmove_def load_def store_def)

lemma c_memcpy_eq:
  "d + n \<le> length m \<Longrightarrow> s + n \<le> length m \<Longrightarrow> \<not> overlap d s n \<Longrightarrow>
   c_memcpy m d s n = Some (overwrite d (seg s n m) m)"
  by (simp add: c_memcpy_def c_memmove_eq)

lemma ptr_add_eq: "a + n \<le> length m \<Longrightarrow> ptr_add m a n = Some (a + n)"
  by (simp add: ptr_add_def)

lemmas c_mem_eqs = load_eq store_eq c_memmove_eq c_memcpy_eq ptr_add_eq

lemma store_length: "store m a bs = Some m' \<Longrightarrow> length m' = length m"
  by (auto simp: store_def split: if_splits)

text \<open>\<open>is_string m a s\<close>: the NUL-terminated string \<open>s\<close> is at address \<open>a\<close>.\<close>

definition is_string :: "mem \<Rightarrow> nat \<Rightarrow> byte list \<Rightarrow> bool" where
  "is_string m a s \<longleftrightarrow>
     a + length s < length m \<and> seg a (length s) m = s \<and> 0 \<notin> set s \<and> m ! (a + length s) = 0"

lemma is_string_drop: "is_string m a s \<Longrightarrow> drop a m = s @ 0 # drop (Suc (a + length s)) m"
proof -
  assume h: "is_string m a s"
  then have "drop a m = s @ drop (a + length s) m"
    using drop_seg_append [of a "length s" m] by (simp add: is_string_def)
  moreover have "drop (a + length s) m = 0 # drop (Suc (a + length s)) m"
    using h by (metis Cons_nth_drop_Suc is_string_def)
  ultimately show ?thesis by simp
qed

lemma is_string_cstr: "is_string m a s \<Longrightarrow> cstr (drop a m) = s"
  by (metis cstr_append_zero is_string_drop is_string_def)

lemma is_string_strlen: "is_string m a s \<Longrightarrow> c_strlen m a = Some (length s)"
  by (simp add: c_strlen_def is_string_cstr) (simp add: is_string_def)

lemma is_string_seg: "is_string m a s \<Longrightarrow> seg a (Suc (length s)) m = s @ [0]"
  by (simp only: seg_def is_string_drop) simp

lemma is_string_strnlen:
  assumes "is_string m a s"
  shows "c_strnlen m a n = Some (min n (length s))"
proof -
  have "cstr (seg a n m) = take n s"
    using assms by (simp add: seg_def cstr_take is_string_cstr)
  then show ?thesis
    using assms by (auto simp: c_strnlen_def is_string_def min_def)
qed

lemma is_stringI:
  "a + length s < length m \<Longrightarrow> seg a (Suc (length s)) m = s @ [0] \<Longrightarrow> 0 \<notin> set s \<Longrightarrow> is_string m a s"
  unfolding is_string_def seg_def
  by (auto simp: take_Suc_conv_app_nth)

lemma is_string_overwrite:
  assumes "a + length s < length m" and "0 \<notin> set s"
  shows "is_string (overwrite a (s @ [0]) m) a s"
  using assms by (intro is_stringI) (simp_all add: seg_overwrite_same)

lemma is_string_take: "is_string m a s \<Longrightarrow> seg a (min n (length s)) m = take n s"
  by (auto simp: is_string_def seg_def min_def) (metis min_def take_take)

lemma cmp_bytes_refl [simp]: "cmp_bytes xs xs = 0"
  by (induction xs) auto

lemma cmp_bytes_0_iff: "length xs = length ys \<Longrightarrow> cmp_bytes xs ys = 0 \<longleftrightarrow> xs = ys"
  by (induction xs ys rule: cmp_bytes.induct) auto

lemma cmp_bytes_antisym: "cmp_bytes xs ys = - cmp_bytes ys xs"
  by (induction xs ys rule: cmp_bytes.induct) (auto simp: not_less)

section \<open>Frames and strings in memory\<close>

text \<open>\<open>same_outside m m' d n\<close>: only the bytes \<open>d, \<dots>, d + n - 1\<close> may differ.\<close>

definition same_outside :: "mem \<Rightarrow> mem \<Rightarrow> nat \<Rightarrow> nat \<Rightarrow> bool" where
  "same_outside m m' d n \<longleftrightarrow>
     length m' = length m \<and> (\<forall>i < length m. i < d \<or> d + n \<le> i \<longrightarrow> m' ! i = m ! i)"

lemma same_outside_refl [simp]: "same_outside m m d n"
  by (simp add: same_outside_def)

lemma same_outside_overwrite:
  "a + length bs \<le> length m \<Longrightarrow> d \<le> a \<Longrightarrow> a + length bs \<le> d + n \<Longrightarrow>
   same_outside m (overwrite a bs m) d n"
  by (auto simp: same_outside_def nth_overwrite)

lemma same_outside_trans:
  "same_outside m m' d n \<Longrightarrow> same_outside m' m'' d n \<Longrightarrow> same_outside m m'' d n"
  by (auto simp: same_outside_def)

lemma same_outside_seg:
  "same_outside m m' d n \<Longrightarrow> a + k \<le> d \<or> d + n \<le> a \<Longrightarrow> a + k \<le> length m \<Longrightarrow>
   seg a k m' = seg a k m"
  by (rule nth_equalityI) (auto simp: same_outside_def)

lemma same_outside_string:
  assumes "same_outside m m' d n" and "is_string m a s" and "a + length s < d \<or> d + n \<le> a"
  shows "is_string m' a s"
  using same_outside_seg [OF assms(1), of a "length s"] assms
  by (auto simp: same_outside_def is_string_def)

lemma is_string_append:
  assumes "is_string m d ds" and "d + length ds + length t < length m" and "0 \<notin> set t"
  shows "is_string (overwrite (d + length ds) (t @ [0]) m) d (ds @ t)"
proof -
  have d: "seg d (length ds) m = ds" "d + length ds < length m" "0 \<notin> set ds"
    using assms(1) by (auto simp: is_string_def)
  have "overwrite (d + length ds) (t @ [0]) m = overwrite d ((ds @ t) @ [0]) m"
    using overwrite_overwrite_next [of d ds "t @ [0]" m] overwrite_seg_id [of d "length ds" m] d assms
    by simp
  then show ?thesis
    using is_string_overwrite [of d "ds @ t" m] assms d by simp
qed

lemma c_memcmp_strings:
  assumes "is_string m a s" and "is_string m b t" and "n \<le> length s" and "n \<le> length t"
  shows "c_memcmp m a b n = Some (cmp_bytes (take n s) (take n t))"
  using assms is_string_take [OF assms(1), of n] is_string_take [OF assms(2), of n]
  by (simp add: c_memcmp_def load_def is_string_def)

lemma c_memcmp_window:
  assumes "is_string m a s" and "is_string m b t" and "i + length t \<le> length s"
  shows "c_memcmp m (a + i) b (length t) = Some (cmp_bytes (seg i (length t) s) t)"
proof -
  have "seg (a + i) (length t) m = seg i (length t) s"
  proof (rule nth_equalityI)
    show "length (seg (a + i) (length t) m) = length (seg i (length t) s)"
      using assms by (auto simp: is_string_def min_def)
    fix j assume "j < length (seg (a + i) (length t) m)"
    then have j: "j < length t" by simp
    then have "m ! (a + (i + j)) = s ! (i + j)"
      using assms nth_seg [of "i + j" "length s" a m] by (auto simp: is_string_def)
    with j assms show "seg (a + i) (length t) m ! j = seg i (length t) s ! j"
      by (simp add: is_string_def add.assoc)
  qed
  then show ?thesis
    using assms by (simp add: c_memcmp_def load_def is_string_def)
qed

lemma is_string_Cons:
  "is_string m p (x # w) \<Longrightarrow> p < length m \<and> m ! p = x \<and> x \<noteq> 0 \<and> is_string m (Suc p) w"
proof -
  assume h: "is_string m p (x # w)"
  then have sg: "seg p (Suc (length w)) m = x # w" "p + Suc (length w) < length m" "0 \<notin> set (x # w)"
    "m ! (p + Suc (length w)) = 0"
    by (simp_all add: is_string_def)
  then have "m ! p = x" using nth_seg [of 0 "Suc (length w)" p m] by simp
  moreover have "seg (Suc p) (length w) m = w"
  proof -
    have "seg (Suc p) (length w) m = tl (seg p (Suc (length w)) m)"
      by (simp add: seg_def tl_take tl_drop drop_Suc)
    with sg show ?thesis by simp
  qed
  ultimately show ?thesis using sg by (simp add: is_string_def)
qed

lemma is_string_nth_0:
  assumes "is_string m q w"
  shows "m ! q = 0 \<longleftrightarrow> w = []"
proof (cases w)
  case Nil
  with assms show ?thesis by (simp add: is_string_def)
next
  case (Cons x v)
  with assms is_string_Cons [of m q x v] show ?thesis by simp
qed

lemma is_string_suffix:
  assumes "is_string m p (u @ v)"
  shows "is_string m (p + length u) v"
  using assms
proof (induction u arbitrary: p)
  case Nil
  then show ?case by simp
next
  case (Cons x u)
  then show ?case using is_string_Cons [of m p x "u @ v"] by fastforce
qed

lemma is_string_cut:
  assumes "is_string m p (u @ x # v)"
  shows "is_string (overwrite (p + length u) [0] m) p u"
    and "is_string (overwrite (p + length u) [0] m) (Suc (p + length u)) v"
proof -
  let ?m = "overwrite (p + length u) [0] m"
  have len: "p + length u < length m" using assms by (simp add: is_string_def)
  have so: "same_outside m ?m (p + length u) 1"
    using len by (intro same_outside_overwrite) auto
  have pre: "seg p (length u) m = u"
  proof -
    have "take (length u) (seg p (length (u @ x # v)) m) = u"
      using assms by (simp add: is_string_def)
    then show ?thesis by (simp add: seg_def)
  qed
  have "seg p (length u) ?m = u"
    using same_outside_seg [OF so, of p "length u"] len pre by simp
  then show "is_string ?m p u"
    using len assms by (auto simp: is_string_def nth_overwrite)
  have "is_string m (p + length (u @ [x])) v"
    using is_string_suffix [of m p "u @ [x]" v] assms by simp
  then show "is_string ?m (Suc (p + length u)) v"
    using same_outside_string [OF so] by simp
qed

lemma c_strchr_delims:
  assumes "is_string m d ds" and "ch \<noteq> 0"
  shows "\<exists>r. c_strchr m d ch = Some r \<and> (r \<noteq> None \<longleftrightarrow> ch \<in> set ds)"
proof -
  let ?P = "\<lambda>b. b \<noteq> 0 \<and> b \<noteq> ch"
  have dr: "drop d m = ds @ 0 # drop (Suc (d + length ds)) m"
    using assms(1) by (rule is_string_drop)
  have z: "0 \<notin> set ds" using assms(1) by (simp add: is_string_def)
  have tw: "takeWhile ?P (drop d m) = takeWhile ?P ds"
  proof -
    have "takeWhile ?P (ds @ 0 # zs) = takeWhile ?P ds" for zs by (induction ds) auto
    then show ?thesis by (simp only: dr)
  qed
  let ?k = "length (takeWhile ?P ds)"
  have kl: "?k \<le> length ds" by (rule length_takeWhile_le)
  have len: "d + length ds < length m" using assms(1) by (simp add: is_string_def)
  have nth: "m ! (d + ?k) = (ds @ [0]) ! ?k"
    using kl len assms(1) nth_seg [of ?k "Suc (length ds)" d m] is_string_seg [OF assms(1)] by simp
  have "(ds @ [0]) ! ?k = ch \<longleftrightarrow> ch \<in> set ds"
  proof (cases "?k < length ds")
    case True
    define y where "y = ds ! ?k"
    have "\<not> ?P y" using True nth_length_takeWhile unfolding y_def by blast
    moreover have y: "y \<in> set ds" using True unfolding y_def by (rule nth_mem)
    ultimately have "y = ch" using z by auto
    with y have "ch \<in> set ds" by simp
    with True \<open>y = ch\<close> show ?thesis by (simp add: nth_append y_def)
  next
    case False
    with kl have k: "?k = length ds" by simp
    from takeWhile_full [OF k] have "ch \<notin> set ds" by blast
    with k assms(2) show ?thesis by (simp only: nth_append_length) simp
  qed
  then show ?thesis
    using kl len nth by (simp add: c_strchr_def tw Let_def)
qed

lemma printf_terminated:
  assumes "d + k < length m" and "0 \<notin> set t"
  shows "is_string (overwrite (d + k) [0] (overwrite d (take k t @ [0]) m)) d (take k t)"
proof -
  let ?m = "overwrite d (take k t @ [0]) m"
  have s: "is_string ?m d (take k t)"
    using assms by (intro is_string_overwrite) (auto dest: in_set_takeD)
  show ?thesis
  proof (cases "k \<le> length t")
    case True
    then have "overwrite (d + k) [0] ?m = ?m"
      using assms s overwrite_seg_id [of "d + k" 1 ?m]
      by (auto simp: is_string_def seg_def take_Suc_conv_app_nth)
    with s show ?thesis by simp
  next
    case False
    have "same_outside ?m (overwrite (d + k) [0] ?m) (d + k) 1"
      using assms False by (intro same_outside_overwrite) auto
    from same_outside_string [OF this s] False show ?thesis by simp
  qed
qed

end
