(* ===== verification/Silog_Securec.thy ===== *)
theory Silog_Securec
  imports Silog_CMem
begin

text \<open>
  The bounds-checked memory and string functions of \<open>silog_comm/src/silog_securec.c\<close>, over the
  process memory of \<open>Silog_CMem\<close>. Pointer arguments are \<open>ptr\<close> values (\<open>None\<close> is NULL); an
  output parameter \<open>int *\<close> or \<open>size_t *\<close> is an \<open>option\<close> (\<open>None\<close> when the pointer is NULL,
  otherwise the value it points to) that the function returns updated. Each function returns the
  \<open>errno_t\<close> or the \<open>int\<close> of the source together with what it changed; \<open>None\<close> is undefined
  behaviour.
\<close>

abbreviation (input) EOK :: int where "EOK \<equiv> 0"
abbreviation (input) EINVAL :: int where "EINVAL \<equiv> 22"
abbreviation (input) ERANGE :: int where "ERANGE \<equiv> 34"
abbreviation (input) C_EOF :: int where "C_EOF \<equiv> -1"

section \<open>Memory operations\<close>

definition memset_s :: "mem \<Rightarrow> ptr \<Rightarrow> nat \<Rightarrow> int \<Rightarrow> nat \<Rightarrow> (int \<times> mem) c_result" where
  "memset_s m dest destMax c cnt =
     (case dest of
        None \<Rightarrow> Some (EINVAL, m)
      | Some d \<Rightarrow>
          if destMax = 0 then Some (EINVAL, m)
          else if cnt > destMax then Some (ERANGE, m)
          else do { m' \<leftarrow> c_memset m d (word_of_int c) cnt; Some (EOK, m') })"

definition memcpy_s :: "mem \<Rightarrow> ptr \<Rightarrow> nat \<Rightarrow> ptr \<Rightarrow> nat \<Rightarrow> (int \<times> mem) c_result" where
  "memcpy_s m dest destMax src cnt =
     (case dest of
        None \<Rightarrow> Some (EINVAL, m)
      | Some d \<Rightarrow>
          if destMax = 0 then Some (EINVAL, m)
          else case src of
            None \<Rightarrow> Some (EINVAL, m)
          | Some s \<Rightarrow>
              if cnt > destMax then Some (ERANGE, m)
              else do {
                below \<leftarrow> (if s < d then do { e \<leftarrow> ptr_add m s cnt; Some (e > d) } else Some False);
                if below then do { m' \<leftarrow> c_memmove m d s cnt; Some (EOK, m') }
                else do {
                  above \<leftarrow> (if d < s then do { e \<leftarrow> ptr_add m d destMax; Some (e > s) } else Some False);
                  if above then do { m' \<leftarrow> c_memmove m d s cnt; Some (EOK, m') }
                  else do { m' \<leftarrow> c_memcpy m d s cnt; Some (EOK, m') }
                }
              })"

definition memmove_s :: "mem \<Rightarrow> ptr \<Rightarrow> nat \<Rightarrow> ptr \<Rightarrow> nat \<Rightarrow> (int \<times> mem) c_result" where
  "memmove_s m dest destMax src cnt =
     (case dest of
        None \<Rightarrow> Some (EINVAL, m)
      | Some d \<Rightarrow>
          if destMax = 0 then Some (EINVAL, m)
          else case src of
            None \<Rightarrow> Some (EINVAL, m)
          | Some s \<Rightarrow>
              if cnt > destMax then Some (ERANGE, m)
              else do { m' \<leftarrow> c_memmove m d s cnt; Some (EOK, m') })"

section \<open>String copy and concatenation\<close>

definition strcpy_s :: "mem \<Rightarrow> ptr \<Rightarrow> nat \<Rightarrow> ptr \<Rightarrow> (int \<times> mem) c_result" where
  "strcpy_s m dest destMax src =
     (case dest of
        None \<Rightarrow> Some (EINVAL, m)
      | Some d \<Rightarrow>
          if destMax = 0 then Some (EINVAL, m)
          else case src of
            None \<Rightarrow> do { m' \<leftarrow> store m d [0]; Some (EINVAL, m') }
          | Some s \<Rightarrow> do {
              srcLen \<leftarrow> c_strlen m s;
              if srcLen \<ge> destMax then do { m' \<leftarrow> store m d [0]; Some (ERANGE, m') }
              else do { m' \<leftarrow> c_memcpy m d s (srcLen + 1); Some (EOK, m') }
            })"

definition strncpy_s :: "mem \<Rightarrow> ptr \<Rightarrow> nat \<Rightarrow> ptr \<Rightarrow> nat \<Rightarrow> (int \<times> mem) c_result" where
  "strncpy_s m dest destMax src cnt =
     (case dest of
        None \<Rightarrow> Some (EINVAL, m)
      | Some d \<Rightarrow>
          if destMax = 0 then Some (EINVAL, m)
          else case src of
            None \<Rightarrow> do { m' \<leftarrow> store m d [0]; Some (EINVAL, m') }
          | Some s \<Rightarrow> do {
              srcLen \<leftarrow> c_strnlen m s cnt;
              if srcLen \<ge> destMax then do { m' \<leftarrow> store m d [0]; Some (ERANGE, m') }
              else do {
                m' \<leftarrow> c_memcpy m d s srcLen;
                m'' \<leftarrow> store m' (d + srcLen) [0];
                Some (EOK, m'')
              }
            })"

definition strcat_s :: "mem \<Rightarrow> ptr \<Rightarrow> nat \<Rightarrow> ptr \<Rightarrow> (int \<times> mem) c_result" where
  "strcat_s m dest destMax src =
     (case dest of
        None \<Rightarrow> Some (EINVAL, m)
      | Some d \<Rightarrow>
          if destMax = 0 then Some (EINVAL, m)
          else case src of
            None \<Rightarrow> Some (EINVAL, m)
          | Some s \<Rightarrow> do {
              destLen \<leftarrow> c_strnlen m d destMax;
              srcLen \<leftarrow> c_strlen m s;
              if destLen + srcLen \<ge> destMax then Some (ERANGE, m)
              else do { m' \<leftarrow> c_memcpy m (d + destLen) s (srcLen + 1); Some (EOK, m') }
            })"

definition strncat_s :: "mem \<Rightarrow> ptr \<Rightarrow> nat \<Rightarrow> ptr \<Rightarrow> nat \<Rightarrow> (int \<times> mem) c_result" where
  "strncat_s m dest destMax src cnt =
     (case dest of
        None \<Rightarrow> Some (EINVAL, m)
      | Some d \<Rightarrow>
          if destMax = 0 then Some (EINVAL, m)
          else case src of
            None \<Rightarrow> Some (EINVAL, m)
          | Some s \<Rightarrow> do {
              destLen \<leftarrow> c_strnlen m d destMax;
              srcLen \<leftarrow> c_strnlen m s cnt;
              if destLen + srcLen \<ge> destMax then Some (ERANGE, m)
              else do {
                m' \<leftarrow> c_memcpy m (d + destLen) s srcLen;
                m'' \<leftarrow> store m' (d + destLen + srcLen) [0];
                Some (EOK, m'')
              }
            })"

section \<open>Comparison and search\<close>

definition strnlen_s :: "mem \<Rightarrow> ptr \<Rightarrow> nat \<Rightarrow> nat c_result" where
  "strnlen_s m str strMax =
     (case str of
        None \<Rightarrow> Some 0
      | Some a \<Rightarrow> if strMax = 0 then Some 0 else c_strnlen m a strMax)"

definition no_string :: "ptr \<Rightarrow> nat \<Rightarrow> bool" where
  "no_string p n \<longleftrightarrow> p = None \<or> n = 0"

definition strcmp_s ::
  "mem \<Rightarrow> ptr \<Rightarrow> nat \<Rightarrow> ptr \<Rightarrow> nat \<Rightarrow> int option \<Rightarrow> (int \<times> int option) c_result" where
  "strcmp_s m str1 str1Max str2 str2Max result =
     (if result = None then Some (EINVAL, None)
      else if no_string str1 str1Max then
        (if no_string str2 str2Max then Some (EOK, Some 0) else Some (EOK, Some (-1)))
      else if no_string str2 str2Max then Some (EOK, Some 1)
      else do {
        a \<leftarrow> str1; b \<leftarrow> str2;
        len1 \<leftarrow> c_strnlen m a str1Max;
        len2 \<leftarrow> c_strnlen m b str2Max;
        cmp \<leftarrow> c_memcmp m a b (if len1 < len2 then len1 else len2);
        if cmp \<noteq> 0 then Some (EOK, Some cmp)
        else if len1 < len2 then Some (EOK, Some (-1))
        else if len1 > len2 then Some (EOK, Some 1)
        else Some (EOK, Some 0)
      })"

definition strncmp_s ::
  "mem \<Rightarrow> ptr \<Rightarrow> nat \<Rightarrow> ptr \<Rightarrow> nat \<Rightarrow> nat \<Rightarrow> int option \<Rightarrow> (int \<times> int option) c_result" where
  "strncmp_s m str1 str1Max str2 str2Max cnt result =
     (if result = None then Some (EINVAL, None)
      else if no_string str1 str1Max then
        (if no_string str2 str2Max then Some (EOK, Some 0) else Some (EOK, Some (-1)))
      else if no_string str2 str2Max then Some (EOK, Some 1)
      else do {
        a \<leftarrow> str1; b \<leftarrow> str2;
        len1 \<leftarrow> c_strnlen m a str1Max;
        len2 \<leftarrow> c_strnlen m b str2Max;
        let maxCompare = (if len1 < cnt then len1 else cnt);
        let maxCompare = (if len2 < maxCompare then len2 else maxCompare);
        cmp \<leftarrow> c_memcmp m a b maxCompare;
        if cmp \<noteq> 0 then Some (EOK, Some cmp) else Some (EOK, Some 0)
      })"

definition strchr_s ::
  "mem \<Rightarrow> ptr \<Rightarrow> nat \<Rightarrow> int \<Rightarrow> nat option \<Rightarrow> (int \<times> nat option) c_result" where
  "strchr_s m str strMax c position =
     (if position = None then Some (EINVAL, None)
      else if no_string str strMax then Some (EINVAL, Some 0)
      else do {
        a \<leftarrow> str;
        len \<leftarrow> c_strnlen m a strMax;
        p \<leftarrow> c_memchr m a (word_of_int c) len;
        (case p of None \<Rightarrow> Some (EINVAL, Some 0) | Some q \<Rightarrow> Some (EOK, Some (q - a)))
      })"

text \<open>The loop of \<open>strrchr_s\<close>, counting \<open>i\<close> down from the length of the string.\<close>

fun strrchr_loop :: "mem \<Rightarrow> nat \<Rightarrow> byte \<Rightarrow> nat \<Rightarrow> (int \<times> nat option) c_result" where
  "strrchr_loop m a c 0 = Some (EINVAL, Some 0)"
| "strrchr_loop m a c (Suc i) = do {
     bs \<leftarrow> load m (a + i) 1;
     if bs = [c] then Some (EOK, Some i) else strrchr_loop m a c i
   }"

definition strrchr_s ::
  "mem \<Rightarrow> ptr \<Rightarrow> nat \<Rightarrow> int \<Rightarrow> nat option \<Rightarrow> (int \<times> nat option) c_result" where
  "strrchr_s m str strMax c position =
     (if position = None then Some (EINVAL, None)
      else if no_string str strMax then Some (EINVAL, Some 0)
      else do {
        a \<leftarrow> str;
        len \<leftarrow> c_strnlen m a strMax;
        strrchr_loop m a (word_of_int c) len
      })"

text \<open>The loop of \<open>strstr_s\<close>: \<open>i\<close> runs while \<open>i \<le> lim = strLen - subLen\<close>.\<close>

function strstr_loop :: "mem \<Rightarrow> nat \<Rightarrow> nat \<Rightarrow> nat \<Rightarrow> nat \<Rightarrow> nat \<Rightarrow> (int \<times> nat option) c_result" where
  "strstr_loop m a b subLen lim i =
     (if i \<le> lim then do {
        cmp \<leftarrow> c_memcmp m (a + i) b subLen;
        if cmp = 0 then Some (EOK, Some i) else strstr_loop m a b subLen lim (Suc i)
      }
      else Some (EINVAL, Some 0))"
  by pat_completeness auto
termination
  by (relation "measure (\<lambda>(m, a, b, subLen, lim, i). Suc lim - i)") auto

declare strstr_loop.simps [simp del]

definition strstr_s ::
  "mem \<Rightarrow> ptr \<Rightarrow> nat \<Rightarrow> ptr \<Rightarrow> nat \<Rightarrow> nat option \<Rightarrow> (int \<times> nat option) c_result" where
  "strstr_s m str strMax substr substrMax position =
     (if position = None then Some (EINVAL, None)
      else if no_string str strMax then Some (EINVAL, Some 0)
      else case substr of
        None \<Rightarrow> Some (EINVAL, Some 0)
      | Some b \<Rightarrow> do {
          a \<leftarrow> str;
          strLen \<leftarrow> c_strnlen m a strMax;
          subLen \<leftarrow> c_strnlen m b substrMax;
          if subLen = 0 then Some (EOK, Some 0)
          else if substrMax = 0 then Some (EINVAL, Some 0)
          else if subLen > strLen then Some (EINVAL, Some 0)
          else strstr_loop m a b subLen (strLen - subLen) 0
        })"

section \<open>Tokens\<close>

text \<open>
  Both loops of \<open>strtok_s\<close> advance \<open>*context\<close> until the NUL or until the character is, or is
  not, one of the delimiters: \<open>delims = True\<close> skips delimiters, \<open>delims = False\<close> scans a token.
\<close>

function strtok_scan :: "bool \<Rightarrow> mem \<Rightarrow> nat \<Rightarrow> nat \<Rightarrow> nat c_result" where
  "strtok_scan delims m d p =
     (if p < length m then
        if m ! p = 0 then Some p
        else do {
          r \<leftarrow> c_strchr m d (m ! p);
          if (r \<noteq> None) = delims then strtok_scan delims m d (Suc p) else Some p
        }
      else None)"
  by pat_completeness auto
termination
  by (relation "measure (\<lambda>(delims, m, d, p). length m - p)") auto

declare strtok_scan.simps [simp del]

text \<open>
  \<open>context\<close> is \<open>None\<close> when the caller passes NULL and \<open>Some c\<close> when \<open>*context = c\<close>; the
  result is the token, the new \<open>*context\<close> and the memory.
\<close>

definition strtok_s :: "mem \<Rightarrow> ptr \<Rightarrow> ptr \<Rightarrow> ptr option \<Rightarrow> (ptr \<times> ptr option \<times> mem) c_result" where
  "strtok_s m strToken strDelimit ctx =
     (case ctx of
        None \<Rightarrow> Some (None, None, m)
      | Some c0 \<Rightarrow>
          case strDelimit of
            None \<Rightarrow> Some (None, Some c0, m)
          | Some d \<Rightarrow>
              (case (if strToken \<noteq> None then strToken else c0) of
                 None \<Rightarrow> Some (None, Some None, m)
               | Some p \<Rightarrow> do {
                   q \<leftarrow> strtok_scan True m d p;
                   if m ! q = 0 then Some (None, Some None, m)
                   else do {
                     e \<leftarrow> strtok_scan False m d q;
                     if m ! e \<noteq> 0 then do { m' \<leftarrow> store m e [0]; Some (Some q, Some (Some (Suc e)), m') }
                     else Some (Some q, Some None, m)
                   }
                 }))"

section \<open>Formatted output\<close>

text \<open>
  \<open>format\<close> is \<open>None\<close> for a NULL format and otherwise what the format and its arguments render
  to. \<open>sprintf_s\<close> and \<open>snprintf_s\<close> differ from the \<open>va_list\<close> versions only in how the
  arguments arrive.
\<close>

definition vsprintf_s :: "mem \<Rightarrow> ptr \<Rightarrow> nat \<Rightarrow> rendered option \<Rightarrow> (int \<times> mem) c_result" where
  "vsprintf_s m dest destMax format =
     (case dest of
        None \<Rightarrow> Some (-1, m)
      | Some d \<Rightarrow>
          if destMax = 0 then Some (-1, m)
          else case format of
            None \<Rightarrow> do { m' \<leftarrow> store m d [0]; Some (-1, m') }
          | Some r \<Rightarrow> do {
              (result, m') \<leftarrow> c_vsnprintf m d destMax r;
              if result < 0 \<or> result \<ge> int destMax then do { m'' \<leftarrow> store m' d [0]; Some (-1, m'') }
              else Some (result, m')
            })"

definition sprintf_s :: "mem \<Rightarrow> ptr \<Rightarrow> nat \<Rightarrow> rendered option \<Rightarrow> (int \<times> mem) c_result" where
  "sprintf_s m dest destMax format =
     (case dest of
        None \<Rightarrow> Some (-1, m)
      | Some d \<Rightarrow>
          if destMax = 0 then Some (-1, m)
          else case format of
            None \<Rightarrow> do { m' \<leftarrow> store m d [0]; Some (-1, m') }
          | Some r \<Rightarrow> do {
              (result, m') \<leftarrow> c_vsnprintf m d destMax r;
              if result < 0 \<or> result \<ge> int destMax then do { m'' \<leftarrow> store m' d [0]; Some (-1, m'') }
              else Some (result, m')
            })"

definition vsnprintf_s :: "mem \<Rightarrow> ptr \<Rightarrow> nat \<Rightarrow> nat \<Rightarrow> rendered option \<Rightarrow> (int \<times> mem) c_result" where
  "vsnprintf_s m dest destMax cnt format =
     (case dest of
        None \<Rightarrow> Some (-1, m)
      | Some d \<Rightarrow>
          if destMax = 0 then Some (-1, m)
          else case format of
            None \<Rightarrow> do { m' \<leftarrow> store m d [0]; Some (-1, m') }
          | Some r \<Rightarrow> do {
              let maxWrite = (if cnt < destMax - 1 then cnt else destMax - 1);
              (result, m') \<leftarrow> c_vsnprintf m d (maxWrite + 1) r;
              if result < 0 then do { m'' \<leftarrow> store m' d [0]; Some (-1, m'') }
              else do { m'' \<leftarrow> store m' (d + maxWrite) [0]; Some (result, m'') }
            })"

definition snprintf_s :: "mem \<Rightarrow> ptr \<Rightarrow> nat \<Rightarrow> nat \<Rightarrow> rendered option \<Rightarrow> (int \<times> mem) c_result" where
  "snprintf_s m dest destMax cnt format =
     (case dest of
        None \<Rightarrow> Some (-1, m)
      | Some d \<Rightarrow>
          if destMax = 0 then Some (-1, m)
          else case format of
            None \<Rightarrow> do { m' \<leftarrow> store m d [0]; Some (-1, m') }
          | Some r \<Rightarrow> do {
              let maxWrite = (if cnt < destMax - 1 then cnt else destMax - 1);
              (result, m') \<leftarrow> c_vsnprintf m d (maxWrite + 1) r;
              if result < 0 then do { m'' \<leftarrow> store m' d [0]; Some (-1, m'') }
              else do { m'' \<leftarrow> store m' (d + maxWrite) [0]; Some (result, m'') }
            })"

section \<open>Formatted input\<close>

text \<open>
  The scanning functions check their pointers and hand over to \<open>vsscanf\<close>, \<open>vfscanf\<close> and
  \<open>vscanf\<close>, which are arguments here; \<open>'f\<close> is the type of \<open>FILE *\<close> and \<open>'r\<close> what a scan
  stores through its arguments. \<open>bufferSize\<close> is not used.
\<close>

definition vsscanf_s_internal :: "(nat \<Rightarrow> nat \<Rightarrow> int \<times> 'r) \<Rightarrow> 'r \<Rightarrow> ptr \<Rightarrow> ptr \<Rightarrow> int \<times> 'r" where
  "vsscanf_s_internal vsscanf args buffer format =
     (case (buffer, format) of (Some b, Some f) \<Rightarrow> vsscanf b f | _ \<Rightarrow> (C_EOF, args))"

definition vsscanf_s :: "(nat \<Rightarrow> nat \<Rightarrow> int \<times> 'r) \<Rightarrow> 'r \<Rightarrow> ptr \<Rightarrow> nat \<Rightarrow> ptr \<Rightarrow> int \<times> 'r" where
  "vsscanf_s vsscanf args buffer bufferSize format =
     (if buffer = None \<or> format = None then (C_EOF, args)
      else vsscanf_s_internal vsscanf args buffer format)"

definition sscanf_s :: "(nat \<Rightarrow> nat \<Rightarrow> int \<times> 'r) \<Rightarrow> 'r \<Rightarrow> ptr \<Rightarrow> nat \<Rightarrow> ptr \<Rightarrow> int \<times> 'r" where
  "sscanf_s vsscanf args buffer bufferSize format =
     (if buffer = None \<or> format = None then (C_EOF, args)
      else vsscanf_s_internal vsscanf args buffer format)"

definition vfscanf_s :: "('f \<Rightarrow> nat \<Rightarrow> int \<times> 'r) \<Rightarrow> 'r \<Rightarrow> 'f option \<Rightarrow> ptr \<Rightarrow> int \<times> 'r" where
  "vfscanf_s vfscanf args stream format =
     (case (stream, format) of (Some s, Some f) \<Rightarrow> vfscanf s f | _ \<Rightarrow> (C_EOF, args))"

definition fscanf_s :: "('f \<Rightarrow> nat \<Rightarrow> int \<times> 'r) \<Rightarrow> 'r \<Rightarrow> 'f option \<Rightarrow> ptr \<Rightarrow> int \<times> 'r" where
  "fscanf_s vfscanf args stream format =
     (if stream = None \<or> format = None then (C_EOF, args) else vfscanf_s vfscanf args stream format)"

definition vscanf_s :: "(nat \<Rightarrow> int \<times> 'r) \<Rightarrow> 'r \<Rightarrow> ptr \<Rightarrow> int \<times> 'r" where
  "vscanf_s vscanf args format = (case format of Some f \<Rightarrow> vscanf f | None \<Rightarrow> (C_EOF, args))"

definition scanf_s :: "(nat \<Rightarrow> int \<times> 'r) \<Rightarrow> 'r \<Rightarrow> ptr \<Rightarrow> int \<times> 'r" where
  "scanf_s vscanf args format =
     (if format = None then (C_EOF, args) else vscanf_s vscanf args format)"

section \<open>Copy and concatenation: lemmas\<close>

lemma memcpy_s_memmove_s:
  assumes "d + destMax \<le> length m" and "s + cnt \<le> length m"
  shows "memcpy_s m (Some d) destMax (Some s) cnt =
    (if d = s \<and> 0 < cnt \<and> cnt \<le> destMax then None
     else memmove_s m (Some d) destMax (Some s) cnt)"
  using assms
  by (auto simp: memcpy_s_def memmove_s_def ptr_add_def c_memcpy_def overlap_def)

lemma memmove_s_eq:
  assumes "d + destMax \<le> length m" and "s + cnt \<le> length m" and "0 < destMax" and "cnt \<le> destMax"
  shows "memmove_s m (Some d) destMax (Some s) cnt = Some (EOK, overwrite d (seg s cnt m) m)"
  using assms by (simp add: memmove_s_def c_memmove_eq)

lemma memcpy_s_cases:
  assumes "memcpy_s m dest destMax src cnt = Some (r, m')"
  shows "(r = EINVAL \<and> m' = m \<and> (dest = None \<or> destMax = 0 \<or> src = None)) \<or>
         (r = ERANGE \<and> m' = m \<and> destMax < cnt) \<or>
         (\<exists>d s. r = EOK \<and> dest = Some d \<and> src = Some s \<and> cnt \<le> destMax \<and>
            d + cnt \<le> length m \<and> s + cnt \<le> length m \<and> m' = overwrite d (seg s cnt m) m)"
  using assms
  by (auto simp: memcpy_s_def c_memcpy_def c_memmove_def load_def store_def bind_eq_Some_conv
      split: option.splits if_splits)

lemma strcpy_s_eq:
  assumes "is_string m s str" and "d + destMax \<le> length m" and "0 < destMax"
    and "s + length str < d \<or> d + destMax \<le> s"
  shows "strcpy_s m (Some d) destMax (Some s) =
    (if length str < destMax then Some (EOK, overwrite d (str @ [0]) m)
     else Some (ERANGE, overwrite d [0] m))"
proof -
  have len: "s + length str < length m" using assms(1) by (simp add: is_string_def)
  have "c_memcpy m d s (Suc (length str)) = Some (overwrite d (str @ [0]) m)" if "length str < destMax"
    using that assms len is_string_seg [OF assms(1)]
    by (subst c_memcpy_eq) (auto simp: overlap_def)
  then show ?thesis
    using assms by (simp add: strcpy_s_def is_string_strlen store_eq)
qed

lemma strncpy_s_eq:
  assumes "is_string m s str" and "d + destMax \<le> length m" and "0 < destMax"
    and "s + length str < d \<or> d + destMax \<le> s"
  shows "strncpy_s m (Some d) destMax (Some s) cnt =
    (if length (take cnt str) < destMax then Some (EOK, overwrite d (take cnt str @ [0]) m)
     else Some (ERANGE, overwrite d [0] m))"
proof -
  define k where "k = length (take cnt str)"
  have len: "s + length str < length m" "k \<le> length str"
    using assms(1) by (simp_all add: is_string_def k_def)
  have nlen: "c_strnlen m s cnt = Some k"
    using is_string_strnlen [OF assms(1)] by (simp add: k_def min.commute)
  have "c_memcpy m d s k = Some (overwrite d (take cnt str) m)" if "k < destMax"
    using that assms len is_string_take [OF assms(1), of cnt]
    by (subst c_memcpy_eq) (auto simp: overlap_def k_def min.commute)
  moreover have "store (overwrite d (take cnt str) m) (d + k) [0] =
      Some (overwrite d (take cnt str @ [0]) m)" if "k < destMax"
    using that assms overwrite_overwrite_next [of d "take cnt str" "[0]" m]
    by (simp add: store_def k_def)
  ultimately show ?thesis
    using assms nlen by (simp add: strncpy_s_def store_eq k_def [symmetric] del: length_take)
qed

lemma strcat_s_eq:
  assumes "is_string m d ds" and "is_string m s str" and "d + destMax \<le> length m"
    and "length ds < destMax" and "s + length str < d \<or> d + destMax \<le> s"
  shows "strcat_s m (Some d) destMax (Some s) =
    (if length ds + length str < destMax then Some (EOK, overwrite (d + length ds) (str @ [0]) m)
     else Some (ERANGE, m))"
proof -
  have len: "s + length str < length m" using assms(2) by (simp add: is_string_def)
  have dl: "c_strnlen m d destMax = Some (length ds)"
    using is_string_strnlen [OF assms(1)] assms(4) by simp
  have "c_memcpy m (d + length ds) s (Suc (length str)) = Some (overwrite (d + length ds) (str @ [0]) m)"
    if "length ds + length str < destMax"
    using that assms len is_string_seg [OF assms(2)]
    by (subst c_memcpy_eq) (auto simp: overlap_def)
  then show ?thesis
    using assms dl by (simp add: strcat_s_def is_string_strlen)
qed

lemma strncat_s_eq:
  assumes "is_string m d ds" and "is_string m s str" and "d + destMax \<le> length m"
    and "length ds < destMax" and "s + length str < d \<or> d + destMax \<le> s"
  shows "strncat_s m (Some d) destMax (Some s) cnt =
    (if length ds + length (take cnt str) < destMax
     then Some (EOK, overwrite (d + length ds) (take cnt str @ [0]) m)
     else Some (ERANGE, m))"
proof -
  define k where "k = length (take cnt str)"
  have len: "s + length str < length m" "k \<le> length str"
    using assms(2) by (simp_all add: is_string_def k_def)
  have dl: "c_strnlen m d destMax = Some (length ds)"
    using is_string_strnlen [OF assms(1)] assms(4) by simp
  have sl: "c_strnlen m s cnt = Some k"
    using is_string_strnlen [OF assms(2)] by (simp add: k_def min.commute)
  have "c_memcpy m (d + length ds) s k = Some (overwrite (d + length ds) (take cnt str) m)"
    if "length ds + k < destMax"
    using that assms len is_string_take [OF assms(2), of cnt]
    by (subst c_memcpy_eq) (auto simp: overlap_def k_def min.commute)
  moreover have "store (overwrite (d + length ds) (take cnt str) m) (d + length ds + k) [0] =
      Some (overwrite (d + length ds) (take cnt str @ [0]) m)" if "length ds + k < destMax"
    using that assms overwrite_overwrite_next [of "d + length ds" "take cnt str" "[0]" m]
    by (simp add: store_def k_def)
  ultimately show ?thesis
    using assms dl sl by (simp add: strncat_s_def k_def [symmetric] del: length_take)
qed

section \<open>Comparison and search: lemmas\<close>

text \<open>The reference order on strings: lexicographic, a proper prefix is smaller.\<close>

fun str_cmp :: "byte list \<Rightarrow> byte list \<Rightarrow> int" where
  "str_cmp [] [] = 0"
| "str_cmp [] (y # ys) = -1"
| "str_cmp (x # xs) [] = 1"
| "str_cmp (x # xs) (y # ys) = (if x < y then -1 else if y < x then 1 else str_cmp xs ys)"

lemma str_cmp_cmp_bytes:
  "str_cmp xs ys =
     (let n = min (length xs) (length ys); c = cmp_bytes (take n xs) (take n ys)
      in if c \<noteq> 0 then c else if length xs < length ys then -1 else if length ys < length xs then 1 else 0)"
  by (induction xs ys rule: str_cmp.induct) (auto simp: Let_def)

lemma str_cmp_antisym: "str_cmp ys xs = - str_cmp xs ys"
  by (induction xs ys rule: str_cmp.induct) auto

lemma str_cmp_0_iff: "str_cmp xs ys = 0 \<longleftrightarrow> xs = ys"
  by (induction xs ys rule: str_cmp.induct) auto

lemma strcmp_s_eq:
  assumes "is_string m a s" and "is_string m b t" and "length s \<le> max1" and "length t \<le> max2"
    and "0 < max1" and "0 < max2"
  shows "strcmp_s m (Some a) max1 (Some b) max2 (Some v) = Some (EOK, Some (str_cmp s t))"
proof -
  have "c_strnlen m a max1 = Some (length s)" "c_strnlen m b max2 = Some (length t)"
    using is_string_strnlen [OF assms(1)] is_string_strnlen [OF assms(2)] assms by simp_all
  moreover have "c_memcmp m a b (min (length s) (length t)) =
      Some (cmp_bytes (take (min (length s) (length t)) s) (take (min (length s) (length t)) t))"
    using assms by (intro c_memcmp_strings) auto
  ultimately show ?thesis
    using assms by (auto simp: strcmp_s_def no_string_def str_cmp_cmp_bytes Let_def min_def)
qed

lemma strncmp_s_eq:
  assumes "is_string m a s" and "is_string m b t" and "length s \<le> max1" and "length t \<le> max2"
    and "0 < max1" and "0 < max2" and k_def: "k = min (min (length s) cnt) (length t)"
  shows "strncmp_s m (Some a) max1 (Some b) max2 cnt (Some v) =
    Some (EOK, Some (cmp_bytes (take k s) (take k t)))"
proof -
  have "c_strnlen m a max1 = Some (length s)" "c_strnlen m b max2 = Some (length t)"
    using is_string_strnlen [OF assms(1)] is_string_strnlen [OF assms(2)] assms by simp_all
  moreover have "c_memcmp m a b k = Some (cmp_bytes (take k s) (take k t))"
    using assms by (intro c_memcmp_strings) (auto simp: k_def)
  moreover have "(if length t < (if length s < cnt then length s else cnt) then length t
      else if length s < cnt then length s else cnt) = k"
    by (auto simp: k_def)
  ultimately show ?thesis
    using assms(5,6) by (simp add: strncmp_s_def no_string_def Let_def)
qed

lemma strchr_s_eq:
  assumes "is_string m a s" and "length s \<le> strMax" and "0 < strMax"
  shows "strchr_s m (Some a) strMax c (Some v) =
    Some (case find (\<lambda>i. s ! i = word_of_int c) [0..<length s] of
            None \<Rightarrow> (EINVAL, Some 0) | Some i \<Rightarrow> (EOK, Some i))"
proof -
  let ?P = "\<lambda>b. b \<noteq> (word_of_int c :: byte)"
  let ?k = "length (takeWhile ?P s)"
  have s: "seg a (length s) m = s" "a + length s < length m" using assms(1) by (auto simp: is_string_def)
  have n: "c_strnlen m a strMax = Some (length s)"
    using is_string_strnlen [OF assms(1)] assms(2) by simp
  have kl: "?k \<le> length s" by (rule length_takeWhile_le)
  have mc: "c_memchr m a (word_of_int c) (length s) =
      Some (if ?k = length s then None else Some (a + ?k))"
    using s kl by (simp add: c_memchr_def Let_def)
  have "find (\<lambda>i. s ! i = word_of_int c) [0..<length s] = (if ?k = length s then None else Some ?k)"
  proof (cases "?k = length s")
    case True
    then have "\<forall>i < length s. s ! i \<noteq> word_of_int c"
      using takeWhile_full [of ?P s] by (simp add: all_set_conv_all_nth)
    with True show ?thesis by (simp add: find_None_iff)
  next
    case False
    with kl have "?k < length s" by simp
    moreover have "s ! ?k = word_of_int c"
      using nth_length_takeWhile [of ?P s] False kl by simp
    moreover have "s ! j \<noteq> word_of_int c" if "j < ?k" for j
      using set_takeWhileD [OF nth_mem [OF that]] takeWhile_nth [OF that] by simp
    ultimately show ?thesis
      using False by (auto simp: find_Some_iff)
  qed
  then show ?thesis
    using assms(3) n mc by (auto simp: strchr_s_def no_string_def)
qed

lemma strrchr_loop_eq:
  assumes "is_string m a s" and "n \<le> length s"
  shows "strrchr_loop m a c n =
    Some (case find (\<lambda>i. s ! i = c) (rev [0..<n]) of
            None \<Rightarrow> (EINVAL, Some 0) | Some i \<Rightarrow> (EOK, Some i))"
  using assms(2)
proof (induction n)
  case 0
  then show ?case by simp
next
  case (Suc n)
  have "load m (a + n) 1 = Some [s ! n]"
  proof -
    have "m ! (a + n) = s ! n"
      using assms(1) Suc.prems nth_seg [of n "length s" a m] by (auto simp: is_string_def)
    then show ?thesis
      using assms(1) Suc.prems
      by (auto simp: load_def is_string_def seg_def take_Suc_conv_app_nth)
  qed
  with Suc show ?case by simp
qed

lemma strrchr_s_eq:
  assumes "is_string m a s" and "length s \<le> strMax" and "0 < strMax"
  shows "strrchr_s m (Some a) strMax c (Some v) =
    Some (case find (\<lambda>i. s ! i = word_of_int c) (rev [0..<length s]) of
            None \<Rightarrow> (EINVAL, Some 0) | Some i \<Rightarrow> (EOK, Some i))"
proof -
  have "c_strnlen m a strMax = Some (length s)"
    using is_string_strnlen [OF assms(1)] assms(2) by simp
  then show ?thesis
    using strrchr_loop_eq [OF assms(1) order_refl] assms(3)
    by (simp add: strrchr_s_def no_string_def)
qed

lemma strstr_loop_eq:
  assumes "is_string m a s" and "is_string m b t" and "length t \<le> length s"
  shows "strstr_loop m a b (length t) (length s - length t) i =
    Some (case find (\<lambda>i. seg i (length t) s = t) [i..<Suc (length s - length t)] of
            None \<Rightarrow> (EINVAL, Some 0) | Some i \<Rightarrow> (EOK, Some i))"
proof (induction "Suc (length s - length t) - i" arbitrary: i)
  case 0
  then show ?case by (simp add: strstr_loop.simps)
next
  case (Suc n)
  let ?L = "length s - length t"
  from Suc.hyps(2) have i: "i \<le> ?L" by simp
  have "c_memcmp m (a + i) b (length t) = Some (cmp_bytes (seg i (length t) s) t)"
    using assms i by (intro c_memcmp_window) auto
  moreover have "cmp_bytes (seg i (length t) s) t = 0 \<longleftrightarrow> seg i (length t) s = t"
    using assms(3) i by (intro cmp_bytes_0_iff) simp
  moreover have "[i..<Suc ?L] = i # [Suc i..<Suc ?L]"
    using i by (simp add: upt_conv_Cons del: upt_Suc)
  moreover have "strstr_loop m a b (length t) ?L (Suc i) =
    Some (case find (\<lambda>i. seg i (length t) s = t) [Suc i..<Suc ?L] of
            None \<Rightarrow> (EINVAL, Some 0) | Some i \<Rightarrow> (EOK, Some i))"
    using Suc.hyps(2) by (intro Suc.hyps(1)) simp
  ultimately show ?case
    using i by (simp add: strstr_loop.simps [of m a b "length t" ?L i] del: upt_Suc)
qed

lemma find_window_restrict:
  "length t \<le> length s \<Longrightarrow> t \<noteq> [] \<Longrightarrow>
   find (\<lambda>i. seg i (length t) s = t) [0..<Suc (length s)] =
   find (\<lambda>i. seg i (length t) s = t) [0..<Suc (length s - length t)]"
proof -
  assume t: "length t \<le> length s" "t \<noteq> []"
  let ?P = "\<lambda>i. seg i (length t) s = t"
  let ?k = "Suc (length s - length t)"
  have none: "find ?P [?k..<Suc (length s)] = None"
  proof -
    have "\<not> ?P i" if "i \<in> set [?k..<Suc (length s)]" for i
    proof
      assume "?P i"
      then have "length (seg i (length t) s) = length t" by simp
      with that t show False by (auto simp: min_def split: if_splits)
    qed
    then show ?thesis by (simp add: find_None_iff del: upt_Suc)
  qed
  have "?k \<le> Suc (length s)" by simp
  then have split: "[0..<Suc (length s)] = [0..<?k] @ [?k..<Suc (length s)]"
    by (metis le_add_diff_inverse upt_add_eq_append zero_le)
  have app: "find ?P (xs @ ys) = (case find ?P xs of None \<Rightarrow> find ?P ys | Some x \<Rightarrow> Some x)" for xs ys
    by (induction xs) auto
  show ?thesis
    by (simp only: split app none) (simp split: option.splits)
qed

lemma strstr_s_eq:
  assumes "is_string m a s" and "is_string m b t" and "length s \<le> strMax" and "length t \<le> substrMax"
    and "0 < strMax" and "0 < substrMax"
  shows "strstr_s m (Some a) strMax (Some b) substrMax (Some v) =
    Some (case find (\<lambda>i. seg i (length t) s = t) [0..<Suc (length s)] of
            None \<Rightarrow> (EINVAL, Some 0) | Some i \<Rightarrow> (EOK, Some i))"
proof -
  have n: "c_strnlen m a strMax = Some (length s)" "c_strnlen m b substrMax = Some (length t)"
    using is_string_strnlen [OF assms(1)] is_string_strnlen [OF assms(2)] assms by simp_all
  consider (empty) "t = []" | (long) "length s < length t" | (fits) "t \<noteq> []" "length t \<le> length s"
    by linarith
  then show ?thesis
  proof cases
    case empty
    then show ?thesis
      using n assms by (simp add: strstr_s_def no_string_def upt_conv_Cons del: upt_Suc)
  next
    case long
    have "seg i (length t) s \<noteq> t" for i
      using long by (metis length_seg min_less_iff_conj not_less_iff_gr_or_eq diff_le_self le_less_trans)
    then have "find (\<lambda>i. seg i (length t) s = t) [0..<Suc (length s)] = None"
      by (simp add: find_None_iff)
    with long n assms show ?thesis by (auto simp: strstr_s_def no_string_def)
  next
    case fits
    then show ?thesis
      using n assms strstr_loop_eq [OF assms(1,2), of 0] find_window_restrict [of t s]
      by (simp add: strstr_s_def no_string_def del: upt_Suc)
  qed
qed

section \<open>Formatted output and tokens: lemmas\<close>

lemma snprintf_s_eq:
  assumes "d + destMax \<le> length m" and "0 < destMax" and k_def: "k = min cnt (destMax - 1)"
  shows "snprintf_s m (Some d) destMax cnt (Some (Rendered t)) =
    Some (int (length t), overwrite (d + k) [0] (overwrite d (take k t @ [0]) m))"
proof -
  have k: "(if cnt < destMax - 1 then cnt else destMax - 1) = k" "d + k < length m"
    using assms by auto
  then have "d + length (take k t @ [0]) \<le> length m" by simp
  then show ?thesis
    using assms(2) k unfolding snprintf_s_def c_vsnprintf_def
    by (simp add: store_eq k(1) del: length_append length_take)
qed

lemma vsnprintf_s_eq_snprintf_s: "vsnprintf_s = snprintf_s"
  by (intro ext) (simp add: vsnprintf_s_def snprintf_s_def)

lemma vsprintf_s_eq_sprintf_s: "vsprintf_s = sprintf_s"
  by (intro ext) (simp add: vsprintf_s_def sprintf_s_def)

lemma sprintf_s_eq:
  assumes "d + destMax \<le> length m" and "0 < destMax"
  shows "sprintf_s m (Some d) destMax (Some (Rendered t)) =
    (if length t < destMax then Some (int (length t), overwrite d (t @ [0]) m)
     else Some (-1, overwrite d [0] (overwrite d (take (destMax - 1) t @ [0]) m)))"
  using assms by (auto simp: sprintf_s_def c_vsnprintf_def store_def)

lemma strtok_scan_eq:
  assumes "is_string m d ds"
  shows "is_string m p w \<Longrightarrow>
    strtok_scan b m d p = Some (p + length (takeWhile (\<lambda>x. (x \<in> set ds) = b) w))"
proof (induction w arbitrary: p)
  case Nil
  then show ?case by (simp add: strtok_scan.simps is_string_def)
next
  case (Cons x w)
  from is_string_Cons [OF Cons.prems]
  have x: "p < length m" "m ! p = x" "x \<noteq> 0" "is_string m (Suc p) w" by auto
  obtain r where r: "c_strchr m d x = Some r" "r \<noteq> None \<longleftrightarrow> x \<in> set ds"
    using c_strchr_delims [OF assms x(3)] by blast
  show ?case
    using x r Cons.IH [OF x(4)] by (auto simp: strtok_scan.simps [of b m d p])
qed

lemma strtok_skip_string:
  assumes "is_string m p w" and "skip = dropWhile P w"
  shows "is_string m (p + (length w - length skip)) skip"
proof -
  have "length w = length (takeWhile P w) + length skip"
    by (simp add: assms(2) flip: length_append)
  then show ?thesis
    using is_string_suffix [of m p "takeWhile P w" skip] assms by simp
qed

lemma strtok_s_eq:
  assumes "is_string m d ds" and "is_string m p w"
    and skip_def: "skip = dropWhile (\<lambda>x. x \<in> set ds) w"
    and tok_def: "tok = takeWhile (\<lambda>x. x \<notin> set ds) skip"
    and q_def: "q = p + (length w - length skip)"
  shows "strtok_s m (Some p) (Some d) (Some c) =
    (if skip = [] then Some (None, Some None, m)
     else if length tok = length skip then Some (Some q, Some None, m)
     else Some (Some q, Some (Some (Suc (q + length tok))), overwrite (q + length tok) [0] m))"
proof -
  let ?pre = "takeWhile (\<lambda>x. x \<in> set ds) w"
  have sk: "is_string m q skip"
    using strtok_skip_string [OF assms(2) skip_def] q_def by simp
  have "length w = length ?pre + length skip"
    by (simp add: skip_def flip: length_append)
  then have q: "q = p + length ?pre" using q_def by simp
  have s1: "strtok_scan True m d p = Some q"
    using strtok_scan_eq [OF assms(1,2), of True] q by simp
  have s2: "strtok_scan False m d q = Some (q + length tok)"
    using strtok_scan_eq [OF assms(1) sk, of False] by (simp add: tok_def)
  have mq: "m ! q = 0 \<longleftrightarrow> skip = []"
    using sk by (rule is_string_nth_0)
  have me: "m ! (q + length tok) = 0 \<longleftrightarrow> length tok = length skip" and le: "q + length tok < length m"
  proof -
    let ?rest = "dropWhile (\<lambda>x. x \<notin> set ds) skip"
    have rest: "is_string m (q + length tok) ?rest"
      using is_string_suffix [of m q tok ?rest] sk by (simp add: tok_def)
    then show "q + length tok < length m" by (simp add: is_string_def)
    have "length skip = length tok + length ?rest"
      by (simp add: tok_def flip: length_append)
    then show "m ! (q + length tok) = 0 \<longleftrightarrow> length tok = length skip"
      using is_string_nth_0 [OF rest] by simp
  qed
  show ?thesis
    using s1 s2 mq me le by (simp add: strtok_s_def store_eq)
qed

section \<open>Properties\<close>

text \<open>
  C36. \<open>memcpy_s\<close> copies correctly between overlapping regions: for a destination object of
  \<open>destMax\<close> bytes and a readable source it returns \<open>EOK\<close> with the old source bytes at the
  destination and nothing else changed, exactly as \<open>memmove_s\<close>, unless source and destination
  are the same address, where it calls \<open>memcpy\<close> on overlapping memory, which is undefined.
\<close>

theorem memcpy_s_overlap_safe:
  assumes "d + destMax \<le> length m" and "s + cnt \<le> length m" and "0 < destMax" and "cnt \<le> destMax"
  shows "memmove_s m (Some d) destMax (Some s) cnt = Some (EOK, overwrite d (seg s cnt m) m) \<and>
    memcpy_s m (Some d) destMax (Some s) cnt =
      (if d = s \<and> 0 < cnt then None else Some (EOK, overwrite d (seg s cnt m) m))"
  using memmove_s_eq [OF assms] memcpy_s_memmove_s [OF assms(1,2)] assms(4) by simp

theorem memcpy_s_overlap_safe_witness:
  "memcpy_s [1, 2, 3, 4, 5, 0] (Some 1) 4 (Some 0) 3 = Some (EOK, [1, 1, 2, 3, 5, 0])"
  using memcpy_s_overlap_safe [of 1 4 "[1, 2, 3, 4, 5, 0]" 0 3]
  by (simp add: overwrite_def seg_def)

text \<open>
  Every return of \<open>memcpy_s\<close>: a NULL argument or \<open>destMax = 0\<close> gives \<open>EINVAL\<close> and a count
  above \<open>destMax\<close> gives \<open>ERANGE\<close>, both with the memory unchanged; \<open>EOK\<close> comes only with both
  pointers non-NULL, a count within \<open>destMax\<close>, and exactly \<open>cnt\<close> bytes copied.
\<close>

lemma memcpy_s_branches:
  assumes "memcpy_s m dest destMax src cnt = Some (r, m')"
  shows "(r = EINVAL \<and> m' = m \<and> (dest = None \<or> destMax = 0 \<or> src = None)) \<or>
         (r = ERANGE \<and> m' = m \<and> destMax < cnt) \<or>
         (\<exists>d s. r = EOK \<and> dest = Some d \<and> src = Some s \<and> cnt \<le> destMax \<and>
            d + cnt \<le> length m \<and> s + cnt \<le> length m \<and> m' = overwrite d (seg s cnt m) m)"
  using assms by (rule memcpy_s_cases)

text \<open>
  C37. \<open>strncpy_s\<close> always leaves a terminated string inside the destination object: the first
  \<open>cnt\<close> characters of the source when they and the NUL fit, otherwise the empty string with
  \<open>ERANGE\<close>; the source string and everything outside the object are unchanged.
\<close>

theorem strncpy_s_sound:
  assumes "is_string m s str" and "d + destMax \<le> length m" and "0 < destMax"
    and "s + length str < d \<or> d + destMax \<le> s"
  shows "\<exists>m'. strncpy_s m (Some d) destMax (Some s) cnt =
       Some (if length (take cnt str) < destMax then EOK else ERANGE, m') \<and>
     is_string m' d (if length (take cnt str) < destMax then take cnt str else []) \<and>
     is_string m' s str \<and> same_outside m m' d destMax"
proof -
  let ?t = "if length (take cnt str) < destMax then take cnt str else []"
  let ?m = "overwrite d (?t @ [0]) m"
  have t: "length ?t < destMax" "0 \<notin> set ?t"
    using assms(1,3) by (auto simp: is_string_def dest: in_set_takeD)
  have fit: "d + length (?t @ [0]) \<le> length m" using t(1) assms(2) by simp
  have "same_outside m ?m d destMax" using t(1) assms(2) fit by (intro same_outside_overwrite) auto
  moreover from this assms have "is_string ?m s str" by (auto intro: same_outside_string)
  moreover have "is_string ?m d ?t" using t assms(2) by (intro is_string_overwrite) auto
  moreover have "strncpy_s m (Some d) destMax (Some s) cnt =
      Some (if length (take cnt str) < destMax then EOK else ERANGE, ?m)"
    using strncpy_s_eq [OF assms] by auto
  ultimately show ?thesis by blast
qed

theorem strncpy_s_sound_witness:
  "\<exists>m'. strncpy_s [65, 66, 0, 9, 9] (Some 3) 2 (Some 0) 1 = Some (EOK, m') \<and> is_string m' 3 [65]"
  using strncpy_s_sound [of "[65, 66, 0, 9, 9]" 0 "[65, 66]" 3 2 1]
  by (auto simp: is_string_def seg_def)

text \<open>
  \<open>strncat_s\<close> appends: the destination string becomes the old one followed by the first
  \<open>cnt\<close> characters of the source when the result and its NUL fit into \<open>destMax\<close>; otherwise it
  returns \<open>ERANGE\<close> and changes nothing.
\<close>

lemma strncat_s_appends:
  assumes "is_string m d ds" and "is_string m s str" and "d + destMax \<le> length m"
    and "length ds < destMax" and "s + length str < d \<or> d + destMax \<le> s"
  shows "if length ds + length (take cnt str) < destMax
    then \<exists>m'. strncat_s m (Some d) destMax (Some s) cnt = Some (EOK, m') \<and>
           is_string m' d (ds @ take cnt str) \<and> is_string m' s str \<and> same_outside m m' d destMax
    else strncat_s m (Some d) destMax (Some s) cnt = Some (ERANGE, m)"
proof (cases "length ds + length (take cnt str) < destMax")
  case True
  let ?m = "overwrite (d + length ds) (take cnt str @ [0]) m"
  have fit: "d + length ds + length (take cnt str @ [0]) \<le> length m" using True assms(3) by simp
  have z: "0 \<notin> set (take cnt str)" using assms(2) by (auto simp: is_string_def dest: in_set_takeD)
  have so: "same_outside m ?m d destMax" using True fit by (intro same_outside_overwrite) auto
  have "is_string ?m d (ds @ take cnt str)" using fit z by (intro is_string_append assms(1)) auto
  moreover from so assms(2,5) have "is_string ?m s str" by (auto intro: same_outside_string)
  ultimately show ?thesis using True so strncat_s_eq [OF assms] by auto
next
  case False
  then show ?thesis using strncat_s_eq [OF assms] by auto
qed

text \<open>
  \<open>strcmp_s\<close> computes the lexicographic order of the two strings: the value it stores is that
  of the reference comparison \<open>str_cmp\<close>, so it is 0 exactly on equal strings and changes sign
  when the arguments are swapped.
\<close>

lemma strcmp_s_lexicographic:
  assumes "is_string m a s" and "is_string m b t" and "length s \<le> max1" and "length t \<le> max2"
    and "0 < max1" and "0 < max2"
  shows "strcmp_s m (Some a) max1 (Some b) max2 (Some v) = Some (EOK, Some (str_cmp s t)) \<and>
    strcmp_s m (Some b) max2 (Some a) max1 (Some v) = Some (EOK, Some (- str_cmp s t)) \<and>
    (str_cmp s t = 0 \<longleftrightarrow> s = t)"
  using strcmp_s_eq [OF assms] strcmp_s_eq [OF assms(2,1,4,3,6,5)] str_cmp_antisym [of s t]
    str_cmp_0_iff [of s t] by simp

text \<open>
  \<open>strncmp_s\<close> ignores the end of the shorter string: it compares only the bytes both strings
  have, so a string and any extension of it compare equal whatever the count, although the
  extension is longer than the string within the count.
\<close>

lemma strncmp_s_prefix_equal:
  assumes "is_string m a s" and "is_string m b (s @ t)" and "length s \<le> max1"
    and "length (s @ t) \<le> max2" and "0 < max1" and "0 < max2"
  shows "strncmp_s m (Some a) max1 (Some b) max2 cnt (Some v) = Some (EOK, Some 0)"
  using strncmp_s_eq [OF assms refl] by (simp add: min_def)

text \<open>
  \<open>strstr_s\<close> finds the first occurrence: it reports the least position at which the
  substring occurs in the string, and \<open>EINVAL\<close> when there is none.
\<close>

lemma strstr_s_first_occurrence:
  assumes "is_string m a s" and "is_string m b t" and "length s \<le> strMax" and "length t \<le> substrMax"
    and "0 < strMax" and "0 < substrMax"
  shows "strstr_s m (Some a) strMax (Some b) substrMax (Some v) =
    Some (case find (\<lambda>i. seg i (length t) s = t) [0..<Suc (length s)] of
            None \<Rightarrow> (EINVAL, Some 0) | Some i \<Rightarrow> (EOK, Some i))"
  using assms by (rule strstr_s_eq)

text \<open>
  \<open>snprintf_s\<close> never writes past its limit and always terminates: with
  \<open>k = min cnt (destMax - 1)\<close> the destination holds the first \<open>k\<close> characters of the text, no byte
  outside the first \<open>k + 1\<close> changes, and the value returned is the length of the whole text,
  also when it was truncated.
\<close>

lemma snprintf_s_bounded:
  assumes "d + destMax \<le> length m" and "0 < destMax" and "0 \<notin> set t" and "k = min cnt (destMax - 1)"
  shows "\<exists>m'. snprintf_s m (Some d) destMax cnt (Some (Rendered t)) = Some (int (length t), m') \<and>
    is_string m' d (take k t) \<and> same_outside m m' d (Suc k)"
proof -
  let ?m1 = "overwrite d (take k t @ [0]) m"
  let ?m2 = "overwrite (d + k) [0] ?m1"
  have k: "d + k < length m" using assms by auto
  then have l: "d + length (take k t @ [0]) \<le> length m" by simp
  have "same_outside m ?m1 d (Suc k)" using l by (intro same_outside_overwrite) auto
  moreover have "same_outside ?m1 ?m2 d (Suc k)" using k l by (intro same_outside_overwrite) auto
  ultimately have "same_outside m ?m2 d (Suc k)" by (rule same_outside_trans)
  then show ?thesis
    using snprintf_s_eq [OF assms(1,2,4)] printf_terminated [OF k assms(3)] by blast
qed

lemma snprintf_s_bounded_witness:
  "\<exists>m'. snprintf_s [9, 9, 9, 9] (Some 0) 3 5 (Some (Rendered [65, 66, 67, 68])) = Some (4, m') \<and>
     is_string m' 0 [65, 66] \<and> same_outside [9, 9, 9, 9] m' 0 3"
proof -
  let ?t = "[65, 66, 67, 68] :: byte list"
  have "\<exists>m'. snprintf_s [9, 9, 9, 9] (Some 0) 3 5 (Some (Rendered ?t)) = Some (int (length ?t), m') \<and>
     is_string m' 0 (take 2 ?t) \<and> same_outside [9, 9, 9, 9] m' 0 (Suc 2)"
    by (rule snprintf_s_bounded) simp_all
  then show ?thesis by (simp add: numeral_2_eq_2 numeral_3_eq_3)
qed

text \<open>
  One call of \<open>strtok_s\<close> on a string returns the first maximal run of non-delimiters: the
  pointer it returns is a terminated string holding exactly that token, and the context is left
  at the rest of the string after the delimiter that ended it, or NULL when nothing is left.
\<close>

lemma strtok_s_next_token:
  assumes "is_string m d ds" and "is_string m p w" and "skip = dropWhile (\<lambda>x. x \<in> set ds) w"
    and "tok = takeWhile (\<lambda>x. x \<notin> set ds) skip" and "skip \<noteq> []"
  shows "\<exists>q ctx m'. strtok_s m (Some p) (Some d) (Some c) = Some (Some q, Some ctx, m') \<and>
    is_string m' q tok \<and>
    (case ctx of None \<Rightarrow> skip = tok
     | Some r \<Rightarrow> \<exists>x. x \<in> set ds \<and> skip = tok @ x # drop (Suc (length tok)) skip \<and>
                    is_string m' r (drop (Suc (length tok)) skip))"
proof -
  let ?q = "p + (length w - length skip)"
  have eq: "strtok_s m (Some p) (Some d) (Some c) =
    (if length tok = length skip then Some (Some ?q, Some None, m)
     else Some (Some ?q, Some (Some (Suc (?q + length tok))), overwrite (?q + length tok) [0] m))"
    using strtok_s_eq [OF assms(1-4) refl] assms(5) by simp
  have sk: "is_string m ?q skip"
    using strtok_skip_string [OF assms(2,3)] .
  show ?thesis
  proof (cases "length tok = length skip")
    case True
    then have "tok = skip"
      using takeWhile_full [of "\<lambda>x. x \<notin> set ds" skip] assms(4) by (metis takeWhile_eq_all_conv)
    then show ?thesis using eq sk by auto
  next
    case False
    then obtain x v where x: "skip = tok @ x # v" "x \<in> set ds"
      using takeWhile_stop [of "\<lambda>x. x \<notin> set ds" skip] assms(4) by auto
    then have v: "drop (Suc (length tok)) skip = v" by simp
    show ?thesis
      using eq False is_string_cut [of m ?q tok x v] sk x v by auto
  qed
qed

end
