(* ===== verification/Silog_Slots.thy ===== *)
theory Silog_Slots
  imports Silog_Securec
begin

text \<open>
  The byte buffers of the two queues of \<open>silog_comm\<close>: a block of bytes divided into slots of
  \<open>elementSize\<close> bytes, the offset of slot \<open>i\<close> being the 32-bit product
  \<open>i * elementSize\<close>. An access outside the block is undefined behaviour (\<open>None\<close>). The lemmas
  turn a well-formed block into the list of its slots.
\<close>

section \<open>Slots of the buffer\<close>

text \<open>
  Every copy passes \<open>elementSize\<close> as both \<open>destMax\<close> and \<open>count\<close> to \<open>memcpy_s\<close>, so what is
  left of it is the copy itself (\<open>memcpy_s_slot\<close> below): \<open>slot_get\<close> is a copy out of
  \<open>buffer + i * elementSize\<close>, \<open>slot_set\<close> a copy into it.
\<close>

definition slot_off :: "u32 \<Rightarrow> u32 \<Rightarrow> nat" where
  "slot_off es i = unat (i * es)"

definition slot_get :: "u32 \<Rightarrow> byte list \<Rightarrow> u32 \<Rightarrow> byte list c_result" where
  "slot_get es buf i =
     (if slot_off es i + unat es \<le> length buf then Some (seg (slot_off es i) (unat es) buf) else None)"

definition slot_set :: "u32 \<Rightarrow> byte list \<Rightarrow> u32 \<Rightarrow> byte list \<Rightarrow> byte list c_result" where
  "slot_set es buf i x =
     (if slot_off es i + unat es \<le> length buf \<and> unat es \<le> length x
      then Some (overwrite (slot_off es i) (take (unat es) x) buf) else None)"

section \<open>The slots as a list\<close>

definition buf_ok :: "u32 \<Rightarrow> nat \<Rightarrow> byte list \<Rightarrow> bool" where
  "buf_ok es n buf \<longleftrightarrow> 0 < unat es \<and> length buf = n * unat es \<and> n * unat es < 2 ^ 32"

definition slots :: "u32 \<Rightarrow> nat \<Rightarrow> byte list \<Rightarrow> byte list list" where
  "slots es n buf = map (\<lambda>i. seg (i * unat es) (unat es) buf) [0..<n]"

lemma length_slots [simp]: "length (slots es n buf) = n"
  by (simp add: slots_def)

lemma nth_slots: "i < n \<Longrightarrow> slots es n buf ! i = seg (i * unat es) (unat es) buf"
  by (simp add: slots_def)

lemma slot_end: "i < n \<Longrightarrow> i * e + e \<le> n * (e::nat)"
  by (metis Suc_leI add.commute mult.commute mult_Suc_right mult_le_mono2)

lemma slot_off_eq:
  assumes "buf_ok es n buf" and "unat i < n"
  shows "slot_off es i = unat i * unat es"
proof -
  have "unat i * unat es < 2 ^ 32"
    using assms slot_end [of "unat i" n "unat es"] by (simp add: buf_ok_def)
  then show ?thesis by (simp add: slot_off_def unat_exact)
qed

lemma length_slot:
  assumes "buf_ok es n buf" and "i < n"
  shows "length (slots es n buf ! i) = unat es"
  using assms slot_end [OF assms(2), of "unat es"] by (simp add: nth_slots buf_ok_def)

lemma slot_get_slots:
  assumes "buf_ok es n buf" and "unat i < n"
  shows "slot_get es buf i = Some (slots es n buf ! unat i)"
  using assms slot_end [OF assms(2), of "unat es"]
  by (simp add: slot_get_def slot_off_eq nth_slots) (simp add: buf_ok_def)

lemma slot_set_slots:
  assumes ok: "buf_ok es n buf" and i: "unat i < n" and x: "length x = unat es"
  obtains buf' where "slot_set es buf i x = Some buf'" and "buf_ok es n buf'"
    and "slots es n buf' = (slots es n buf)[unat i := x]"
proof -
  let ?e = "unat es" and ?i = "unat i"
  have fit: "?i * ?e + ?e \<le> length buf" using ok slot_end [OF i, of ?e] by (simp add: buf_ok_def)
  let ?b = "overwrite (?i * ?e) x buf"
  have "slot_set es buf i x = Some ?b"
    using fit x by (simp add: slot_set_def slot_off_eq [OF ok i])
  moreover have "buf_ok es n ?b" using ok fit x by (simp add: buf_ok_def)
  moreover have "slots es n ?b = (slots es n buf)[?i := x]"
  proof (rule nth_equalityI)
    fix j assume "j < length (slots es n ?b)"
    then have j: "j < n" by simp
    have jfit: "j * ?e + ?e \<le> length buf" using ok slot_end [OF j, of ?e] by (simp add: buf_ok_def)
    have "j < ?i \<Longrightarrow> j * ?e + ?e \<le> ?i * ?e" "?i < j \<Longrightarrow> ?i * ?e + ?e \<le> j * ?e"
      by (simp_all add: slot_end)
    then show "slots es n ?b ! j = (slots es n buf)[?i := x] ! j"
      using j i x fit jfit
      by (cases j ?i rule: linorder_cases) (auto simp: nth_slots seg_simps)
  qed simp
  ultimately show thesis by (rule that)
qed

lemma memcpy_s_slot:
  assumes "0 < unat es" and "d + unat es \<le> length m" and "s + unat es \<le> length m"
    and "d + unat es \<le> s \<or> s + unat es \<le> d"
  shows "memcpy_s m (Some d) (unat es) (Some s) (unat es) =
    Some (EOK, overwrite d (seg s (unat es) m) m)"
  using memcpy_s_memmove_s [of d "unat es" m s "unat es"] memmove_s_eq [of d "unat es" m s "unat es"]
    assms by auto

end
