(* ===== verification/Silog_Queue_Specs.thy ===== *)
theory Silog_Queue_Specs
  imports Silog_Prelude
begin

text \<open>
  The contracts of the queues of \<open>silog_comm\<close> towards their clients, and what the clients' loops do with
  any queue that keeps them. A bounded bag promises nothing of the order; a bounded FIFO returns the
  elements in the order in which they came, and so is a bounded bag. \<open>Silog_PQueue\<close> interprets the first
  contract with the heap, \<open>Silog_Mpsc\<close> the second one with the ring.
\<close>

section \<open>Bounded bags\<close>

text \<open>
  What a client that does not rely on the order may assume: \<open>push\<close> adds an element unless the queue is
  full, \<open>pop\<close> removes one unless it is empty. The client's loops, filling the queue while ignoring the
  result of \<open>push\<close> and popping \<open>n\<close> elements, are analysed once, against the contract.
\<close>

fun push_all :: "('q \<Rightarrow> 'e \<Rightarrow> (ErrorCode \<times> 'q) option) \<Rightarrow> 'q \<Rightarrow> 'e list \<Rightarrow> 'q option" where
  "push_all push q [] = Some q"
| "push_all push q (x # xs) = do { (r, q') \<leftarrow> push q x; push_all push q' xs }"

fun pop_many :: "('q \<Rightarrow> (ErrorCode \<times> 'e \<times> 'q) option) \<Rightarrow> nat \<Rightarrow> 'q \<Rightarrow> ('e list \<times> 'q) option" where
  "pop_many pop 0 q = Some ([], q)"
| "pop_many pop (Suc n) q = do { (r, x, q') \<leftarrow> pop q; (xs, q'') \<leftarrow> pop_many pop n q'; Some (x # xs, q'') }"

locale bounded_bag =
  fixes inv :: "'q \<Rightarrow> bool" and bag :: "'q \<Rightarrow> 'e multiset" and cap :: "'q \<Rightarrow> nat"
    and elem :: "'e \<Rightarrow> bool" and full :: ErrorCode
    and push :: "'q \<Rightarrow> 'e \<Rightarrow> (ErrorCode \<times> 'q) option"
    and pop :: "'q \<Rightarrow> (ErrorCode \<times> 'e \<times> 'q) option"
  assumes push_room: "inv q \<Longrightarrow> elem x \<Longrightarrow> size (bag q) < cap q \<Longrightarrow>
      \<exists>q'. push q x = Some (SILOG_OK, q') \<and> inv q' \<and> cap q' = cap q \<and> bag q' = add_mset x (bag q)"
    and push_full: "inv q \<Longrightarrow> elem x \<Longrightarrow> cap q \<le> size (bag q) \<Longrightarrow> push q x = Some (full, q)"
    and pop_some: "inv q \<Longrightarrow> bag q \<noteq> {#} \<Longrightarrow>
      \<exists>x q'. pop q = Some (SILOG_OK, x, q') \<and> inv q' \<and> cap q' = cap q \<and> bag q = add_mset x (bag q')"
    and bag_elem: "inv q \<Longrightarrow> x \<in># bag q \<Longrightarrow> elem x"
    and bag_cap: "inv q \<Longrightarrow> size (bag q) \<le> cap q"
begin

lemma push_all_bag:
  assumes "inv q" and "\<forall>x \<in> set xs. elem x"
  shows "\<exists>q'. push_all push q xs = Some q' \<and> inv q' \<and> cap q' = cap q \<and>
    bag q' = bag q + mset (take (cap q - size (bag q)) xs)"
  using assms
proof (induction xs arbitrary: q)
  case (Cons x xs)
  have x: "elem x" and xs: "\<forall>x \<in> set xs. elem x" using Cons.prems(2) by auto
  show ?case
  proof (cases "size (bag q) < cap q")
    case True
    obtain q1 where q1: "push q x = Some (SILOG_OK, q1)" "inv q1" "cap q1 = cap q" "bag q1 = add_mset x (bag q)"
      using push_room [OF Cons.prems(1) x True] by blast
    have "cap q - size (bag q) = Suc (cap q1 - size (bag q1))" using True q1(3,4) by simp
    then show ?thesis using Cons.IH [OF q1(2) xs] q1 by auto
  next
    case False
    then have "push q x = Some (full, q)" using push_full [OF Cons.prems(1) x] by simp
    then show ?thesis using Cons.IH [OF Cons.prems(1) xs] False by simp
  qed
qed simp

lemma pop_many_bag:
  assumes "inv q" and "n \<le> size (bag q)"
  shows "\<exists>xs q'. pop_many pop n q = Some (xs, q') \<and> length xs = n \<and> inv q' \<and> cap q' = cap q \<and>
    bag q = mset xs + bag q'"
  using assms
proof (induction n arbitrary: q)
  case (Suc n)
  then have "bag q \<noteq> {#}" by auto
  then obtain x q1 where q1: "pop q = Some (SILOG_OK, x, q1)" "inv q1" "cap q1 = cap q"
      "bag q = add_mset x (bag q1)"
    using pop_some [OF Suc.prems(1)] by blast
  have "n \<le> size (bag q1)" using Suc.prems(2) q1(4) by simp
  from Suc.IH [OF q1(2) this] obtain xs q' where "pop_many pop n q1 = Some (xs, q')" "length xs = n"
      "inv q'" "cap q' = cap q1" "bag q1 = mset xs + bag q'"
    by blast
  then show ?case using q1 by auto
qed simp

lemma fill_and_drain:
  assumes "inv q" and "bag q = {#}" and "\<forall>x \<in> set xs. elem x" and "length xs \<le> cap q"
  shows "\<exists>q' ys q''. push_all push q xs = Some q' \<and> pop_many pop (length xs) q' = Some (ys, q'') \<and>
    mset ys = mset xs \<and> bag q'' = {#}"
proof -
  obtain q' where q': "push_all push q xs = Some q'" "inv q'" "bag q' = mset xs"
    using push_all_bag [OF assms(1,3)] assms(2,4) by auto
  then obtain ys q'' where y: "pop_many pop (length xs) q' = Some (ys, q'')" "length ys = length xs"
      "mset xs = mset ys + bag q''"
    using pop_many_bag [of q' "length xs"] by auto
  have "size (mset xs) = size (mset ys) + size (bag q'')" unfolding y(3) by simp
  then have "bag q'' = {#}" using y(2) by simp
  then show ?thesis using q'(1) y by auto
qed

end

section \<open>Bounded FIFO queues\<close>

text \<open>
  \<open>fifo_spec\<close> is the specification: a list and a bound; \<open>fifo_run\<close> runs the same operations on an
  implementation.
\<close>

datatype 'e fifo_op = Enq 'e | Deq

datatype 'e fifo_out = Pushed ErrorCode | Popped ErrorCode "'e option"

fun fifo_spec :: "nat \<Rightarrow> 'e list \<Rightarrow> 'e fifo_op list \<Rightarrow> 'e fifo_out list \<times> 'e list" where
  "fifo_spec c xs [] = ([], xs)"
| "fifo_spec c xs (Enq x # ops) =
     (if length xs < c
      then (let (outs, ys) = fifo_spec c (xs @ [x]) ops in (Pushed SILOG_OK # outs, ys))
      else (let (outs, ys) = fifo_spec c xs ops in (Pushed SILOG_TRANS_QUEUE_FULL # outs, ys)))"
| "fifo_spec c [] (Deq # ops) =
     (let (outs, ys) = fifo_spec c [] ops in (Popped SILOG_TRANS_QUEUE_EMPTY None # outs, ys))"
| "fifo_spec c (x # xs) (Deq # ops) =
     (let (outs, ys) = fifo_spec c xs ops in (Popped SILOG_OK (Some x) # outs, ys))"

fun fifo_run ::
  "('q \<Rightarrow> 'e \<Rightarrow> (ErrorCode \<times> 'q) option) \<Rightarrow> ('q \<Rightarrow> (ErrorCode \<times> 'e option \<times> 'q) option) \<Rightarrow>
   'q \<Rightarrow> 'e fifo_op list \<Rightarrow> ('e fifo_out list \<times> 'q) option" where
  "fifo_run enq deq q [] = Some ([], q)"
| "fifo_run enq deq q (Enq x # ops) = do {
     (r, q') \<leftarrow> enq q x; (outs, q'') \<leftarrow> fifo_run enq deq q' ops; Some (Pushed r # outs, q'') }"
| "fifo_run enq deq q (Deq # ops) = do {
     (r, x, q') \<leftarrow> deq q; (outs, q'') \<leftarrow> fifo_run enq deq q' ops; Some (Popped r x # outs, q'') }"

locale bounded_fifo =
  fixes inv :: "'q \<Rightarrow> bool" and abs :: "'q \<Rightarrow> 'e list" and cap :: "'q \<Rightarrow> nat" and elem :: "'e \<Rightarrow> bool"
    and enq :: "'q \<Rightarrow> 'e \<Rightarrow> (ErrorCode \<times> 'q) option"
    and deq :: "'q \<Rightarrow> (ErrorCode \<times> 'e option \<times> 'q) option"
  assumes enq_room: "inv q \<Longrightarrow> elem x \<Longrightarrow> length (abs q) < cap q \<Longrightarrow>
      \<exists>q'. enq q x = Some (SILOG_OK, q') \<and> inv q' \<and> cap q' = cap q \<and> abs q' = abs q @ [x]"
    and enq_full: "inv q \<Longrightarrow> elem x \<Longrightarrow> cap q \<le> length (abs q) \<Longrightarrow> enq q x = Some (SILOG_TRANS_QUEUE_FULL, q)"
    and deq_some: "inv q \<Longrightarrow> abs q = x # xs \<Longrightarrow>
      \<exists>q'. deq q = Some (SILOG_OK, Some x, q') \<and> inv q' \<and> cap q' = cap q \<and> abs q' = xs"
    and deq_empty: "inv q \<Longrightarrow> abs q = [] \<Longrightarrow> deq q = Some (SILOG_TRANS_QUEUE_EMPTY, None, q)"
    and abs_elem: "inv q \<Longrightarrow> x \<in> set (abs q) \<Longrightarrow> elem x"
    and abs_cap: "inv q \<Longrightarrow> length (abs q) \<le> cap q"
begin

lemma enq_outcome:
  assumes "inv q" and "elem x"
  shows "\<exists>r q'. enq q x = Some (r, q') \<and> inv q' \<and> cap q' = cap q \<and>
    abs q' = (if length (abs q) < cap q then abs q @ [x] else abs q)"
  using enq_room [OF assms] enq_full [OF assms] assms(1) by (cases "length (abs q) < cap q") auto

lemma run_refines:
  assumes "inv q" and "\<forall>x. Enq x \<in> set ops \<longrightarrow> elem x"
  shows "\<exists>q'. fifo_run enq deq q ops = Some (fst (fifo_spec (cap q) (abs q) ops), q') \<and> inv q' \<and>
    abs q' = snd (fifo_spec (cap q) (abs q) ops)"
  using assms
proof (induction ops arbitrary: q)
  case (Cons p ops)
  have ops: "\<forall>x. Enq x \<in> set ops \<longrightarrow> elem x" using Cons.prems(2) by auto
  show ?case
  proof (cases p)
    case (Enq x)
    then have x: "elem x" using Cons.prems(2) by auto
    show ?thesis
    proof (cases "length (abs q) < cap q")
      case True
      obtain q1 where "enq q x = Some (SILOG_OK, q1)" "inv q1" "cap q1 = cap q" "abs q1 = abs q @ [x]"
        using enq_room [OF Cons.prems(1) x True] by blast
      then show ?thesis using Cons.IH [of q1] ops True Enq by (auto simp: split_beta Let_def)
    next
      case False
      then show ?thesis
        using Cons.IH [OF Cons.prems(1) ops] enq_full [OF Cons.prems(1) x] Enq
        by (auto simp: split_beta Let_def)
    qed
  next
    case Deq
    show ?thesis
    proof (cases "abs q")
      case Nil
      then show ?thesis
        using Cons.IH [OF Cons.prems(1) ops] deq_empty [OF Cons.prems(1)] Deq
        by (auto simp: split_beta Let_def)
    next
      case (Cons y ys)
      obtain q1 where "deq q = Some (SILOG_OK, Some y, q1)" "inv q1" "cap q1 = cap q" "abs q1 = ys"
        using deq_some [OF Cons.prems(1) Cons] by blast
      then show ?thesis using Cons.IH [of q1] ops Deq Cons by (auto simp: split_beta Let_def)
    qed
  qed
qed simp

end

section \<open>A FIFO as a bag\<close>

definition pop_elem :: "('q \<Rightarrow> (ErrorCode \<times> 'e option \<times> 'q) option) \<Rightarrow> 'q \<Rightarrow> (ErrorCode \<times> 'e \<times> 'q) option" where
  "pop_elem deq q = (case deq q of Some (r, Some x, q') \<Rightarrow> Some (r, x, q') | _ \<Rightarrow> None)"

sublocale bounded_fifo \<subseteq> as_bag: bounded_bag inv "\<lambda>q. mset (abs q)" cap elem SILOG_TRANS_QUEUE_FULL enq "pop_elem deq"
proof (unfold_locales, goal_cases)
  case (1 q x)
  then show ?case using enq_room [of q x] by fastforce
next
  case (2 q x)
  then show ?case using enq_full [of q x] by simp
next
  case (3 q)
  then obtain x xs where x: "abs q = x # xs" by (cases "abs q") auto
  show ?case using deq_some [OF 3(1) x] x by (fastforce simp: pop_elem_def)
next
  case (4 q x)
  then show ?case using abs_elem by simp
next
  case (5 q)
  then show ?case using abs_cap by simp
qed

context bounded_fifo
begin

text \<open>The bag's loops on a FIFO: what does not fit is dropped, and the rest comes back in order.\<close>

lemma push_all_in_order:
  assumes "inv q" and "\<forall>x \<in> set xs. elem x"
  shows "\<exists>q'. push_all enq q xs = Some q' \<and> inv q' \<and> cap q' = cap q \<and>
    abs q' = abs q @ take (cap q - length (abs q)) xs"
  using assms
proof (induction xs arbitrary: q)
  case (Cons x xs)
  obtain r q1 where q1: "enq q x = Some (r, q1)" "inv q1" "cap q1 = cap q"
      "abs q1 = (if length (abs q) < cap q then abs q @ [x] else abs q)"
    using enq_outcome [OF Cons.prems(1), of x] Cons.prems(2) by auto
  moreover have "cap q - length (abs q) = Suc (cap q - Suc (length (abs q)))" if "length (abs q) < cap q" using that by simp
  ultimately show ?case using Cons.IH [OF q1(2)] Cons.prems(2) by (cases "length (abs q) < cap q") auto
qed simp

lemma pop_many_in_order:
  assumes "inv q" and "n \<le> length (abs q)"
  shows "\<exists>q'. pop_many (pop_elem deq) n q = Some (take n (abs q), q') \<and> inv q' \<and> cap q' = cap q \<and> abs q' = drop n (abs q)"
  using assms
proof (induction n arbitrary: q)
  case (Suc n)
  then obtain x xs where x: "abs q = x # xs" by (cases "abs q") auto
  obtain q1 where q1: "deq q = Some (SILOG_OK, Some x, q1)" "inv q1" "cap q1 = cap q" "abs q1 = xs"
    using deq_some [OF Suc.prems(1) x] by blast
  have "n \<le> length (abs q1)" using Suc.prems(2) x q1(4) by simp
  from Suc.IH [OF q1(2) this] show ?case using q1 x by (auto simp: pop_elem_def)
qed simp

end

end
