(* ===== verification/Silog_Mpsc.thy ===== *)
theory Silog_Mpsc
  imports Silog_Slots Silog_Queue_Specs
begin

text \<open>
  The multi-producer single-consumer ring of \<open>silog_comm/src/silog_mpsc.c\<close>, run by one thread at a
  time; \<open>Silog_Mpsc_Conc\<close> has its atomic steps and their interleavings. Positions are 32-bit and
  wrap around, a slot is chosen with the capacity mask, and \<open>seq\<close> holds one mark per slot: the
  position that may write it next, or one more than the position whose data is ready in it.

  The invariant \<open>mq_ok\<close> relates the marks to the positions; the abstraction \<open>mq_list\<close> is the
  list of the queued elements, oldest first; the interpretation of \<open>bounded_fifo\<close> shows that the
  operations are those of a bounded FIFO, at every position and across the wrap-around.
\<close>

record SiLogMpscQueue =
  mq_buffer :: "byte list option"
  mq_elementSize :: u32
  mq_capacity :: u32
  mq_writePos :: u32
  mq_readPos :: u32
  mq_seq :: "u32 list option"
  mq_capacityMask :: u32

text \<open>A ring in static storage before its initialisation.\<close>

definition zero_ring :: SiLogMpscQueue where
  "zero_ring = \<lparr>mq_buffer = None, mq_elementSize = 0, mq_capacity = 0, mq_writePos = 0, mq_readPos = 0, mq_seq = None,
     mq_capacityMask = 0\<rparr>"

section \<open>Operations\<close>

text \<open>
  The two calls of \<open>SiMalloc\<close> are the arguments \<open>malloc1\<close> (the buffer) and \<open>malloc2\<close> (the
  marks, of which only success matters: the loop stores every one of them).
\<close>

definition SilogMpscQueueInit ::
  "(nat \<Rightarrow> byte list option) \<Rightarrow> (nat \<Rightarrow> byte list option) \<Rightarrow> SiLogMpscQueue option \<Rightarrow> u32 \<Rightarrow> u32 \<Rightarrow>
   ErrorCode \<times> SiLogMpscQueue option" where
  "SilogMpscQueueInit malloc1 malloc2 logQueue elementSize capacity =
     (case logQueue of
        None \<Rightarrow> (SILOG_INVALID_ARG, None)
      | Some q \<Rightarrow>
          if elementSize = 0 \<or> capacity = 0 then (SILOG_INVALID_ARG, logQueue)
          else if capacity AND (capacity - 1) \<noteq> 0 then (SILOG_INVALID_ARG, logQueue)
          else (case malloc1 (unat (elementSize * capacity)) of
              None \<Rightarrow> (SILOG_OUT_OF_MEMORY, Some (q\<lparr>mq_buffer := None\<rparr>))
            | Some b \<Rightarrow>
                (case malloc2 (4 * unat capacity) of
                   None \<Rightarrow> (SILOG_OUT_OF_MEMORY, Some (q\<lparr>mq_buffer := None, mq_seq := None\<rparr>))
                 | Some _ \<Rightarrow> (SILOG_OK, Some (q\<lparr>mq_buffer := Some b,
                     mq_seq := Some (map word_of_nat [0..<unat capacity]),
                     mq_capacity := capacity, mq_capacityMask := capacity - 1,
                     mq_elementSize := elementSize, mq_writePos := 0, mq_readPos := 0\<rparr>)))))"

definition SilogMpscQueueDestroy :: "SiLogMpscQueue option \<Rightarrow> SiLogMpscQueue option" where
  "SilogMpscQueueDestroy logQueue = map_option (\<lambda>q. q\<lparr>mq_buffer := None, mq_seq := None\<rparr>) logQueue"

text \<open>
  The compare-and-exchange loop of \<open>SilogMpscQueuePush\<close> with no other thread running: it takes the
  slot when the mark is the expected one, leaves the loop when the mark is already the desired one,
  and otherwise spins for ever (\<open>None\<close>). A spurious failure of the weak exchange only repeats an
  iteration.
\<close>

definition cas_wait :: "u32 list \<Rightarrow> u32 \<Rightarrow> u32 \<Rightarrow> u32 \<Rightarrow> u32 list c_result" where
  "cas_wait sq index expected desired =
     (if unat index < length sq then
        if sq ! unat index = expected then Some (sq[unat index := desired])
        else if sq ! unat index = desired then Some sq
        else None
      else None)"

definition SilogMpscQueuePush ::
  "SiLogMpscQueue option \<Rightarrow> byte list option \<Rightarrow> (ErrorCode \<times> SiLogMpscQueue option) c_result" where
  "SilogMpscQueuePush logQueue element =
     (case (logQueue, element) of
        (Some q, Some x) \<Rightarrow>
          (case (mq_buffer q, mq_seq q) of
             (Some buf, Some sq) \<Rightarrow>
               if mq_capacity q = 0 then Some (SILOG_TRANS_NOT_INIT, logQueue)
               else
                 let write = mq_writePos q;
                     q1 = q\<lparr>mq_writePos := write + 1\<rparr>;
                     read = mq_readPos q1
                 in if write - read \<ge> mq_capacity q1
                    then Some (SILOG_TRANS_QUEUE_FULL, Some (q1\<lparr>mq_writePos := mq_writePos q1 - 1\<rparr>))
                    else do {
                      let index = write AND mq_capacityMask q1;
                      sq1 \<leftarrow> cas_wait sq index write (write + mq_capacity q1);
                      buf' \<leftarrow> slot_set (mq_elementSize q1) buf index x;
                      Some (SILOG_OK, Some (q1\<lparr>mq_buffer := Some buf',
                        mq_seq := Some (sq1[unat index := write + 1])\<rparr>))
                    }
           | _ \<Rightarrow> Some (SILOG_TRANS_NOT_INIT, logQueue))
      | _ \<Rightarrow> Some (SILOG_INVALID_ARG, logQueue))"

definition SilogMpscQueuePop ::
  "SiLogMpscQueue option \<Rightarrow> byte list option \<Rightarrow>
   (ErrorCode \<times> byte list option \<times> SiLogMpscQueue option) c_result" where
  "SilogMpscQueuePop logQueue outElement =
     (case (logQueue, outElement) of
        (Some q, Some out) \<Rightarrow>
          (case (mq_buffer q, mq_seq q) of
             (Some buf, Some sq) \<Rightarrow>
               let read = mq_readPos q; index = read AND mq_capacityMask q
               in if unat index < length sq then
                    if sq ! unat index \<noteq> read + 1
                    then Some (SILOG_TRANS_QUEUE_EMPTY, outElement, logQueue)
                    else do {
                      x \<leftarrow> slot_get (mq_elementSize q) buf index;
                      out' \<leftarrow> store out 0 x;
                      Some (SILOG_OK, Some out', Some (q\<lparr>
                        mq_seq := Some (sq[unat index := read + mq_capacity q]),
                        mq_readPos := read + 1\<rparr>))
                    }
                  else None
           | _ \<Rightarrow> Some (SILOG_TRANS_NOT_INIT, outElement, logQueue))
      | _ \<Rightarrow> Some (SILOG_INVALID_ARG, outElement, logQueue))"

section \<open>Powers of two and masks\<close>

lemma nat_power_of_two: "0 < n \<Longrightarrow> n AND (n - 1) = 0 \<Longrightarrow> \<exists>k. n = 2 ^ k" for n :: nat
proof (induction n rule: less_induct)
  case (less n)
  show ?case
  proof (cases "even n")
    case True
    then obtain m where m: "n = 2 * m" by blast
    then have "0 < m" using less.prems(1) by simp
    then have eq: "n - 1 = 2 * (m - 1) + 1" using m by simp
    have "n AND (n - 1) = 2 * (m AND (m - 1))"
      unfolding m eq [unfolded m] by (simp add: and_rec [of "2 * m"])
    then have "m AND (m - 1) = 0" using less.prems(2) by simp
    then obtain k where "m = 2 ^ k" using less.IH [of m] \<open>0 < m\<close> m by auto
    then have "n = 2 ^ Suc k" using m by simp
    then show ?thesis by blast
  next
    case False
    then obtain m where m: "n = 2 * m + 1" by (metis oddE)
    have "n AND (n - 1) = 2 * m" unfolding m by (simp add: and_rec [of "Suc (2 * m)"])
    then have "n = 2 ^ 0" using less.prems(2) m by simp
    then show ?thesis by blast
  qed
qed

lemma power_of_two_word:
  assumes "(c::u32) \<noteq> 0" and "c AND (c - 1) = 0"
  shows "\<exists>k. k < 32 \<and> unat c = 2 ^ k"
proof -
  have pos: "0 < unat c" using assms(1) by (simp add: unat_gt_0)
  have "unat (c - 1) = unat c - 1" using assms(1) by (simp add: unat_minus_one)
  then have "unat c AND (unat c - 1) = 0"
    using assms(2) by (metis unat_0 unsigned_and_eq)
  then obtain k where k: "unat c = 2 ^ k" using nat_power_of_two pos by blast
  have "unat c < 2 ^ 32" using unsigned_less [where 'a = nat, of c] by simp
  then have "(2::nat) ^ k < 2 ^ 32" unfolding k .
  then have "k < 32" by (rule power_less_imp_less_exp [rotated]) simp
  with k show ?thesis by blast
qed

lemma unat_and_mask:
  assumes "unat c = 2 ^ k" and "k < 32"
  shows "unat ((w::u32) AND (c - 1)) = unat w mod unat c"
proof -
  have "c = 2 ^ k"
  proof (rule word_unat_eq_iff [THEN iffD2])
    have "(2::nat) ^ k < 2 ^ 32" using assms(2) by (intro power_strict_increasing) auto
    then have "unat ((2::u32) ^ k) = 2 ^ k" by (intro of_nat_inverse) simp_all
    then show "unat c = unat ((2::u32) ^ k)" using assms(1) by simp
  qed
  then have "w AND (c - 1) = take_bit k w" by (simp add: take_bit_eq_mask mask_eq_exp_minus_1)
  moreover have "unat (take_bit k w) = take_bit k (unat w)" by (rule unsigned_take_bit_eq)
  ultimately show ?thesis using assms(1) by (simp only: take_bit_eq_mod)
qed

section \<open>The invariant and the abstraction\<close>

text \<open>
  Slot \<open>pos c r j\<close> is that of the \<open>j\<close>-th position after \<open>r\<close>; its mark says that its data is ready
  when \<open>j\<close> is one of the \<open>n\<close> queued positions, and that position \<open>r + j\<close> may write it otherwise.
\<close>

definition pos :: "u32 \<Rightarrow> u32 \<Rightarrow> nat \<Rightarrow> nat" where
  "pos c r j = (unat r + j) mod unat c"

definition mark :: "u32 \<Rightarrow> nat \<Rightarrow> nat \<Rightarrow> u32" where
  "mark r n j = (if j < n then r + word_of_nat j + 1 else r + word_of_nat j)"

definition mq_count :: "SiLogMpscQueue \<Rightarrow> nat" where
  "mq_count q = unat (mq_writePos q - mq_readPos q)"

definition mq_ok :: "SiLogMpscQueue \<Rightarrow> bool" where
  "mq_ok q \<longleftrightarrow> (case (mq_buffer q, mq_seq q) of
       (Some buf, Some sq) \<Rightarrow>
         buf_ok (mq_elementSize q) (unat (mq_capacity q)) buf \<and> length sq = unat (mq_capacity q) \<and>
         (\<forall>j < unat (mq_capacity q).
            sq ! pos (mq_capacity q) (mq_readPos q) j = mark (mq_readPos q) (mq_count q) j)
     | _ \<Rightarrow> False) \<and>
     mq_capacity q \<noteq> 0 \<and> mq_capacity q AND (mq_capacity q - 1) = 0 \<and>
     mq_capacityMask q = mq_capacity q - 1 \<and> mq_count q \<le> unat (mq_capacity q)"

definition mq_list :: "SiLogMpscQueue \<Rightarrow> byte list list" where
  "mq_list q = (case mq_buffer q of None \<Rightarrow> []
     | Some buf \<Rightarrow> map (\<lambda>j. slots (mq_elementSize q) (unat (mq_capacity q)) buf !
                        pos (mq_capacity q) (mq_readPos q) j) [0..<mq_count q])"

lemma length_mq_list: "mq_buffer q \<noteq> None \<Longrightarrow> length (mq_list q) = mq_count q"
  by (auto simp: mq_list_def)

lemma mq_okE:
  assumes "mq_ok q"
  obtains buf sq k where "mq_buffer q = Some buf" "mq_seq q = Some sq"
    "buf_ok (mq_elementSize q) (unat (mq_capacity q)) buf" "length sq = unat (mq_capacity q)"
    "\<And>j. j < unat (mq_capacity q) \<Longrightarrow>
       sq ! pos (mq_capacity q) (mq_readPos q) j = mark (mq_readPos q) (mq_count q) j"
    "mq_count q \<le> unat (mq_capacity q)" "unat (mq_capacity q) = 2 ^ k" "k < 32"
    "mq_capacityMask q = mq_capacity q - 1" "mq_capacity q \<noteq> 0"
proof -
  have c: "mq_capacity q \<noteq> 0" "mq_capacity q AND (mq_capacity q - 1) = 0"
    using assms by (simp_all add: mq_ok_def)
  from power_of_two_word [OF c] obtain k where k: "k < 32" "unat (mq_capacity q) = 2 ^ k" by blast
  from assms obtain buf sq where "mq_buffer q = Some buf" "mq_seq q = Some sq"
    by (auto simp: mq_ok_def split: option.splits)
  with assms k show thesis by (intro that [of buf sq k]) (auto simp: mq_ok_def)
qed

lemma pos_less: "c \<noteq> 0 \<Longrightarrow> pos c r j < unat c"
  by (simp add: pos_def unat_gt_0)

lemma pos_inject:
  assumes "j < unat c" and "j' < unat c"
  shows "pos c r j = pos c r j' \<longleftrightarrow> j = j'"
proof -
  have "j = j'" if eq: "(a + j) mod m = (a + j') mod m" and "j \<le> j'" "j' < m" for a m j j' :: nat
  proof -
    have "m dvd (a + j') - (a + j)" using eq that(2) by (subst mod_eq_dvd_iff_nat [symmetric]) auto
    then have "m dvd j' - j" by simp
    then show ?thesis using that(2,3) by (metis diff_is_0_eq' dvd_imp_le le_antisym less_imp_diff_less
          not_le zero_less_diff diff_is_0_eq neq0_conv)
  qed
  from this [of "unat r" j "unat c" j'] this [of "unat r" j' "unat c" j] show ?thesis
    using assms by (cases "j \<le> j'") (auto simp: pos_def)
qed

lemma unat_add_mod:
  assumes "unat c = 2 ^ k" and "k < 32"
  shows "unat ((r::u32) + word_of_nat j) mod unat c = pos c r j"
proof -
  have d: "unat c dvd 2 ^ 32" using assms(2) unfolding assms(1) by (intro le_imp_power_dvd) simp
  have "unat (r + word_of_nat j) = (unat r + j) mod 2 ^ 32"
    by (simp add: unat_word_ariths unat_of_nat mod_add_right_eq)
  then show ?thesis using d by (simp only: pos_def mod_mod_cancel)
qed

lemma pos_next:
  assumes "unat c = 2 ^ k" and "k < 32"
  shows "pos c (r + 1) j = pos c r (Suc j)"
  using unat_add_mod [OF assms, of "r + 1" j] unat_add_mod [OF assms, of r "Suc j"]
  by (simp add: ac_simps)

lemma pos_wrap: "pos c r (unat c) = pos c r 0"
  by (simp add: pos_def)

lemma index_pos:
  assumes "unat c = 2 ^ k" and "k < 32"
  shows "unat ((r + word_of_nat j) AND (c - 1)) = pos c r j"
  using unat_and_mask [OF assms] unat_add_mod [OF assms] by simp

lemma write_read: "mq_writePos q = mq_readPos q + word_of_nat (mq_count q)"
  by (simp add: mq_count_def)

definition same_shape :: "SiLogMpscQueue \<Rightarrow> SiLogMpscQueue \<Rightarrow> bool" where
  "same_shape q q' \<longleftrightarrow> mq_elementSize q' = mq_elementSize q \<and> mq_capacity q' = mq_capacity q"

lemma capacity_bound:
  assumes "unat (c::u32) = 2 ^ k" and "k < 32"
  shows "unat c \<le> 2 ^ 31"
  unfolding assms(1) using assms(2) by (intro power_increasing) auto

lemma mpsc_init_ok:
  assumes "elementSize \<noteq> 0" and "capacity \<noteq> 0" and "capacity AND (capacity - 1) = 0"
    and "unat elementSize * unat capacity < 2 ^ 32"
    and "malloc1 (unat elementSize * unat capacity) = Some b"
    and "length b = unat elementSize * unat capacity" and "malloc2 (4 * unat capacity) \<noteq> None"
  shows "\<exists>q'. SilogMpscQueueInit malloc1 malloc2 (Some q) elementSize capacity = (SILOG_OK, Some q') \<and>
    mq_ok q' \<and> mq_list q' = [] \<and> mq_elementSize q' = elementSize \<and> mq_capacity q' = capacity"
proof -
  have e: "unat (elementSize * capacity) = unat elementSize * unat capacity"
    using assms(4) by (simp add: unat_exact)
  let ?q = "q\<lparr>mq_buffer := Some b, mq_seq := Some (map word_of_nat [0..<unat capacity]),
    mq_capacity := capacity, mq_capacityMask := capacity - 1,
    mq_elementSize := elementSize, mq_writePos := 0, mq_readPos := 0\<rparr>"
  have "SilogMpscQueueInit malloc1 malloc2 (Some q) elementSize capacity = (SILOG_OK, Some ?q)"
    using assms e by (auto simp: SilogMpscQueueInit_def)
  moreover have "mq_ok ?q"
    using assms by (simp add: mq_ok_def buf_ok_def mq_count_def pos_def mark_def unat_gt_0 ac_simps)
  ultimately show ?thesis by (auto simp: mq_list_def mq_count_def)
qed

text \<open>The sequence numbers after one slot has been filled, and after one has been emptied.\<close>

lemma marks_push:
  assumes "\<And>j. j < unat c \<Longrightarrow> sq ! pos c r j = mark r n j" and "length sq = unat c" and "c \<noteq> 0" and "n < unat c"
    and "j < unat c"
  shows "sq[pos c r n := r + word_of_nat n + 1] ! pos c r j = mark r (Suc n) j"
  using assms(1) [OF assms(5)] pos_inject [OF assms(5,4), of r] pos_less [OF assms(3), of r n] assms(2)
  by (auto simp: mark_def nth_list_update)

lemma marks_pop:
  assumes mk: "\<And>j. j < unat c \<Longrightarrow> sq ! pos c r j = mark r n j" and "length sq = unat c" and c: "unat c = 2 ^ k" "k < 32"
    and n: "0 < n" "n \<le> unat c" and j: "j < unat c"
  shows "sq[pos c r 0 := r + c] ! pos c (r + 1) j = mark (r + 1) (n - 1) j"
proof (cases "Suc j < unat c")
  case True
  then have "pos c r (Suc j) \<noteq> pos c r 0" using pos_inject [of "Suc j" c 0 r] j by simp
  then show ?thesis using mk [OF True] pos_next [OF c] n by (auto simp: mark_def)
next
  case False
  then have j: "Suc j = unat c" using j by simp
  have "c \<noteq> 0" using j by auto
  then have "sq[pos c r 0 := r + c] ! pos c (r + 1) j = r + c"
    using pos_next [OF c] j pos_wrap [of c r] pos_less [of c r 0] assms(2) by simp
  moreover have "c = word_of_nat (Suc j)" unfolding j by simp
  then have "r + c = r + 1 + word_of_nat j" by simp
  moreover have "mark (r + 1) (n - 1) j = r + 1 + word_of_nat j" using j n by (simp add: mark_def)
  ultimately show ?thesis by (simp only:)
qed

lemma mpsc_push_room:
  assumes ok: "mq_ok q" and room: "mq_count q < unat (mq_capacity q)"
    and x: "length x = unat (mq_elementSize q)"
  shows "\<exists>q'. SilogMpscQueuePush (Some q) (Some x) = Some (SILOG_OK, Some q') \<and> mq_ok q' \<and>
    same_shape q q' \<and> mq_list q' = mq_list q @ [x]"
proof -
  let ?c = "mq_capacity q" and ?r = "mq_readPos q" and ?w = "mq_writePos q" and ?n = "mq_count q"
    and ?es = "mq_elementSize q"
  obtain buf sq k where b: "mq_buffer q = Some buf" "mq_seq q = Some sq" "buf_ok ?es (unat ?c) buf"
    "length sq = unat ?c" "unat ?c = 2 ^ k" "k < 32" "mq_capacityMask q = ?c - 1" "?c \<noteq> 0"
    and mk: "\<And>j. j < unat ?c \<Longrightarrow> sq ! pos ?c ?r j = mark ?r ?n j"
    using mq_okE [OF ok] by metis
  let ?i = "?w AND (?c - 1)" and ?p = "pos ?c ?r ?n"
  have i: "unat ?i = ?p" using index_pos [OF b(5,6)] write_read [of q] by simp
  have pc: "?p < unat ?c" using b(8) by (rule pos_less)
  have sqi: "sq ! unat ?i = ?w" using mk [OF room] i write_read [of q] by (simp add: mark_def)
  have "unat ?i < unat ?c" using i pc by simp
  then obtain buf' where st: "slot_set ?es buf ?i x = Some buf'" "buf_ok ?es (unat ?c) buf'"
    and sl: "slots ?es (unat ?c) buf' = (slots ?es (unat ?c) buf)[unat ?i := x]"
    using slot_set_slots [OF b(3) _ x] by blast
  let ?sq = "sq[?p := ?w + 1]"
  let ?q = "q\<lparr>mq_writePos := ?w + 1, mq_buffer := Some buf', mq_seq := Some ?sq\<rparr>"
  have push: "SilogMpscQueuePush (Some q) (Some x) = Some (SILOG_OK, Some ?q)"
  proof -
    have "\<not> ?c \<le> ?w - ?r" using room by (simp add: mq_count_def word_le_nat_alt)
    then show ?thesis
      using b(1,2,4,7,8) st(1) sqi i pc by (simp add: SilogMpscQueuePush_def Let_def cas_wait_def)
  qed
  have n': "mq_count ?q = Suc ?n"
  proof -
    have "?n < 2 ^ 31" using room capacity_bound [OF b(5,6)] by simp
    moreover have "?w + 1 - ?r = word_of_nat (Suc ?n)" using write_read [of q] by simp
    ultimately show ?thesis by (simp add: mq_count_def unat_of_nat del: of_nat_Suc)
  qed
  have inj: "pos ?c ?r j = ?p \<longleftrightarrow> j = ?n" if "j < unat ?c" for j
    using pos_inject [OF that room] .
  have "?sq ! pos ?c ?r j = mark ?r (Suc ?n) j" if "j < unat ?c" for j
    using marks_push [OF mk b(4,8) room that] write_read [of q] by simp
  then have "mq_ok ?q" using st(2) b(4,7,8) n' room ok by (simp add: mq_ok_def)
  moreover have "mq_list ?q = mq_list q @ [x]"
  proof -
    have "slots ?es (unat ?c) buf' ! pos ?c ?r j = slots ?es (unat ?c) buf ! pos ?c ?r j" if "j < ?n" for j
      using that room inj [of j] by (simp add: sl i)
    moreover have "slots ?es (unat ?c) buf' ! ?p = x" using pc by (simp add: sl i)
    ultimately show ?thesis using n' by (simp add: mq_list_def b(1))
  qed
  ultimately show ?thesis using push by (auto simp: same_shape_def)
qed

lemma mpsc_push_full:
  assumes ok: "mq_ok q" and full: "unat (mq_capacity q) \<le> mq_count q"
  shows "SilogMpscQueuePush (Some q) (Some x) = Some (SILOG_TRANS_QUEUE_FULL, Some q)"
proof -
  have "mq_capacity q \<le> mq_writePos q - mq_readPos q" using full by (simp add: mq_count_def word_le_nat_alt)
  moreover obtain buf sq where "mq_buffer q = Some buf" "mq_seq q = Some sq" "mq_capacity q \<noteq> 0"
    using mq_okE [OF ok] by metis
  ultimately show ?thesis by (simp add: SilogMpscQueuePush_def Let_def)
qed

lemma mpsc_pop_some:
  assumes ok: "mq_ok q" and ne: "0 < mq_count q" and out: "unat (mq_elementSize q) \<le> length out"
  shows "\<exists>x q'. SilogMpscQueuePop (Some q) (Some out) = Some (SILOG_OK, Some (overwrite 0 x out), Some q') \<and>
    mq_ok q' \<and> same_shape q q' \<and> length x = unat (mq_elementSize q) \<and> mq_list q = x # mq_list q'"
proof -
  let ?c = "mq_capacity q" and ?r = "mq_readPos q" and ?w = "mq_writePos q" and ?n = "mq_count q"
    and ?es = "mq_elementSize q"
  obtain buf sq k where b: "mq_buffer q = Some buf" "mq_seq q = Some sq" "buf_ok ?es (unat ?c) buf"
    "length sq = unat ?c" "unat ?c = 2 ^ k" "k < 32" "mq_capacityMask q = ?c - 1" "?c \<noteq> 0" "?n \<le> unat ?c"
    and mk: "\<And>j. j < unat ?c \<Longrightarrow> sq ! pos ?c ?r j = mark ?r ?n j"
    using mq_okE [OF ok] by metis
  let ?i = "?r AND (?c - 1)" and ?p = "pos ?c ?r 0"
  have c: "0 < unat ?c" using b(8) by (simp add: unat_gt_0)
  have i: "unat ?i = ?p" using index_pos [OF b(5,6), of ?r 0] by simp
  have pc: "?p < unat ?c" using b(8) by (rule pos_less)
  let ?x = "slots ?es (unat ?c) buf ! ?p"
  have get: "slot_get ?es buf ?i = Some ?x" using slot_get_slots [OF b(3), of ?i] i pc by simp
  have lx: "length ?x = unat ?es" using b(3) pc by (rule length_slot)
  have sqi: "sq ! ?p = ?r + 1" using mk [OF c] ne by (simp add: mark_def)
  let ?sq = "sq[?p := ?r + ?c]"
  let ?q = "q\<lparr>mq_seq := Some ?sq, mq_readPos := ?r + 1\<rparr>"
  have pop: "SilogMpscQueuePop (Some q) (Some out) = Some (SILOG_OK, Some (overwrite 0 ?x out), Some ?q)"
    using b(1,2,4,7) get lx out sqi i pc by (simp add: SilogMpscQueuePop_def Let_def store_eq)
  have n': "mq_count ?q = ?n - 1"
  proof -
    have "0 < ?w - ?r" using ne unfolding mq_count_def word_less_nat_alt by simp
    from unat_sub_one [OF this] show ?thesis by (simp add: mq_count_def diff_diff_eq)
  qed
  have nx: "pos ?c (?r + 1) j = pos ?c ?r (Suc j)" for j using b(5,6) by (rule pos_next)
  have "?sq ! pos ?c (?r + 1) j = mark (?r + 1) (?n - 1) j" if "j < unat ?c" for j
    using marks_pop [OF mk b(4-6) ne b(9) that] .
  then have "mq_ok ?q" using b n' ok by (simp add: mq_ok_def)
  moreover have "mq_list q = ?x # mq_list ?q"
  proof -
    have up: "[0..<?n] = 0 # map Suc [0..<?n - 1]"
      using ne by (simp add: map_Suc_upt upt_conv_Cons)
    show ?thesis using n' by (simp add: mq_list_def b(1) up nx del: upt_Suc)
  qed
  ultimately show ?thesis using pop lx by (auto simp: same_shape_def)
qed

lemma mpsc_pop_empty:
  assumes ok: "mq_ok q" and empty: "mq_count q = 0"
  shows "SilogMpscQueuePop (Some q) (Some out) = Some (SILOG_TRANS_QUEUE_EMPTY, Some out, Some q)"
proof -
  let ?c = "mq_capacity q" and ?r = "mq_readPos q"
  obtain buf sq k where b: "mq_buffer q = Some buf" "mq_seq q = Some sq"
    "length sq = unat ?c" "unat ?c = 2 ^ k" "k < 32" "mq_capacityMask q = ?c - 1" "?c \<noteq> 0"
    and mk: "\<And>j. j < unat ?c \<Longrightarrow> sq ! pos ?c ?r j = mark ?r (mq_count q) j"
    using mq_okE [OF ok] by metis
  have i: "unat (?r AND (?c - 1)) = pos ?c ?r 0" using index_pos [OF b(4,5), of ?r 0] by simp
  have "0 < unat ?c" using b(7) by (simp add: unat_gt_0)
  then have "sq ! pos ?c ?r 0 = ?r" using mk [of 0] empty by (simp add: mark_def)
  then show ?thesis
    using b i pos_less [OF b(7), of ?r 0] by (simp add: SilogMpscQueuePop_def Let_def)
qed

section \<open>The ring as a bounded FIFO\<close>

text \<open>
  The two operations in the form of the contract of \<open>Silog_Queue_Specs\<close>; a pop hands in a cleared block.
\<close>

definition mpsc_push :: "SiLogMpscQueue \<Rightarrow> byte list \<Rightarrow> (ErrorCode \<times> SiLogMpscQueue) option" where
  "mpsc_push q x =
     (case SilogMpscQueuePush (Some q) (Some x) of Some (r, Some q') \<Rightarrow> Some (r, q') | _ \<Rightarrow> None)"

definition mpsc_pop :: "SiLogMpscQueue \<Rightarrow> (ErrorCode \<times> byte list option \<times> SiLogMpscQueue) option" where
  "mpsc_pop q =
     (case SilogMpscQueuePop (Some q) (Some (replicate (unat (mq_elementSize q)) 0)) of
        Some (r, Some x, Some q') \<Rightarrow> Some (r, if r = SILOG_OK then Some x else None, q') | _ \<Rightarrow> None)"

lemma mq_list_elem: "mq_ok q \<Longrightarrow> x \<in> set (mq_list q) \<Longrightarrow> length x = unat (mq_elementSize q)"
  using length_slot [OF _ pos_less, of "mq_elementSize q" "mq_capacity q"]
  by (elim mq_okE) (auto simp: mq_list_def)

lemma mq_list_length: "mq_ok q \<Longrightarrow> length (mq_list q) = mq_count q"
  by (elim mq_okE) (simp add: mq_list_def)

interpretation mpsc_fifo: bounded_fifo
  "\<lambda>q. mq_ok q \<and> mq_elementSize q = es" mq_list "\<lambda>q. unat (mq_capacity q)"
  "\<lambda>x. length x = unat es" mpsc_push mpsc_pop
  for es
proof (unfold_locales, goal_cases)
  case (1 q x)
  then show ?case
    using mpsc_push_room [of q x] by (auto simp: mpsc_push_def same_shape_def mq_list_length)
next
  case (2 q x)
  then show ?case using mpsc_push_full [of q x] by (simp add: mpsc_push_def mq_list_length)
next
  case (3 q x xs)
  then have ne: "0 < mq_count q" using mq_list_length [of q] by simp
  let ?out = "replicate (unat (mq_elementSize q)) 0 :: byte list"
  obtain y q' where "SilogMpscQueuePop (Some q) (Some ?out) = Some (SILOG_OK, Some (overwrite 0 y ?out), Some q')"
      "mq_ok q'" "same_shape q q'" "length y = unat (mq_elementSize q)" "mq_list q = y # mq_list q'"
    using mpsc_pop_some [of q ?out] 3 ne by auto
  then show ?case using 3 by (auto simp: mpsc_pop_def same_shape_def overwrite_def)
next
  case (4 q)
  then have "mq_count q = 0" using mq_list_length [of q] by simp
  then show ?case
    using 4 mpsc_pop_empty [of q "replicate (unat (mq_elementSize q)) 0"] by (simp add: mpsc_pop_def)
next
  case (5 q x)
  then show ?case using mq_list_elem [of q x] by simp
next
  case (6 q)
  then show ?case using mq_list_length [of q] by (auto elim: mq_okE)
qed

text \<open>What the users of the ring rely on: the outcome of a push and of a pop.\<close>

lemma ring_push:
  assumes "mq_ok q" and "length x = unat (mq_elementSize q)"
  shows "\<exists>r q'. SilogMpscQueuePush (Some q) (Some x) = Some (r, Some q') \<and> mq_ok q' \<and> same_shape q q' \<and>
    mq_list q' = (if length (mq_list q) < unat (mq_capacity q) then mq_list q @ [x] else mq_list q)"
proof -
  obtain r q' where "mpsc_push q x = Some (r, q')" "mq_ok q'" "mq_elementSize q' = mq_elementSize q"
      "unat (mq_capacity q') = unat (mq_capacity q)"
      "mq_list q' = (if length (mq_list q) < unat (mq_capacity q) then mq_list q @ [x] else mq_list q)"
    using mpsc_fifo.enq_outcome [of q "mq_elementSize q" x] assms by blast
  then show ?thesis by (auto simp: mpsc_push_def same_shape_def word_unat_eq_iff split: option.splits prod.splits)
qed

lemma ring_pop:
  assumes "mq_ok q" and "mq_list q = x # xs" and "n = unat (mq_elementSize q)"
  shows "\<exists>q'. SilogMpscQueuePop (Some q) (Some (replicate n 0)) = Some (SILOG_OK, Some x, Some q') \<and> mq_ok q' \<and>
    same_shape q q' \<and> mq_list q' = xs"
proof -
  obtain q' where "mpsc_pop q = Some (SILOG_OK, Some x, q')" "mq_ok q'" "mq_elementSize q' = mq_elementSize q"
      "unat (mq_capacity q') = unat (mq_capacity q)" "mq_list q' = xs"
    using mpsc_fifo.deq_some [of q "mq_elementSize q" x xs] assms by blast
  then show ?thesis using assms(3) by (auto simp: mpsc_pop_def same_shape_def word_unat_eq_iff split: option.splits prod.splits if_splits)
qed

lemma ring_pop_empty:
  assumes "mq_ok q" and "mq_list q = []"
  shows "SilogMpscQueuePop (Some q) (Some out) = Some (SILOG_TRANS_QUEUE_EMPTY, Some out, Some q)"
  using mpsc_pop_empty [OF assms(1), of out] mq_list_length [OF assms(1)] assms(2) by simp

text \<open>A batch that fits into an empty ring comes out as it went in.\<close>

lemma ring_batch:
  assumes "mq_ok q" and "mq_list q = []" and "\<forall>x \<in> set xs. length x = unat (mq_elementSize q)"
    and "length xs \<le> unat (mq_capacity q)"
  shows "\<exists>q' q''. push_all mpsc_push q xs = Some q' \<and> pop_many (pop_elem mpsc_pop) (length xs) q' = Some (xs, q'') \<and>
    mq_ok q'' \<and> mq_list q'' = []"
proof -
  obtain q' where q': "push_all mpsc_push q xs = Some q'" "mq_ok q'" "mq_elementSize q' = mq_elementSize q" "mq_list q' = xs"
    using mpsc_fifo.push_all_in_order [of q "mq_elementSize q" xs] assms by auto
  then show ?thesis using mpsc_fifo.pop_many_in_order [of q' "mq_elementSize q" "length xs"] by auto
qed

text \<open>A ring of two one-byte slots whose write position has just wrapped around.\<close>

definition mq_ex :: SiLogMpscQueue where
  "mq_ex = \<lparr>mq_buffer = Some [7, 8], mq_elementSize = 1, mq_capacity = 2, mq_writePos = 0,
     mq_readPos = 0xFFFFFFFF, mq_seq = Some [0, 0], mq_capacityMask = 1\<rparr>"

section \<open>Properties\<close>

text \<open>
  C10. Every sequence of pushes and pops on a well-formed ring, wherever its 32-bit positions are,
  gives the results of the bounded FIFO of its capacity: pushes append or report a full queue and
  change nothing, pops return the oldest element or report an empty queue, no run is stuck in the
  compare-and-exchange loop or leaves the buffer, and the ring is well formed afterwards.
\<close>

theorem SilogMpscQueue_refines_fifo:
  assumes "mq_ok q" and "\<forall>x. Enq x \<in> set ops \<longrightarrow> length x = unat (mq_elementSize q)"
  shows "\<exists>q'. fifo_run mpsc_push mpsc_pop q ops =
      Some (fst (fifo_spec (unat (mq_capacity q)) (mq_list q) ops), q') \<and> mq_ok q' \<and>
    mq_list q' = snd (fifo_spec (unat (mq_capacity q)) (mq_list q) ops)"
  using mpsc_fifo.run_refines [of q "mq_elementSize q" ops] assms by auto

theorem SilogMpscQueue_refines_fifo_witness:
  "\<exists>q'. fifo_run mpsc_push mpsc_pop mq_ex [Enq [5], Enq [6], Deq, Deq, Deq] =
     Some ([Pushed SILOG_OK, Pushed SILOG_TRANS_QUEUE_FULL, Popped SILOG_OK (Some [8]),
       Popped SILOG_OK (Some [5]), Popped SILOG_TRANS_QUEUE_EMPTY None], q') \<and> mq_list q' = []"
proof -
  have two: "(\<forall>j < 2. P j) \<longleftrightarrow> P 0 \<and> P (1::nat)" for P by (auto simp: less_2_cases_iff)
  have "mq_ok mq_ex"
    by (simp add: mq_ok_def mq_ex_def buf_ok_def mq_count_def pos_def mark_def two)
  moreover have "mq_list mq_ex = [[8]]"
    by (simp add: mq_list_def mq_ex_def slots_def mq_count_def pos_def seg_def)
  ultimately show ?thesis
    using SilogMpscQueue_refines_fifo [of mq_ex "[Enq [5], Enq [6], Deq, Deq, Deq]"]
    by (auto simp: mq_ex_def)
qed

text \<open>
  \<open>SilogMpscQueueInit\<close> accepts exactly the capacities that are powers of two, and on success
  gives an empty well-formed ring with the requested sizes, when the byte count of the buffer fits
  32 bits.
\<close>

lemma SilogMpscQueueInit_correct:
  assumes "\<forall>n b. malloc1 n = Some b \<longrightarrow> length b = n" and "unat elementSize * unat capacity < 2 ^ 32"
    and "SilogMpscQueueInit malloc1 malloc2 (Some q) elementSize capacity = (r, q')"
  shows "(r = SILOG_INVALID_ARG \<longleftrightarrow> elementSize = 0 \<or> (\<nexists>k. k < 32 \<and> unat capacity = 2 ^ k)) \<and>
    (r = SILOG_OK \<longrightarrow> (\<exists>q1. q' = Some q1 \<and> mq_ok q1 \<and> mq_list q1 = [] \<and>
       mq_elementSize q1 = elementSize \<and> mq_capacity q1 = capacity))"
proof -
  have pow: "capacity \<noteq> 0 \<and> capacity AND (capacity - 1) = 0 \<longleftrightarrow> (\<exists>k. k < 32 \<and> unat capacity = 2 ^ k)"
  proof
    assume "\<exists>k. k < 32 \<and> unat capacity = 2 ^ k"
    then obtain k where k: "unat capacity = 2 ^ k" "k < 32" by blast
    then have "unat (capacity AND (capacity - 1)) = 0" using unat_and_mask [OF k, of capacity] by simp
    then have "capacity AND (capacity - 1) = 0" by (rule unsigned_eq_0_iff [THEN iffD1])
    then show "capacity \<noteq> 0 \<and> capacity AND (capacity - 1) = 0" using k(1) by auto
  qed (use power_of_two_word in blast)
  have "r = SILOG_INVALID_ARG \<longleftrightarrow> elementSize = 0 \<or> \<not> (capacity \<noteq> 0 \<and> capacity AND (capacity - 1) = 0)"
    using assms(3) by (auto simp: SilogMpscQueueInit_def split: if_splits option.splits)
  moreover have "\<exists>q1. q' = Some q1 \<and> mq_ok q1 \<and> mq_list q1 = [] \<and>
       mq_elementSize q1 = elementSize \<and> mq_capacity q1 = capacity" if ok: "r = SILOG_OK"
  proof -
    have e: "unat (elementSize * capacity) = unat elementSize * unat capacity"
      using assms(2) by (simp add: unat_exact)
    have "elementSize \<noteq> 0" "capacity \<noteq> 0" "capacity AND (capacity - 1) = 0"
      and "malloc2 (4 * unat capacity) \<noteq> None"
      and "\<exists>b. malloc1 (unat elementSize * unat capacity) = Some b"
      using assms(3) ok e by (auto simp: SilogMpscQueueInit_def split: if_splits option.splits)
    then show ?thesis using mpsc_init_ok [of elementSize capacity malloc1 _ malloc2 q] assms by auto
  qed
  ultimately show ?thesis unfolding pow by blast
qed

end
