(* ===== verification/Silog_Mpsc_Conc.thy ===== *)
theory Silog_Mpsc_Conc
  imports Silog_Mpsc
begin

text \<open>
  The interleavings of \<open>SilogMpscQueuePush\<close> by several producers with \<open>SilogMpscQueuePop\<close> by one
  consumer. A step is one atomic access to the shared ring: \<open>prod_step\<close> and \<open>cons_step\<close> are the
  accesses of \<open>silog_mpsc.c\<close> in their order, on the same 32-bit positions and marks. A copy of an
  element is one step; the invariant shows that no other thread has access to the slot meanwhile.

  The ghost fields record the elements in the order of their positions (\<open>ms_hist\<close>), the elements
  popped (\<open>ms_out\<close>) and the position of each producer as an unbounded number (\<open>ms_ppos\<close>); no step
  reads them to decide anything.
\<close>

section \<open>Threads and their steps\<close>

text \<open>
  Where a producer is in \<open>SilogMpscQueuePush\<close>: before the \<open>fetch_add\<close>; before the load of
  \<open>readPos\<close>; before the roll-back; in the compare-and-exchange loop; before the copy; before the
  store of the ready mark; returned.
\<close>

datatype 'e producer =
    PIdle | PStart 'e | PLoad u32 'e | PFull u32 'e | PClaim u32 'e | PCopy u32 'e | PMark u32 'e
  | PDone ErrorCode

text \<open>
  Where the consumer is in \<open>SilogMpscQueuePop\<close>: idle; before the load of \<open>seq\<close>; before the copy;
  before the store of \<open>seq\<close>; before the store of \<open>readPos\<close>.
\<close>

datatype 'e consumer = CIdle | CCheck u32 | CCopy u32 | CRelease u32 'e | CAdvance u32 'e

record 'e mpsc =
  ms_wpos :: u32
  ms_rpos :: u32
  ms_seq :: "u32 list"
  ms_dat :: "'e list"
  ms_prod :: "nat \<Rightarrow> 'e producer"
  ms_cons :: "'e consumer"
  ms_last :: ErrorCode
  ms_ppos :: "nat \<Rightarrow> nat"
  ms_hist :: "'e list"
  ms_out :: "'e list"

definition slot_of :: "u32 \<Rightarrow> u32 \<Rightarrow> nat" where
  "slot_of c w = unat (w AND (c - 1))"

definition set_prod :: "nat \<Rightarrow> 'e producer \<Rightarrow> 'e mpsc \<Rightarrow> 'e mpsc" where
  "set_prod t p s = s\<lparr>ms_prod := (ms_prod s)(t := p)\<rparr>"

definition prod_step :: "u32 \<Rightarrow> nat \<Rightarrow> 'e mpsc \<Rightarrow> 'e mpsc option" where
  "prod_step c t s =
     (case ms_prod s t of
        PIdle \<Rightarrow> None
      | PStart x \<Rightarrow> Some (set_prod t (PLoad (ms_wpos s) x) (s\<lparr>ms_wpos := ms_wpos s + 1,
          ms_hist := ms_hist s @ [x], ms_ppos := (ms_ppos s)(t := length (ms_hist s))\<rparr>))
      | PLoad w x \<Rightarrow> Some (set_prod t (if w - ms_rpos s \<ge> c then PFull w x else PClaim w x) s)
      | PFull w x \<Rightarrow> Some (set_prod t (PDone SILOG_TRANS_QUEUE_FULL)
          (s\<lparr>ms_wpos := ms_wpos s - 1, ms_hist := butlast (ms_hist s)\<rparr>))
      | PClaim w x \<Rightarrow>
          if ms_seq s ! slot_of c w = w
          then Some (set_prod t (PCopy w x) (s\<lparr>ms_seq := (ms_seq s)[slot_of c w := w + c]\<rparr>))
          else if ms_seq s ! slot_of c w = w + c then Some (set_prod t (PCopy w x) s)
          else Some s
      | PCopy w x \<Rightarrow> Some (set_prod t (PMark w x) (s\<lparr>ms_dat := (ms_dat s)[slot_of c w := x]\<rparr>))
      | PMark w x \<Rightarrow> Some (set_prod t (PDone SILOG_OK) (s\<lparr>ms_seq := (ms_seq s)[slot_of c w := w + 1]\<rparr>))
      | PDone r \<Rightarrow> None)"

definition cons_step :: "u32 \<Rightarrow> 'e mpsc \<Rightarrow> 'e mpsc" where
  "cons_step c s =
     (case ms_cons s of
        CIdle \<Rightarrow> s\<lparr>ms_cons := CCheck (ms_rpos s)\<rparr>
      | CCheck r \<Rightarrow>
          if ms_seq s ! slot_of c r \<noteq> r + 1
          then s\<lparr>ms_cons := CIdle, ms_last := SILOG_TRANS_QUEUE_EMPTY\<rparr>
          else s\<lparr>ms_cons := CCopy r\<rparr>
      | CCopy r \<Rightarrow> s\<lparr>ms_cons := CRelease r (ms_dat s ! slot_of c r)\<rparr>
      | CRelease r x \<Rightarrow> s\<lparr>ms_cons := CAdvance r x, ms_seq := (ms_seq s)[slot_of c r := r + c]\<rparr>
      | CAdvance r x \<Rightarrow> s\<lparr>ms_cons := CIdle, ms_last := SILOG_OK, ms_rpos := r + 1, ms_out := ms_out s @ [x]\<rparr>)"

text \<open>A new call of \<open>SilogMpscQueuePush\<close> by thread \<open>t\<close>.\<close>

definition prod_call :: "nat \<Rightarrow> 'e \<Rightarrow> 'e mpsc \<Rightarrow> 'e mpsc option" where
  "prod_call t x s = (case ms_prod s t of
     PIdle \<Rightarrow> Some (set_prod t (PStart x) s) | PDone r \<Rightarrow> Some (set_prod t (PStart x) s) | _ \<Rightarrow> None)"

definition mpsc_start :: "u32 \<Rightarrow> 'e list \<Rightarrow> 'e mpsc" where
  "mpsc_start c dat = \<lparr>ms_wpos = 0, ms_rpos = 0, ms_seq = map word_of_nat [0..<unat c], ms_dat = dat,
     ms_prod = (\<lambda>t. PIdle), ms_cons = CIdle, ms_last = SILOG_OK, ms_ppos = (\<lambda>t. 0),
     ms_hist = [], ms_out = []\<rparr>"

text \<open>
  The reachable states with \<open>n\<close> producers: all interleavings (\<open>mpsc_reach\<close>), and those in which a
  producer that found the queue full rolls \<open>writePos\<close> back before another one takes the next
  position (\<open>mpsc_calm\<close>).
\<close>

inductive mpsc_reach :: "u32 \<Rightarrow> nat \<Rightarrow> 'e mpsc \<Rightarrow> bool" for c n where
  start: "length dat = unat c \<Longrightarrow> mpsc_reach c n (mpsc_start c dat)"
| call: "mpsc_reach c n s \<Longrightarrow> t < n \<Longrightarrow> prod_call t x s = Some s' \<Longrightarrow> mpsc_reach c n s'"
| prod: "mpsc_reach c n s \<Longrightarrow> t < n \<Longrightarrow> prod_step c t s = Some s' \<Longrightarrow> mpsc_reach c n s'"
| consume: "mpsc_reach c n s \<Longrightarrow> mpsc_reach c n (cons_step c s)"

definition rollback_alone :: "nat \<Rightarrow> 'e mpsc \<Rightarrow> bool" where
  "rollback_alone t s = (case ms_prod s t of PFull w x \<Rightarrow> ms_wpos s = w + 1 | _ \<Rightarrow> True)"

inductive mpsc_calm :: "u32 \<Rightarrow> nat \<Rightarrow> 'e mpsc \<Rightarrow> bool" for c n where
  start: "length dat = unat c \<Longrightarrow> mpsc_calm c n (mpsc_start c dat)"
| call: "mpsc_calm c n s \<Longrightarrow> t < n \<Longrightarrow> prod_call t x s = Some s' \<Longrightarrow> mpsc_calm c n s'"
| prod: "mpsc_calm c n s \<Longrightarrow> t < n \<Longrightarrow> rollback_alone t s \<Longrightarrow> prod_step c t s = Some s' \<Longrightarrow>
    mpsc_calm c n s'"
| consume: "mpsc_calm c n s \<Longrightarrow> mpsc_calm c n (cons_step c s)"

text \<open>A schedule is run by the executable steps; each entry moves one thread once.\<close>

datatype 'e turn = Call nat 'e | Prod nat | Consume

fun run :: "u32 \<Rightarrow> 'e turn list \<Rightarrow> 'e mpsc \<Rightarrow> 'e mpsc option" where
  "run c [] s = Some s"
| "run c (Call t x # ts) s = Option.bind (prod_call t x s) (run c ts)"
| "run c (Prod t # ts) s = Option.bind (prod_step c t s) (run c ts)"
| "run c (Consume # ts) s = run c ts (cons_step c s)"

section \<open>The invariant\<close>

text \<open>
  What a producer holds: its position, its element and how far it is (0: not yet admitted, 1: before
  the exchange, 2: before the copy, 3: before the ready mark).
\<close>

fun holding :: "'e producer \<Rightarrow> (u32 \<times> 'e \<times> nat) option" where
  "holding (PLoad w x) = Some (w, x, 0)"
| "holding (PFull w x) = Some (w, x, 0)"
| "holding (PClaim w x) = Some (w, x, 1)"
| "holding (PCopy w x) = Some (w, x, 2)"
| "holding (PMark w x) = Some (w, x, 3)"
| "holding _ = None"

abbreviation (input) "Wn s \<equiv> length (ms_hist s)"
abbreviation (input) "Rn s \<equiv> length (ms_out s)"
abbreviation (input) "hold s t \<equiv> holding (ms_prod s t)"

definition released :: "'e consumer \<Rightarrow> bool" where
  "released p \<longleftrightarrow> (\<exists>r x. p = CAdvance r x)"

definition unheld :: "nat \<Rightarrow> 'e mpsc \<Rightarrow> nat \<Rightarrow> bool" where
  "unheld n s p \<longleftrightarrow> (\<forall>t < n. hold s t \<noteq> None \<longrightarrow> ms_ppos s t \<noteq> p)"

definition inv_pos :: "u32 \<Rightarrow> 'e mpsc \<Rightarrow> bool" where
  "inv_pos c s \<longleftrightarrow> ms_rpos s = word_of_nat (Rn s) \<and> ms_wpos s = word_of_nat (Wn s) \<and> Rn s \<le> Wn s \<and>
     ms_out s = take (Rn s) (ms_hist s) \<and> length (ms_seq s) = unat c \<and> length (ms_dat s) = unat c"

definition prod_ok :: "u32 \<Rightarrow> 'e mpsc \<Rightarrow> nat \<Rightarrow> bool" where
  "prod_ok c s t \<longleftrightarrow> (case hold s t of None \<Rightarrow> True | Some (w, x, k) \<Rightarrow>
     w = word_of_nat (ms_ppos s t) \<and> Rn s \<le> ms_ppos s t \<and> ms_ppos s t < Wn s \<and>
     ms_hist s ! ms_ppos s t = x \<and> (0 < k \<longrightarrow> ms_ppos s t < Rn s + unat c) \<and>
     (ms_ppos s t < Rn s + unat c \<longrightarrow>
        ms_seq s ! (ms_ppos s t mod unat c) =
          (if k < 2 then word_of_nat (ms_ppos s t) else word_of_nat (ms_ppos s t + unat c))) \<and>
     (k = 3 \<longrightarrow> ms_dat s ! (ms_ppos s t mod unat c) = x))"

definition inv_prod :: "u32 \<Rightarrow> nat \<Rightarrow> 'e mpsc \<Rightarrow> bool" where
  "inv_prod c n s \<longleftrightarrow> (\<forall>t < n. prod_ok c s t)"

definition inv_dist :: "nat \<Rightarrow> 'e mpsc \<Rightarrow> bool" where
  "inv_dist n s \<longleftrightarrow> (\<forall>t < n. \<forall>t' < n. hold s t \<noteq> None \<longrightarrow> hold s t' \<noteq> None \<longrightarrow>
     ms_ppos s t = ms_ppos s t' \<longrightarrow> t = t')"

definition inv_over :: "u32 \<Rightarrow> nat \<Rightarrow> 'e mpsc \<Rightarrow> bool" where
  "inv_over c n s \<longleftrightarrow> (\<forall>p. Rn s + unat c \<le> p \<longrightarrow> p < Wn s \<longrightarrow> \<not> unheld n s p)"

definition inv_fresh :: "u32 \<Rightarrow> 'e mpsc \<Rightarrow> bool" where
  "inv_fresh c s \<longleftrightarrow> (\<forall>p. Wn s \<le> p \<longrightarrow> p < Rn s + unat c \<longrightarrow> ms_seq s ! (p mod unat c) = word_of_nat p)"

definition inv_ready :: "u32 \<Rightarrow> nat \<Rightarrow> 'e mpsc \<Rightarrow> bool" where
  "inv_ready c n s \<longleftrightarrow> (\<forall>p. Rn s \<le> p \<longrightarrow> p < Wn s \<longrightarrow> p < Rn s + unat c \<longrightarrow> unheld n s p \<longrightarrow>
     \<not> (p = Rn s \<and> released (ms_cons s)) \<longrightarrow>
     ms_seq s ! (p mod unat c) = word_of_nat (Suc p) \<and> ms_dat s ! (p mod unat c) = ms_hist s ! p)"

definition inv_cons :: "u32 \<Rightarrow> nat \<Rightarrow> 'e mpsc \<Rightarrow> bool" where
  "inv_cons c n s \<longleftrightarrow> (case ms_cons s of
       CIdle \<Rightarrow> True
     | CCheck r \<Rightarrow> r = ms_rpos s
     | CCopy r \<Rightarrow> r = ms_rpos s \<and> Rn s < Wn s \<and> unheld n s (Rn s)
     | CRelease r x \<Rightarrow> r = ms_rpos s \<and> Rn s < Wn s \<and> unheld n s (Rn s) \<and> x = ms_hist s ! Rn s
     | CAdvance r x \<Rightarrow> r = ms_rpos s \<and> Rn s < Wn s \<and> unheld n s (Rn s) \<and> x = ms_hist s ! Rn s \<and>
         ms_seq s ! (Rn s mod unat c) = word_of_nat (Rn s + unat c))"

definition mpsc_inv :: "u32 \<Rightarrow> nat \<Rightarrow> 'e mpsc \<Rightarrow> bool" where
  "mpsc_inv c n s \<longleftrightarrow> inv_pos c s \<and> inv_prod c n s \<and> inv_dist n s \<and> inv_over c n s \<and> inv_fresh c s \<and>
     inv_ready c n s \<and> inv_cons c n s"

text \<open>Power-of-two capacities of at least two, and positions that stay within 32 bits of each other.\<close>

definition sizes_ok :: "u32 \<Rightarrow> nat \<Rightarrow> bool" where
  "sizes_ok c n \<longleftrightarrow> (\<exists>k < 32. unat c = 2 ^ k) \<and> 2 \<le> unat c \<and> unat c + n < 2 ^ 32"

lemma slot_of_word: "sizes_ok c n \<Longrightarrow> slot_of c (word_of_nat p) = p mod unat c"
proof -
  assume "sizes_ok c n"
  then obtain k where k: "unat c = 2 ^ k" "k < 32" by (auto simp: sizes_ok_def)
  from index_pos [OF k, of 0 p] show ?thesis by (simp add: slot_of_def pos_def)
qed

lemma window_inject:
  assumes "(p::nat) mod m = p' mod m" and "r \<le> p" "p < r + m" "r \<le> p'" "p' < r + m"
  shows "p = p'"
proof -
  have "q = q'" if "q mod m = q' mod m" "r \<le> q" "q \<le> q'" "q' < r + m" for q q'
  proof -
    have "m dvd q' - q" using that by (simp add: mod_eq_dvd_iff_nat [symmetric])
    moreover have "q' - q < m" using that by linarith
    ultimately have "q' - q = 0" using nat_dvd_not_less by blast
    then show ?thesis using that(3) by simp
  qed
  from this [of p p'] this [of p' p] show ?thesis using assms by (cases "p \<le> p'") auto
qed

lemma word_near:
  assumes "(word_of_nat a :: u32) = word_of_nat b" and "r \<le> a" "a < r + 2 ^ 32" "r \<le> b" "b < r + 2 ^ 32"
  shows "a = b"
proof -
  have "unat (word_of_nat a :: u32) = unat (word_of_nat b :: u32)" using assms(1) by simp
  then have "a mod 2 ^ 32 = b mod 2 ^ 32" by (simp add: unat_of_nat)
  then show ?thesis using assms(2-) by (rule window_inject)
qed

lemma word_dist:
  assumes "r \<le> p" "p < r + 2 ^ 32"
  shows "unat ((word_of_nat p :: u32) - word_of_nat r) = p - r"
proof -
  have "unat (word_of_nat (p - r) :: u32) = p - r"
    using assms by (intro of_nat_inverse) simp_all
  then show ?thesis using assms(1) by (simp only: of_nat_diff)
qed

text \<open>At most \<open>n\<close> positions are taken beyond the capacity, one by each producer.\<close>

lemma positions_bounded:
  assumes "inv_over c n s"
  shows "Wn s \<le> Rn s + unat c + n"
proof -
  have "{Rn s + unat c..<Wn s} \<subseteq> ms_ppos s ` {..<n}"
    using assms by (fastforce simp: inv_over_def unheld_def)
  then have "card {Rn s + unat c..<Wn s} \<le> card {..<n}"
    by (meson card_image_le card_mono finite_imageI finite_lessThan le_trans)
  then show ?thesis by simp
qed

lemma positions_near: "inv_over c n s \<Longrightarrow> sizes_ok c n \<Longrightarrow> Wn s < Rn s + 2 ^ 32"
  using positions_bounded [of c n s] by (simp add: sizes_ok_def)

lemma start_inv:
  assumes "sizes_ok c n" and "length dat = unat c"
  shows "mpsc_inv c n (mpsc_start c dat)"
  using assms
  by (simp add: mpsc_inv_def mpsc_start_def inv_pos_def inv_prod_def inv_dist_def inv_over_def inv_fresh_def
      inv_ready_def inv_cons_def prod_ok_def)

text \<open>The invariant sees the producers only through what they hold.\<close>

lemma inv_same_hold:
  assumes "mpsc_inv c n s" and "\<And>t. holding (P t) = hold s t"
  shows "mpsc_inv c n (s\<lparr>ms_prod := P\<rparr>)"
proof -
  have "unheld n (s\<lparr>ms_prod := P\<rparr>) = unheld n s" by (rule ext) (simp add: unheld_def assms(2))
  moreover have "prod_ok c (s\<lparr>ms_prod := P\<rparr>) = prod_ok c s"
    by (rule ext) (auto simp: prod_ok_def assms(2) split: option.splits)
  ultimately show ?thesis
    using assms(1) by (cases "ms_cons s") (simp_all add: mpsc_inv_def inv_pos_def inv_prod_def inv_dist_def
        inv_over_def inv_fresh_def inv_ready_def inv_cons_def assms(2))
qed

lemma call_inv:
  assumes "mpsc_inv c n s" and "prod_call t x s = Some s'"
  shows "mpsc_inv c n s'"
  using assms inv_same_hold [OF assms(1), of "(ms_prod s)(t := PStart x)"]
  by (auto simp: prod_call_def set_prod_def split: producer.splits)

lemma inv_prodD:
  assumes "mpsc_inv c n s" and "t < n" and "hold s t = Some (w, x, k)"
  shows "w = word_of_nat (ms_ppos s t)" "Rn s \<le> ms_ppos s t" "ms_ppos s t < Wn s"
    "ms_hist s ! ms_ppos s t = x" "0 < k \<Longrightarrow> ms_ppos s t < Rn s + unat c"
    "ms_ppos s t < Rn s + unat c \<Longrightarrow> ms_seq s ! (ms_ppos s t mod unat c) =
       (if k < 2 then word_of_nat (ms_ppos s t) else word_of_nat (ms_ppos s t + unat c))"
    "k = 3 \<Longrightarrow> ms_dat s ! (ms_ppos s t mod unat c) = x"
  using assms unfolding mpsc_inv_def inv_prod_def prod_ok_def by fastforce+

lemma unheld_less: "mpsc_inv c n s \<Longrightarrow> Wn s \<le> p \<Longrightarrow> unheld n s p"
  using inv_prodD(3) [of c n s] by (fastforce simp: unheld_def)

text \<open>A producer takes the next position.\<close>

lemma take_inv:
  assumes i: "mpsc_inv c n s" and t: "t < n" and h: "hold s t = None"
    and s': "s' = set_prod t (PLoad (ms_wpos s) x) (s\<lparr>ms_wpos := ms_wpos s + 1,
      ms_hist := ms_hist s @ [x], ms_ppos := (ms_ppos s)(t := Wn s)\<rparr>)"
  shows "mpsc_inv c n s'"
proof -
  note i' = i [unfolded mpsc_inv_def]
  have pc: "ms_prod s' u = (if u = t then PLoad (ms_wpos s) x else ms_prod s u)" for u
    by (simp add: s' set_prod_def)
  have fld: "ms_hist s' = ms_hist s @ [x]" "ms_out s' = ms_out s" "ms_seq s' = ms_seq s" "ms_dat s' = ms_dat s"
    "ms_cons s' = ms_cons s" "ms_rpos s' = ms_rpos s" "ms_wpos s' = ms_wpos s + 1"
    "ms_ppos s' u = (if u = t then Wn s else ms_ppos s u)" for u
    by (simp_all add: s' set_prod_def)
  have RW: "Rn s \<le> Wn s" "ms_wpos s = word_of_nat (Wn s)" using i' by (simp_all add: inv_pos_def)
  have uh: "unheld n s' p \<longleftrightarrow> unheld n s p \<and> p \<noteq> Wn s" for p
    using t h by (auto simp: unheld_def pc fld)
  have "inv_pos c s'" using i' by (simp add: inv_pos_def fld)
  moreover have "prod_ok c s' u" if u: "u < n" for u
  proof (cases "u = t")
    case True
    have "Wn s < Rn s + unat c \<Longrightarrow> ms_seq s ! (Wn s mod unat c) = word_of_nat (Wn s)"
      using i' by (simp add: inv_fresh_def)
    then show ?thesis using True RW by (auto simp: prod_ok_def pc fld)
  next
    case False
    have "prod_ok c s u" using i' u by (simp add: inv_prod_def)
    then show ?thesis using False by (auto simp: prod_ok_def pc fld nth_append split: option.splits)
  qed
  then have "inv_prod c n s'" by (simp add: inv_prod_def)
  moreover have "inv_dist n s'"
    unfolding inv_dist_def
  proof (intro allI impI)
    fix u u' assume u: "u < n" "u' < n" "hold s' u \<noteq> None" "hold s' u' \<noteq> None" "ms_ppos s' u = ms_ppos s' u'"
    have less: "ms_ppos s v < Wn s" if "v < n" "v \<noteq> t" "hold s' v \<noteq> None" for v
      using that inv_prodD(3) [OF i that(1)] by (auto simp: pc)
    have "inv_dist n s" using i' by simp
    then show "u = u'"
      using u less [of u] less [of u'] unfolding inv_dist_def
      by (cases "u = t"; cases "u' = t") (auto simp: pc fld)
  qed
  moreover have "inv_over c n s'" using i' by (auto simp: inv_over_def uh fld less_Suc_eq)
  moreover have "inv_fresh c s'" using i' by (simp add: inv_fresh_def fld)
  moreover have "inv_ready c n s'"
    using i' by (auto simp: inv_ready_def uh fld less_Suc_eq nth_append)
  moreover have "inv_cons c n s'"
    using i' RW by (auto simp: inv_cons_def uh fld nth_append split: consumer.splits)
  ultimately show ?thesis by (simp add: mpsc_inv_def)
qed

text \<open>What a producer holds stays right when its slot, its position and the history do not change.\<close>

lemma prod_ok_frame:
  assumes "prod_ok c s u" and "hold s' u = hold s u" and "ms_ppos s' = ms_ppos s" "ms_hist s' = ms_hist s" "ms_out s' = ms_out s"
    and "hold s u \<noteq> None \<Longrightarrow> ms_ppos s u < Rn s + unat c \<Longrightarrow>
      ms_seq s' ! (ms_ppos s u mod unat c) = ms_seq s ! (ms_ppos s u mod unat c) \<and>
      ms_dat s' ! (ms_ppos s u mod unat c) = ms_dat s ! (ms_ppos s u mod unat c)"
  shows "prod_ok c s' u"
proof (cases "hold s u")
  case None
  then show ?thesis using assms(2) by (simp add: prod_ok_def)
next
  case (Some y)
  then show ?thesis using assms by (cases y) (auto simp: prod_ok_def)
qed

text \<open>A producer is admitted: its position is within the capacity.\<close>

lemma admit_inv:
  assumes i: "mpsc_inv c n s" and t: "t < n" and h: "hold s t = Some (w, x, 0)"
    and p: "ms_ppos s t < Rn s + unat c" and s': "s' = set_prod t (PClaim w x) s"
  shows "mpsc_inv c n s'"
proof -
  note i' = i [unfolded mpsc_inv_def] and d = inv_prodD [OF i t h]
  have hs: "hold s' u = (if u = t then Some (w, x, 1) else hold s u)" for u by (simp add: s' set_prod_def)
  have fld: "ms_hist s' = ms_hist s" "ms_out s' = ms_out s" "ms_seq s' = ms_seq s" "ms_dat s' = ms_dat s"
    "ms_cons s' = ms_cons s" "ms_rpos s' = ms_rpos s" "ms_wpos s' = ms_wpos s" "ms_ppos s' = ms_ppos s"
    by (simp_all add: s' set_prod_def)
  have some: "(hold s' u \<noteq> None) = (hold s u \<noteq> None)" for u using h by (simp add: hs)
  have uh: "unheld n s' = unheld n s" unfolding unheld_def some fld ..
  have "prod_ok c s' u" if u: "u < n" for u
  proof (cases "u = t")
    case True
    then show ?thesis using d p by (simp add: prod_ok_def hs fld)
  next
    case False
    have "prod_ok c s u" using i' u by (simp add: inv_prod_def)
    then show ?thesis by (rule prod_ok_frame) (use False in \<open>simp_all add: hs fld\<close>)
  qed
  moreover have "inv_dist n s'" using i' unfolding inv_dist_def some fld by blast
  ultimately show ?thesis
    using i' by (cases "ms_cons s") (simp_all add: mpsc_inv_def inv_pos_def inv_prod_def inv_over_def
        inv_fresh_def inv_ready_def inv_cons_def uh fld)
qed

text \<open>A producer that found the queue full gives the last position back.\<close>

lemma prod_ok_rollback:
  assumes i: "mpsc_inv c n s" and t: "t < n" and h: "hold s t = Some (w, x, 0)" and last: "Suc (ms_ppos s t) = Wn s"
    and u: "u < n" "u \<noteq> t" "hold s' u = hold s u"
    and fld: "ms_hist s' = butlast (ms_hist s)" "ms_out s' = ms_out s" "ms_seq s' = ms_seq s" "ms_dat s' = ms_dat s"
      "ms_ppos s' = ms_ppos s"
  shows "prod_ok c s' u"
proof (cases "hold s u")
  case None
  then show ?thesis using u(3) by (simp add: prod_ok_def)
next
  case (Some y)
  have ok: "inv_dist n s" "prod_ok c s u" using i u(1) by (simp_all add: mpsc_inv_def inv_prod_def)
  then have "ms_ppos s u \<noteq> ms_ppos s t" using Some u(1,2) t h unfolding inv_dist_def by (metis option.distinct(1))
  moreover have "ms_ppos s u < Wn s" using Some inv_prodD(3) [OF i u(1)] by (cases y) auto
  ultimately have "ms_ppos s u < ms_ppos s t" using last by simp
  then show ?thesis using ok(2) Some u(3) last by (auto simp: prod_ok_def fld nth_butlast split: option.splits)
qed

lemma rollback_inv:
  assumes i: "mpsc_inv c n s" and t: "t < n" and h: "hold s t = Some (w, x, 0)"
    and last: "Suc (ms_ppos s t) = Wn s"
    and s': "s' = set_prod t (PDone r) (s\<lparr>ms_wpos := ms_wpos s - 1, ms_hist := butlast (ms_hist s)\<rparr>)"
  shows "mpsc_inv c n s'"
proof -
  note i' = i [unfolded mpsc_inv_def] and d = inv_prodD [OF i t h]
  have hs: "hold s' u = (if u = t then None else hold s u)" for u by (simp add: s' set_prod_def)
  have fld: "ms_hist s' = butlast (ms_hist s)" "ms_out s' = ms_out s" "ms_seq s' = ms_seq s"
    "ms_dat s' = ms_dat s" "ms_cons s' = ms_cons s" "ms_rpos s' = ms_rpos s" "ms_wpos s' = ms_wpos s - 1"
    "ms_ppos s' = ms_ppos s"
    by (simp_all add: s' set_prod_def)
  let ?p = "ms_ppos s t"
  have W: "Wn s = Suc ?p" "Wn s' = ?p" "Rn s \<le> ?p" using last d by (simp_all add: fld)
  have nth: "ms_hist s' ! q = ms_hist s ! q" if "q < ?p" for q
    using that W by (simp add: fld nth_butlast)
  have uh: "unheld n s' q \<longleftrightarrow> unheld n s q" if "q \<noteq> ?p" for q
    using that h by (auto simp: unheld_def hs fld)
  have nu: "\<not> unheld n s ?p" using t h by (auto simp: unheld_def)
  have tk: "take (Rn s) (butlast (ms_hist s)) = take (Rn s) (ms_hist s)"
    using W by (simp add: butlast_conv_take)
  have "inv_pos c s'"
    using i' W tk by (simp add: inv_pos_def fld)
  moreover have "prod_ok c s' u" if u: "u < n" for u
    using prod_ok_rollback [OF i t h last u, of s'] by (cases "u = t") (simp_all add: prod_ok_def hs fld)
  moreover have "inv_dist n s'" using i' by (auto simp: inv_dist_def hs fld)
  moreover have "inv_over c n s'" using i' W by (auto simp: inv_over_def uh fld)
  moreover have "inv_fresh c s'"
  proof -
    have "ms_seq s ! (?p mod unat c) = word_of_nat ?p" if "?p < Rn s + unat c" using d(6) that by simp
    then show ?thesis using i' W unfolding inv_fresh_def by (metis Suc_leI fld(2,3) le_neq_implies_less)
  qed
  moreover have "inv_ready c n s'"
  proof -
    have "inv_ready c n s" using i' by simp
    then show ?thesis unfolding inv_ready_def using W uh nth by (auto simp: fld)
  qed
  moreover have "inv_cons c n s'"
  proof -
    have "Rn s < ?p" if "Rn s < Wn s" "unheld n s (Rn s)"
      using that W nu by (metis le_neq_implies_less)
    then show ?thesis
      using i' uh [of "Rn s"] nth [of "Rn s"] W nu by (auto simp: inv_cons_def fld split: consumer.splits)
  qed
  ultimately show ?thesis by (simp add: mpsc_inv_def inv_prod_def)
qed

lemma other_slot:
  assumes i: "mpsc_inv c n s" and t: "t < n" "hold s t \<noteq> None" "ms_ppos s t < Rn s + unat c"
    and q: "Rn s \<le> q" "q < Rn s + unat c" "q \<noteq> ms_ppos s t"
  shows "q mod unat c \<noteq> ms_ppos s t mod unat c"
proof
  assume "q mod unat c = ms_ppos s t mod unat c"
  moreover have "Rn s \<le> ms_ppos s t" using i t(1,2) inv_prodD(2) [OF i t(1)] by auto
  ultimately show False using q t(3) window_inject by blast
qed

lemma other_held:
  assumes i: "mpsc_inv c n s" and t: "t < n" "hold s t \<noteq> None" and u: "u < n" "hold s u \<noteq> None" and "u \<noteq> t"
  shows "ms_ppos s u \<noteq> ms_ppos s t" and "Rn s \<le> ms_ppos s u"
proof -
  show "ms_ppos s u \<noteq> ms_ppos s t" using assms by (auto simp: mpsc_inv_def inv_dist_def)
  obtain y where "hold s u = Some y" using u(2) by blast
  then show "Rn s \<le> ms_ppos s u" using inv_prodD(2) [OF i u(1)] by (cases y) auto
qed

text \<open>
  A step that changes only the slot of one held position leaves the free slots and the slot the consumer
  looks at as they were.
\<close>

definition own_slot_only :: "u32 \<Rightarrow> nat \<Rightarrow> 'e mpsc \<Rightarrow> 'e mpsc \<Rightarrow> bool" where
  "own_slot_only c p s s' \<longleftrightarrow> ms_hist s' = ms_hist s \<and> ms_out s' = ms_out s \<and> ms_cons s' = ms_cons s \<and> ms_rpos s' = ms_rpos s \<and>
     ms_wpos s' = ms_wpos s \<and> ms_ppos s' = ms_ppos s \<and>
     (\<exists>a b. ms_seq s' = (ms_seq s)[p mod unat c := a] \<and> ms_dat s' = (ms_dat s)[p mod unat c := b])"

lemma own_slot_frame:
  assumes i: "mpsc_inv c n s" and t: "t < n" "hold s t \<noteq> None" "ms_ppos s t < Rn s + unat c"
    and o: "own_slot_only c (ms_ppos s t) s s'" and uh: "\<And>q. q \<noteq> ms_ppos s t \<Longrightarrow> unheld n s' q = unheld n s q"
  shows "Rn s \<le> q \<Longrightarrow> q < Rn s + unat c \<Longrightarrow> q \<noteq> ms_ppos s t \<Longrightarrow>
      ms_seq s' ! (q mod unat c) = ms_seq s ! (q mod unat c) \<and> ms_dat s' ! (q mod unat c) = ms_dat s ! (q mod unat c)"
    and "inv_pos c s'" and "inv_fresh c s'" and "inv_cons c n s'"
proof -
  note i' = i [unfolded mpsc_inv_def] and o' = o [unfolded own_slot_only_def]
  have slot: "ms_seq s' ! (q mod unat c) = ms_seq s ! (q mod unat c) \<and> ms_dat s' ! (q mod unat c) = ms_dat s ! (q mod unat c)"
    if "Rn s \<le> q" "q < Rn s + unat c" "q \<noteq> ms_ppos s t" for q
    using other_slot [OF i t that] o' by auto
  then show "Rn s \<le> q \<Longrightarrow> q < Rn s + unat c \<Longrightarrow> q \<noteq> ms_ppos s t \<Longrightarrow>
      ms_seq s' ! (q mod unat c) = ms_seq s ! (q mod unat c) \<and> ms_dat s' ! (q mod unat c) = ms_dat s ! (q mod unat c)"
    by blast
  show "inv_pos c s'" using i' o' by (auto simp: inv_pos_def)
  have p: "Rn s \<le> ms_ppos s t" "ms_ppos s t < Wn s" using t inv_prodD(2,3) [OF i t(1)] by auto
  then have "q \<noteq> ms_ppos s t" "Rn s \<le> q" if "Wn s \<le> q" for q using that by auto
  then show "inv_fresh c s'" using i' slot o' by (simp add: inv_fresh_def)
  have "Rn s \<noteq> ms_ppos s t" if "unheld n s (Rn s)" using that t by (auto simp: unheld_def)
  then show "inv_cons c n s'"
    using i' uh [of "Rn s"] slot [of "Rn s"] o' p t(3) by (auto simp: inv_cons_def split: consumer.splits)
qed

text \<open>A producer inside the window works on its own slot.\<close>

lemma touch_inv:
  assumes i: "mpsc_inv c n s" and t: "t < n" and h: "hold s t = Some (w, x, k)"
    and p: "ms_ppos s t < Rn s + unat c" and P: "holding P = Some (w, x, k')"
    and s': "s' = set_prod t P (s\<lparr>ms_seq := (ms_seq s)[ms_ppos s t mod unat c := a],
      ms_dat := (ms_dat s)[ms_ppos s t mod unat c := b]\<rparr>)"
    and a: "a = (if k' < 2 then word_of_nat (ms_ppos s t) else word_of_nat (ms_ppos s t + unat c))"
    and b: "k' = 3 \<Longrightarrow> b = x"
  shows "mpsc_inv c n s'"
proof -
  let ?p = "ms_ppos s t" and ?C = "unat c"
  note i' = i [unfolded mpsc_inv_def] and d = inv_prodD [OF i t h]
  have hs: "hold s' u = (if u = t then Some (w, x, k') else hold s u)" for u by (simp add: s' set_prod_def P)
  have fld: "ms_hist s' = ms_hist s" "ms_out s' = ms_out s" "ms_cons s' = ms_cons s" "ms_ppos s' = ms_ppos s"
    "ms_seq s' = (ms_seq s)[?p mod ?C := a]" "ms_dat s' = (ms_dat s)[?p mod ?C := b]"
    by (simp_all add: s' set_prod_def)
  have some: "(hold s' u \<noteq> None) = (hold s u \<noteq> None)" for u using h by (simp add: hs)
  have uh: "unheld n s' = unheld n s" unfolding unheld_def some fld ..
  have len: "length (ms_seq s) = ?C" "length (ms_dat s) = ?C" "0 < ?C" using i' p d(2) by (auto simp: inv_pos_def)
  have hn: "hold s t \<noteq> None" using h by simp
  have "own_slot_only c ?p s s'" by (auto simp: own_slot_only_def s' set_prod_def)
  note fr = own_slot_frame [OF i t hn p this] note slot = fr(1) [unfolded uh, OF refl]
  have "prod_ok c s' u" if u: "u < n" for u
  proof (cases "u = t")
    case True
    then show ?thesis using d p a b len by (auto simp: prod_ok_def hs fld)
  next
    case False
    have "prod_ok c s u" using i' u by (simp add: inv_prod_def)
    then show ?thesis
      by (rule prod_ok_frame) (use False slot other_held [OF i t hn u _ False] in \<open>simp_all add: hs fld(1,2,4)\<close>)
  qed
  moreover have "inv_dist n s'" using i' unfolding inv_dist_def some fld by blast
  moreover have "inv_ready c n s'"
  proof -
    have "q \<noteq> ?p" if "unheld n s q" for q using that t h by (auto simp: unheld_def)
    then show ?thesis using i' slot by (auto simp: inv_ready_def uh fld(1,2,3))
  qed
  ultimately show ?thesis
    using i' fr(2-4) uh by (simp add: mpsc_inv_def inv_prod_def inv_over_def fld)
qed

text \<open>A producer publishes its element.\<close>

lemma publish_inv:
  assumes i: "mpsc_inv c n s" and t: "t < n" and h: "hold s t = Some (w, x, 3)"
    and s': "s' = set_prod t (PDone r) (s\<lparr>ms_seq := (ms_seq s)[ms_ppos s t mod unat c := w + 1]\<rparr>)"
  shows "mpsc_inv c n s'"
proof -
  let ?p = "ms_ppos s t" and ?C = "unat c"
  note i' = i [unfolded mpsc_inv_def] and d = inv_prodD [OF i t h]
  have p: "?p < Rn s + ?C" using d(5) by simp
  have hs: "hold s' u = (if u = t then None else hold s u)" for u by (simp add: s' set_prod_def)
  have fld: "ms_hist s' = ms_hist s" "ms_out s' = ms_out s" "ms_cons s' = ms_cons s" "ms_ppos s' = ms_ppos s"
    "ms_dat s' = ms_dat s" "ms_seq s' = (ms_seq s)[?p mod ?C := w + 1]"
    by (simp_all add: s' set_prod_def)
  have uh: "unheld n s' q \<longleftrightarrow> unheld n s q" if "q \<noteq> ?p" for q
    using that h by (auto simp: unheld_def hs fld)
  have hn: "hold s t \<noteq> None" using h by simp
  have "own_slot_only c ?p s s'"
    unfolding own_slot_only_def by (auto simp: s' set_prod_def intro: exI [of _ "ms_dat s ! (?p mod ?C)"])
  note fr = own_slot_frame [OF i t hn p this uh]
  have own: "ms_seq s' ! (?p mod ?C) = word_of_nat (Suc ?p)" using d(1,2) p i' by (auto simp: fld inv_pos_def)
  have "prod_ok c s' u" if u: "u < n" for u
  proof (cases "u = t \<or> hold s u = None")
    case True
    then show ?thesis by (auto simp: prod_ok_def hs)
  next
    case False
    have "prod_ok c s u" using i' u by (simp add: inv_prod_def)
    then show ?thesis
      by (rule prod_ok_frame) (use False fr(1) other_held [OF i t hn u] in \<open>auto simp: hs fld(1,2,4)\<close>)
  qed
  moreover have "inv_dist n s'" using i' by (auto simp: inv_dist_def hs fld)
  moreover have "inv_over c n s'" using i' p by (auto simp: inv_over_def uh fld)
  moreover have "ms_seq s' ! (q mod ?C) = word_of_nat (Suc q) \<and> ms_dat s' ! (q mod ?C) = ms_hist s' ! q"
    if q: "Rn s \<le> q" "q < Wn s" "q < Rn s + ?C" "unheld n s' q" "\<not> (q = Rn s \<and> released (ms_cons s))" for q
  proof (cases "q = ?p")
    case True
    then show ?thesis using own d(4,7) by (simp add: fld)
  next
    case False
    then show ?thesis using q i' uh [OF False] fr(1) [of q] by (simp add: inv_ready_def fld(1))
  qed
  then have "inv_ready c n s'" by (simp add: inv_ready_def fld(1-3))
  ultimately show ?thesis using fr(2-4) by (simp add: mpsc_inv_def inv_prod_def)
qed

text \<open>The consumer finds a ready mark only when the oldest position is published.\<close>

lemma ready_mark:
  assumes i: "mpsc_inv c n s" and z: "sizes_ok c n"
    and m: "ms_seq s ! (Rn s mod unat c) = word_of_nat (Suc (Rn s))" and nr: "\<not> released (ms_cons s)"
  shows "Rn s < Wn s \<and> unheld n s (Rn s)"
proof -
  let ?R = "Rn s" and ?C = "unat c"
  note i' = i [unfolded mpsc_inv_def]
  have C: "2 \<le> ?C" "?C < 2 ^ 32" using z by (auto simp: sizes_ok_def)
  have ne: "(word_of_nat ?R :: u32) \<noteq> word_of_nat (Suc ?R)" "(word_of_nat (?R + ?C) :: u32) \<noteq> word_of_nat (Suc ?R)"
    using word_near [of ?R "Suc ?R" ?R] word_near [of "?R + ?C" "Suc ?R" ?R] C by auto
  have "?R \<noteq> Wn s" using i' m ne(1) C by (auto simp: inv_fresh_def)
  moreover have "?R \<le> Wn s" using i' by (simp add: inv_pos_def)
  moreover have "unheld n s ?R"
    unfolding unheld_def
  proof (intro allI impI notI)
    fix t assume t: "t < n" "hold s t \<noteq> None" "ms_ppos s t = ?R"
    then obtain w x k where "hold s t = Some (w, x, k)" by auto
    from inv_prodD(6) [OF i t(1) this] t(3) m ne C show False by (simp split: if_splits)
  qed
  ultimately show ?thesis by simp
qed

lemma cons_idle_inv:
  assumes i: "mpsc_inv c n s" and "\<not> released (ms_cons s)" and "\<not> released k"
    and "inv_cons c n (s\<lparr>ms_cons := k\<rparr>)"
  shows "mpsc_inv c n (s\<lparr>ms_cons := k, ms_last := e\<rparr>)"
proof -
  have "unheld n (s\<lparr>ms_cons := k, ms_last := e\<rparr>) = unheld n s"
    "unheld n (s\<lparr>ms_cons := k\<rparr>) = unheld n s"
    "prod_ok c (s\<lparr>ms_cons := k, ms_last := e\<rparr>) = prod_ok c s"
    by (auto simp: fun_eq_iff unheld_def prod_ok_def split: option.splits)
  then show ?thesis
    using assms by (cases k) (simp_all add: mpsc_inv_def inv_pos_def inv_prod_def inv_dist_def inv_over_def
        inv_fresh_def inv_ready_def inv_cons_def)
qed

lemma release_inv:
  assumes i: "mpsc_inv c n s" and z: "sizes_ok c n" and k: "ms_cons s = CRelease r x"
    and s': "s' = s\<lparr>ms_cons := CAdvance r x, ms_seq := (ms_seq s)[Rn s mod unat c := word_of_nat (Rn s + unat c)]\<rparr>"
  shows "mpsc_inv c n s'"
proof -
  let ?R = "Rn s" and ?C = "unat c"
  note i' = i [unfolded mpsc_inv_def]
  have C: "0 < ?C" using z by (simp add: sizes_ok_def)
  have u: "unheld n s ?R" "?R < Wn s" "r = ms_rpos s" "x = ms_hist s ! ?R"
    using i' k by (simp_all add: inv_cons_def)
  have fld: "ms_hist s' = ms_hist s" "ms_out s' = ms_out s" "ms_rpos s' = ms_rpos s" "ms_wpos s' = ms_wpos s"
    "ms_ppos s' = ms_ppos s" "ms_dat s' = ms_dat s" "ms_prod s' = ms_prod s" "ms_cons s' = CAdvance r x"
    "ms_seq s' = (ms_seq s)[?R mod ?C := word_of_nat (?R + ?C)]"
    by (simp_all add: s')
  have uh: "unheld n s' = unheld n s" by (simp add: fun_eq_iff unheld_def fld)
  have len: "length (ms_seq s) = ?C" using i' by (simp add: inv_pos_def)
  have slot: "ms_seq s' ! (q mod ?C) = ms_seq s ! (q mod ?C)" if "?R < q" "q < ?R + ?C" for q
  proof -
    have "q mod ?C \<noteq> ?R mod ?C" using window_inject [of q ?C ?R ?R] that by auto
    then show ?thesis by (simp add: fld)
  qed
  have "prod_ok c s' t" if t: "t < n" for t
  proof (rule prod_ok_frame)
    assume "hold s t \<noteq> None" "ms_ppos s t < ?R + ?C"
    moreover from this obtain y where "hold s t = Some y" by blast
    ultimately have "?R < ms_ppos s t" using inv_prodD(2) [OF i t] u(1) t by (cases y) (auto simp: unheld_def le_less)
    then show "ms_seq s' ! (ms_ppos s t mod ?C) = ms_seq s ! (ms_ppos s t mod ?C) \<and>
        ms_dat s' ! (ms_ppos s t mod ?C) = ms_dat s ! (ms_ppos s t mod ?C)"
      using slot [of "ms_ppos s t"] \<open>ms_ppos s t < ?R + ?C\<close> by (simp add: fld)
  qed (use i' t in \<open>simp_all add: inv_prod_def fld\<close>)
  moreover have "inv_fresh c s'" using i' slot u(2) by (auto simp: inv_fresh_def fld(1,2))
  moreover have "inv_ready c n s'"
    unfolding inv_ready_def
  proof (intro allI impI)
    fix q assume q: "Rn s' \<le> q" "q < Wn s'" "q < Rn s' + ?C" "unheld n s' q"
      "\<not> (q = Rn s' \<and> released (ms_cons s'))"
    then have "?R < q" by (cases "q = ?R") (auto simp: fld released_def)
    then show "ms_seq s' ! (q mod ?C) = word_of_nat (Suc q) \<and> ms_dat s' ! (q mod ?C) = ms_hist s' ! q"
      using q i' uh slot [of q] by (simp add: inv_ready_def fld(1,2,6))
  qed
  moreover have "inv_cons c n s'" using u uh len C by (simp add: inv_cons_def fld)
  ultimately show ?thesis
    using i' len uh by (simp add: mpsc_inv_def inv_pos_def inv_prod_def inv_dist_def inv_over_def fld)
qed

text \<open>When the window moves on by one, a producer just beyond it finds its slot free.\<close>

lemma prod_ok_advance:
  assumes i: "mpsc_inv c n s" and t: "t < n" and u: "unheld n s (Rn s)"
    and free: "ms_seq s ! (Rn s mod unat c) = word_of_nat (Rn s + unat c)"
    and fld: "ms_prod s' = ms_prod s" "ms_ppos s' = ms_ppos s" "ms_hist s' = ms_hist s" "ms_seq s' = ms_seq s" "ms_dat s' = ms_dat s"
      "Rn s' = Suc (Rn s)"
  shows "prod_ok c s' t"
proof (cases "hold s t")
  case None
  then show ?thesis by (simp add: prod_ok_def fld)
next
  case (Some y)
  obtain w a k where y: "y = (w, a, k)" by (cases y)
  note d = inv_prodD [OF i t Some [unfolded y]]
  have ne: "ms_ppos s t \<noteq> Rn s" using u Some t unfolding unheld_def by fastforce
  have "ms_seq s ! (ms_ppos s t mod unat c) =
    (if k < 2 then word_of_nat (ms_ppos s t) else word_of_nat (ms_ppos s t + unat c))"
    if "ms_ppos s t < Suc (Rn s) + unat c"
  proof (cases "ms_ppos s t = Rn s + unat c")
    case True
    then have "k = 0" using d(5) by auto
    then show ?thesis using True free by simp
  next
    case False
    then show ?thesis using d(6) that by simp
  qed
  then show ?thesis using d ne Some y by (auto simp: prod_ok_def fld)
qed

lemma inv_fresh_advance:
  assumes "inv_fresh c s" and "ms_seq s ! (Rn s mod unat c) = word_of_nat (Rn s + unat c)"
    and "ms_hist s' = ms_hist s" "ms_seq s' = ms_seq s" "Rn s' = Suc (Rn s)"
  shows "inv_fresh c s'"
  unfolding inv_fresh_def
proof (intro allI impI)
  fix q assume q: "Wn s' \<le> q" "q < Rn s' + unat c"
  show "ms_seq s' ! (q mod unat c) = word_of_nat q"
  proof (cases "q = Rn s + unat c")
    case True
    then show ?thesis using assms(2,4) by simp
  next
    case False
    then show ?thesis using q assms by (simp add: inv_fresh_def)
  qed
qed

lemma advance_inv:
  assumes i: "mpsc_inv c n s" and z: "sizes_ok c n" and k: "ms_cons s = CAdvance r x"
    and s': "s' = s\<lparr>ms_cons := CIdle, ms_last := e, ms_rpos := r + 1, ms_out := ms_out s @ [x]\<rparr>"
  shows "mpsc_inv c n s'"
proof -
  let ?R = "Rn s" and ?C = "unat c"
  note i' = i [unfolded mpsc_inv_def]
  have C: "0 < ?C" using z by (simp add: sizes_ok_def)
  have u: "unheld n s ?R" "?R < Wn s" "r = word_of_nat ?R" "x = ms_hist s ! ?R"
    "ms_seq s ! (?R mod ?C) = word_of_nat (?R + ?C)" "ms_out s = take ?R (ms_hist s)"
    using i' k by (simp_all add: inv_cons_def inv_pos_def)
  have fld: "ms_hist s' = ms_hist s" "ms_wpos s' = ms_wpos s" "ms_seq s' = ms_seq s"
    "ms_ppos s' = ms_ppos s" "ms_dat s' = ms_dat s" "ms_prod s' = ms_prod s" "ms_cons s' = CIdle"
    "ms_out s' = ms_out s @ [x]" "ms_rpos s' = word_of_nat (Suc ?R)"
    using u(3) by (simp_all add: s')
  have R': "Rn s' = Suc ?R" by (simp add: fld)
  have uh: "unheld n s' = unheld n s" by (simp add: fun_eq_iff unheld_def fld)
  have "inv_pos c s'"
  proof -
    have "ms_out s @ [x] = take (Suc ?R) (ms_hist s)"
      using u(2,4,6) by (metis take_Suc_conv_app_nth)
    then show ?thesis using i' u(2) R' by (simp add: inv_pos_def fld)
  qed
  moreover have "prod_ok c s' t" if t: "t < n" for t
    by (rule prod_ok_advance [OF i t u(1,5)]) (simp_all add: fld)
  moreover have "inv_over c n s'" using i' by (auto simp: inv_over_def uh R' fld(1))
  moreover have "inv_fresh c s'"
    by (rule inv_fresh_advance [OF _ u(5) fld(1,3) R']) (use i' in simp)
  moreover have "inv_ready c n s'"
    unfolding inv_ready_def
  proof (intro allI impI)
    fix q assume q: "Rn s' \<le> q" "q < Wn s'" "q < Rn s' + ?C" "unheld n s' q"
      "\<not> (q = Rn s' \<and> released (ms_cons s'))"
    then have "q \<noteq> ?R + ?C" using i' uh by (auto simp: inv_over_def fld(1))
    then show "ms_seq s' ! (q mod ?C) = word_of_nat (Suc q) \<and> ms_dat s' ! (q mod ?C) = ms_hist s' ! q"
      using q i' uh R' by (auto simp: inv_ready_def fld(1,3,5))
  qed
  ultimately show ?thesis
    using i' by (simp add: mpsc_inv_def inv_prod_def inv_dist_def inv_cons_def fld(4,6,7))
qed

text \<open>The consumer's steps that change only its own program counter.\<close>

lemma cons_moves:
  assumes "mpsc_inv c n s" and "\<not> released (ms_cons s)" and "\<not> released k" and "inv_cons c n (s\<lparr>ms_cons := k\<rparr>)"
  shows "mpsc_inv c n (s\<lparr>ms_cons := k\<rparr>)"
  using cons_idle_inv [OF assms, of "ms_last s"] by simp

lemma check_inv:
  assumes i: "mpsc_inv c n s" and z: "sizes_ok c n" and k: "ms_cons s = CCheck a"
  shows "mpsc_inv c n (cons_step c s)"
proof -
  have a: "a = word_of_nat (Rn s)" and nr: "\<not> released (ms_cons s)" and r: "a = ms_rpos s"
    using i k by (auto simp: mpsc_inv_def inv_cons_def inv_pos_def released_def)
  show ?thesis
  proof (cases "ms_seq s ! slot_of c a = a + 1")
    case True
    then have "Rn s < Wn s \<and> unheld n s (Rn s)"
      using slot_of_word [OF z] a ready_mark [OF i z _ nr] by (simp add: ac_simps)
    then have "inv_cons c n (s\<lparr>ms_cons := CCopy a\<rparr>)" using r by (simp add: inv_cons_def unheld_def)
    then show ?thesis using True k cons_moves [OF i nr, of "CCopy a"] by (simp add: cons_step_def released_def)
  next
    case False
    then show ?thesis using k cons_idle_inv [OF i nr, of CIdle] by (simp add: cons_step_def released_def inv_cons_def)
  qed
qed

lemma copy_inv:
  assumes i: "mpsc_inv c n s" and z: "sizes_ok c n" and k: "ms_cons s = CCopy a"
  shows "mpsc_inv c n (cons_step c s)"
proof -
  note i' = i [unfolded mpsc_inv_def]
  have u: "a = ms_rpos s" "Rn s < Wn s" "unheld n s (Rn s)" and nr: "\<not> released (ms_cons s)"
    and a: "ms_rpos s = word_of_nat (Rn s)"
    using i' k by (simp_all add: inv_cons_def inv_pos_def released_def)
  have "0 < unat c" using z by (simp add: sizes_ok_def)
  then have "ms_dat s ! (Rn s mod unat c) = ms_hist s ! Rn s" using i' u nr by (simp add: inv_ready_def)
  then have "inv_cons c n (s\<lparr>ms_cons := CRelease a (ms_dat s ! slot_of c a)\<rparr>)"
    using u slot_of_word [OF z, of "Rn s"] a by (simp add: inv_cons_def unheld_def)
  then show ?thesis using k cons_moves [OF i nr] by (simp add: cons_step_def released_def)
qed

lemma cons_inv:
  assumes i: "mpsc_inv c n s" and z: "sizes_ok c n"
  shows "mpsc_inv c n (cons_step c s)"
proof (cases "ms_cons s")
  case CIdle
  then show ?thesis using cons_moves [OF i, of "CCheck (ms_rpos s)"]
    by (simp add: cons_step_def released_def inv_cons_def)
next
  case (CCheck a)
  then show ?thesis using check_inv [OF i z] by simp
next
  case (CCopy a)
  then show ?thesis using copy_inv [OF i z] by simp
next
  case (CRelease a x)
  then have a: "a = word_of_nat (Rn s)" using i by (simp add: mpsc_inv_def inv_cons_def inv_pos_def)
  then have "a + c = word_of_nat (Rn s + unat c)" "slot_of c a = Rn s mod unat c" using slot_of_word [OF z] by simp_all
  then show ?thesis using CRelease release_inv [OF i z CRelease] by (simp add: cons_step_def)
next
  case (CAdvance a x)
  then show ?thesis using advance_inv [OF i z CAdvance] by (simp add: cons_step_def)
qed

text \<open>The producer's steps one by one, after it has taken its position.\<close>

lemma full_step_inv:
  assumes i: "mpsc_inv c n s" and z: "sizes_ok c n" and t: "t < n" and al: "rollback_alone t s"
    and pc: "ms_prod s t = PFull w x" and st: "prod_step c t s = Some s'"
  shows "mpsc_inv c n s'"
proof -
  let ?p = "ms_ppos s t"
  have h: "hold s t = Some (w, x, 0)" using pc by simp
  note d = inv_prodD [OF i t h] and i' = i [unfolded mpsc_inv_def]
  have "(word_of_nat (Wn s) :: u32) = word_of_nat (Suc ?p)"
    using al pc d(1) i' by (simp add: rollback_alone_def inv_pos_def ac_simps)
  moreover have "Wn s < Rn s + 2 ^ 32" using i' z positions_near by blast
  ultimately have "Wn s = Suc ?p" using d i' by (intro word_near [of _ _ "Rn s"]) (auto simp: inv_pos_def)
  moreover have "s' = set_prod t (PDone SILOG_TRANS_QUEUE_FULL)
      (s\<lparr>ms_wpos := ms_wpos s - 1, ms_hist := butlast (ms_hist s)\<rparr>)"
    using st pc by (simp add: prod_step_def)
  ultimately show ?thesis using rollback_inv [OF i t h] by metis
qed

lemma claim_step_inv:
  assumes i: "mpsc_inv c n s" and z: "sizes_ok c n" and t: "t < n"
    and pc: "ms_prod s t = PClaim w x" and st: "prod_step c t s = Some s'"
  shows "mpsc_inv c n s'"
proof -
  let ?p = "ms_ppos s t"
  have h: "hold s t = Some (w, x, 1)" using pc by simp
  note d = inv_prodD [OF i t h]
  have sl: "slot_of c (word_of_nat ?p) = ?p mod unat c" using slot_of_word [OF z] .
  have w: "w + c = word_of_nat (?p + unat c)" using d(1) by simp
  have "ms_seq s ! slot_of c w = w" using d sl by simp
  then have "s' = set_prod t (PCopy w x) (s\<lparr>ms_seq := (ms_seq s)[?p mod unat c := word_of_nat (?p + unat c)],
      ms_dat := (ms_dat s)[?p mod unat c := ms_dat s ! (?p mod unat c)]\<rparr>)"
    using st pc w d(1) sl by (simp add: prod_step_def)
  moreover have "?p < Rn s + unat c" using d(5) by simp
  ultimately show ?thesis
    by (intro touch_inv [OF i t h, where k' = 2 and P = "PCopy w x" and s' = s'
          and a = "word_of_nat (?p + unat c)" and b = "ms_dat s ! (?p mod unat c)"]) auto
qed

lemma copy_step_inv:
  assumes i: "mpsc_inv c n s" and z: "sizes_ok c n" and t: "t < n"
    and pc: "ms_prod s t = PCopy w x" and st: "prod_step c t s = Some s'"
  shows "mpsc_inv c n s'"
proof -
  let ?p = "ms_ppos s t"
  have h: "hold s t = Some (w, x, 2)" using pc by simp
  note d = inv_prodD [OF i t h]
  have "(ms_seq s)[?p mod unat c := word_of_nat (?p + unat c)] = ms_seq s"
    using d(5,6) by (simp add: list_update_same_conv flip: of_nat_add) (metis list_update_id)
  then have "s' = set_prod t (PMark w x) (s\<lparr>ms_seq := (ms_seq s)[?p mod unat c := word_of_nat (?p + unat c)],
      ms_dat := (ms_dat s)[?p mod unat c := x]\<rparr>)"
    using st pc d(1) slot_of_word [OF z, of ?p] by (simp add: prod_step_def)
  moreover have "?p < Rn s + unat c" using d(5) by simp
  ultimately show ?thesis
    by (intro touch_inv [OF i t h, where k' = 3 and P = "PMark w x" and s' = s'
          and a = "word_of_nat (?p + unat c)" and b = x]) auto
qed

lemma prod_inv:
  assumes i: "mpsc_inv c n s" and z: "sizes_ok c n" and t: "t < n" and al: "rollback_alone t s"
    and st: "prod_step c t s = Some s'"
  shows "mpsc_inv c n s'"
proof (cases "ms_prod s t")
  case (PStart x)
  then show ?thesis using st take_inv [OF i t] by (auto simp: prod_step_def)
next
  case (PLoad w x)
  then have h: "hold s t = Some (w, x, 0)" by simp
  note d = inv_prodD [OF i t h] and i' = i [unfolded mpsc_inv_def]
  have "Wn s < Rn s + 2 ^ 32" using i' z positions_near by blast
  then have "unat (w - ms_rpos s) = ms_ppos s t - Rn s"
    using d(1,2,3) i' word_dist [of "Rn s" "ms_ppos s t"] by (simp add: inv_pos_def)
  then have "c \<le> w - ms_rpos s \<longleftrightarrow> Rn s + unat c \<le> ms_ppos s t" using d(2) by (auto simp: word_le_nat_alt)
  then show ?thesis
    using st PLoad admit_inv [OF i t h] inv_same_hold [OF i, of "(ms_prod s)(t := PFull w x)"]
    by (auto simp: prod_step_def set_prod_def split: if_splits)
next
  case (PMark w x)
  then have h: "hold s t = Some (w, x, 3)" by simp
  then show ?thesis
    using st PMark publish_inv [OF i t h, of s' SILOG_OK] inv_prodD(1) [OF i t h] slot_of_word [OF z, of "ms_ppos s t"]
    by (simp add: prod_step_def)
qed (use st full_step_inv [OF i z t al _ st] claim_step_inv [OF i z t _ st] copy_step_inv [OF i z t _ st]
  in \<open>simp_all add: prod_step_def\<close>)

lemma calm_inv: "mpsc_calm c n s \<Longrightarrow> sizes_ok c n \<Longrightarrow> mpsc_inv c n s"
proof (induction rule: mpsc_calm.induct)
  case (start dat)
  then show ?case by (simp add: start_inv)
next
  case (call s t x s')
  then show ?case using call_inv [of c n s t x s'] by simp
next
  case (prod s t s')
  then show ?case using prod_inv [of c n s t s'] by simp
next
  case (consume s)
  then show ?case using cons_inv by blast
qed

text \<open>With a single producer every roll-back is alone, so every interleaving is calm.\<close>

lemma single_producer_last: "mpsc_reach c 1 s \<Longrightarrow> hold s 0 \<noteq> None \<longrightarrow> Wn s = Suc (ms_ppos s 0)"
proof (induction rule: mpsc_reach.induct)
  case (start dat)
  then show ?case by (simp add: mpsc_start_def)
next
  case (call s t x s')
  then show ?case by (auto simp: prod_call_def set_prod_def split: producer.splits)
next
  case (prod s t s')
  then show ?case
    by (cases "ms_prod s t") (auto simp: prod_step_def set_prod_def split: if_splits)
next
  case (consume s)
  then show ?case by (auto simp: cons_step_def split: consumer.splits)
qed

lemma single_producer_calm: "mpsc_reach c 1 s \<Longrightarrow> sizes_ok c 1 \<Longrightarrow> mpsc_calm c 1 s"
proof (induction rule: mpsc_reach.induct)
  case (start dat)
  then show ?case by (intro mpsc_calm.start)
next
  case (call s t x s')
  then show ?case using mpsc_calm.call [of c 1 s t x s'] by simp
next
  case (prod s t s')
  have i: "mpsc_inv c 1 s" using prod.IH prod.prems calm_inv by blast
  have "rollback_alone t s"
  proof (cases "ms_prod s t")
    case (PFull w x)
    then have h: "hold s t = Some (w, x, 0)" by simp
    have "Wn s = Suc (ms_ppos s t)" using single_producer_last [OF prod.hyps(1)] prod.hyps(2) h by simp
    then show ?thesis
      using PFull inv_prodD(1) [OF i prod.hyps(2) h] i
      by (simp add: rollback_alone_def mpsc_inv_def inv_pos_def ac_simps)
  qed (simp_all add: rollback_alone_def)
  then show ?case using prod mpsc_calm.prod [of c 1 s t s'] by simp
next
  case (consume s)
  then show ?case using mpsc_calm.consume [of c 1 s] by simp
qed

lemma run_reach:
  "run c ts s = Some s' \<Longrightarrow> mpsc_reach c n s \<Longrightarrow>
   (\<forall>t x. Call t x \<in> set ts \<longrightarrow> t < n) \<Longrightarrow> (\<forall>t. Prod t \<in> set ts \<longrightarrow> t < n) \<Longrightarrow> mpsc_reach c n s'"
proof (induction c ts s rule: run.induct)
  case (2 c t x ts s)
  then obtain s1 where "prod_call t x s = Some s1" "run c ts s1 = Some s'" by (auto simp: bind_eq_Some_conv)
  then show ?case using 2 mpsc_reach.call [of c n s t x s1] by auto
next
  case (3 c t ts s)
  then obtain s1 where "prod_step c t s = Some s1" "run c ts s1 = Some s'" by (auto simp: bind_eq_Some_conv)
  then show ?case using 3 mpsc_reach.prod [of c n s t s1] by auto
next
  case (4 c ts s)
  then show ?case using mpsc_reach.consume [of c n s] by auto
qed simp

text \<open>
  What the invariant says of the order: the elements popped are the first ones of those taken in,
  in their order; and when no producer is between two accesses, the next pop returns the oldest
  element that is left.
\<close>

lemma quiet_pop:
  assumes i: "mpsc_inv c n s" and z: "sizes_ok c n" and q: "\<forall>t < n. holding (ms_prod s t) = None"
    and k: "ms_cons s = CIdle" and ne: "Rn s < Wn s"
  shows "ms_out ((cons_step c ^^ 5) s) = ms_out s @ [ms_hist s ! Rn s] \<and>
    ms_last ((cons_step c ^^ 5) s) = SILOG_OK"
proof -
  note i' = i [unfolded mpsc_inv_def]
  have r: "ms_rpos s = word_of_nat (Rn s)" using i' by (simp add: inv_pos_def)
  have sl: "slot_of c (word_of_nat (Rn s)) = Rn s mod unat c" using slot_of_word [OF z] .
  have "unheld n s (Rn s)" using q by (simp add: unheld_def)
  moreover have "0 < unat c" using z by (simp add: sizes_ok_def)
  ultimately have m: "ms_seq s ! (Rn s mod unat c) = word_of_nat (Rn s) + 1"
      "ms_dat s ! (Rn s mod unat c) = ms_hist s ! Rn s"
    using i' k ne by (auto simp: inv_ready_def released_def ac_simps)
  then show ?thesis
    using r sl k by (simp add: eval_nat_numeral cons_step_def)
qed

lemma claim_succeeds:
  assumes "mpsc_inv c n s" and "sizes_ok c n" and "t < n" and "ms_prod s t = PClaim w x"
  shows "ms_seq s ! slot_of c w = w"
proof -
  have h: "hold s t = Some (w, x, 1)" using assms(4) by simp
  from inv_prodD [OF assms(1,3) h] show ?thesis using slot_of_word [OF assms(2)] by simp
qed

text \<open>The threads that may touch the contents of a slot.\<close>

definition touches :: "u32 \<Rightarrow> 'e producer \<Rightarrow> nat option" where
  "touches c p = (case p of PCopy w x \<Rightarrow> Some (slot_of c w) | PMark w x \<Rightarrow> Some (slot_of c w) | _ \<Rightarrow> None)"

lemma touches_hold:
  assumes "mpsc_inv c n s" and "sizes_ok c n" and "t < n" and "touches c (ms_prod s t) = Some j"
  shows "hold s t \<noteq> None \<and> Rn s \<le> ms_ppos s t \<and> ms_ppos s t < Rn s + unat c \<and> ms_ppos s t mod unat c = j"
proof -
  obtain w x k where h: "hold s t = Some (w, x, k)" "0 < k" "j = slot_of c w"
    using assms(4) by (auto simp: touches_def split: producer.splits)
  from inv_prodD [OF assms(1,3) h(1)] h show ?thesis using slot_of_word [OF assms(2)] by auto
qed

lemma producers_exclusive:
  assumes "mpsc_inv c n s" and "sizes_ok c n" and "t < n" and "t' < n"
    and "touches c (ms_prod s t) = Some j" and "touches c (ms_prod s t') = Some j"
  shows "t = t'"
  using touches_hold [OF assms(1,2,3,5)] touches_hold [OF assms(1,2,4,6)]
    other_held(1) [OF assms(1), of t t'] assms(3,4) window_inject by metis

lemma consumer_exclusive:
  assumes "mpsc_inv c n s" and "sizes_ok c n" and "t < n" and "ms_cons s = CCopy r"
  shows "touches c (ms_prod s t) \<noteq> Some (slot_of c r)"
proof
  assume a: "touches c (ms_prod s t) = Some (slot_of c r)"
  have r: "r = word_of_nat (Rn s)" "unheld n s (Rn s)" "Rn s < Rn s + unat c"
    using assms by (simp_all add: mpsc_inv_def inv_cons_def inv_pos_def sizes_ok_def)
  note h = touches_hold [OF assms(1-3) a]
  have "ms_ppos s t mod unat c = Rn s mod unat c" using h slot_of_word [OF assms(2)] r(1) by simp
  then have "ms_ppos s t = Rn s" using h r(3) window_inject by blast
  then show False using h r(2) assms(3) by (auto simp: unheld_def)
qed

text \<open>
  A schedule with two producers: two pushes fill the ring, a third by thread 0 stops before its
  roll-back, the consumer pops both elements, thread 1 pushes, thread 0 rolls back and calls push
  again, and the consumer polls once.
\<close>

definition push_turns :: "nat \<Rightarrow> int \<Rightarrow> int turn list" where
  "push_turns t x = [Call t x, Prod t, Prod t, Prod t, Prod t, Prod t]"

definition wedge_schedule :: "int turn list" where
  "wedge_schedule = push_turns 0 10 @ push_turns 0 11 @ [Call 0 12, Prod 0, Prod 0] @
     replicate 10 Consume @ push_turns 1 13 @ [Prod 0, Call 0 14, Prod 0, Prod 0, Consume, Consume]"

section \<open>Properties\<close>

text \<open>
  C7. First in, first out under concurrency: in every interleaving of any number of producers with
  the consumer in which roll-backs are alone, with a capacity of at least two, the elements popped so
  far are the first elements taken into the queue, in the order of their positions; and whenever no
  push is in progress and elements are left, the next pop succeeds and returns the oldest one.
\<close>

theorem mpsc_calm_fifo:
  assumes "mpsc_calm c n s" and "sizes_ok c n"
  shows "ms_out s = take (length (ms_out s)) (ms_hist s) \<and>
    ((\<forall>t < n. holding (ms_prod s t) = None) \<and> ms_cons s = CIdle \<and>
       length (ms_out s) < length (ms_hist s) \<longrightarrow>
     ms_out ((cons_step c ^^ 5) s) = ms_out s @ [ms_hist s ! length (ms_out s)] \<and>
     ms_last ((cons_step c ^^ 5) s) = SILOG_OK)"
proof -
  have i: "mpsc_inv c n s" using calm_inv [OF assms] .
  then have "ms_out s = take (length (ms_out s)) (ms_hist s)" by (simp add: mpsc_inv_def inv_pos_def)
  then show ?thesis using quiet_pop [OF i assms(2)] by blast
qed

theorem mpsc_calm_fifo_witness:
  "mpsc_calm 2 3 (mpsc_start 2 [0, 0 :: nat]) \<and> sizes_ok 2 3 \<and>
   ms_out (mpsc_start 2 [0, 0 :: nat]) = take 0 (ms_hist (mpsc_start 2 [0, 0 :: nat]))"
proof -
  have "mpsc_calm 2 3 (mpsc_start 2 [0, 0 :: nat])" by (rule mpsc_calm.start) simp
  moreover have "sizes_ok 2 3" by (auto simp: sizes_ok_def intro: exI [of _ 1])
  ultimately show ?thesis using mpsc_calm_fifo [of 2 3 "mpsc_start 2 [0, 0 :: nat]"]
    by (simp add: mpsc_start_def)
qed

text \<open>
  C8. No data race and no spinning: in the same interleavings no two producers are between the
  exchange and the ready mark of one slot, no producer is there while the consumer copies that slot
  out, and the compare-and-exchange of a push always finds the expected mark, so its loop ends at
  once and its \<open>should not happen\<close> exit is never taken.
\<close>

theorem mpsc_calm_exclusive:
  assumes "mpsc_calm c n s" and "sizes_ok c n" and "t < n" and "t' < n"
  shows "(touches c (ms_prod s t) \<noteq> None \<and> touches c (ms_prod s t) = touches c (ms_prod s t') \<longrightarrow> t = t') \<and>
    (ms_cons s = CCopy r \<longrightarrow> touches c (ms_prod s t) \<noteq> Some (slot_of c r)) \<and>
    (ms_prod s t = PClaim w x \<longrightarrow> ms_seq s ! slot_of c w = w)"
proof -
  have i: "mpsc_inv c n s" using calm_inv [OF assms(1,2)] .
  have "t = t'" if "touches c (ms_prod s t) \<noteq> None" "touches c (ms_prod s t) = touches c (ms_prod s t')"
    using producers_exclusive [OF i assms(2-4)] that by (metis not_None_eq)
  then show ?thesis
    using consumer_exclusive [OF i assms(2,3)] claim_succeeds [OF i assms(2,3)] by blast
qed

theorem mpsc_calm_exclusive_witness:
  "ms_seq (mpsc_start 2 [0, 0 :: nat]\<lparr>ms_prod := (\<lambda>t. PIdle)(0 := PClaim 0 7), ms_wpos := 1,
     ms_hist := [7]\<rparr>) ! slot_of 2 0 = 0"
proof -
  let ?s0 = "mpsc_start 2 [0, 0 :: nat]"
  let ?s1 = "set_prod 0 (PStart 7) ?s0"
  let ?s2 = "set_prod 0 (PLoad 0 7) (?s1\<lparr>ms_wpos := 1, ms_hist := [7], ms_ppos := \<lambda>t. 0\<rparr>)"
  let ?s3 = "set_prod 0 (PClaim 0 7) ?s2"
  have z: "sizes_ok 2 2" by (auto simp: sizes_ok_def intro: exI [of _ 1])
  have "mpsc_calm 2 2 ?s0" by (rule mpsc_calm.start) simp
  then have "mpsc_calm 2 2 ?s1"
    by (rule mpsc_calm.call [of _ _ _ 0 7]) (simp_all add: prod_call_def mpsc_start_def)
  then have "mpsc_calm 2 2 ?s2"
    by (rule mpsc_calm.prod [of _ _ _ 0])
      (simp_all add: rollback_alone_def prod_step_def set_prod_def mpsc_start_def fun_upd_def)
  then have "mpsc_calm 2 2 ?s3"
    by (rule mpsc_calm.prod [of _ _ _ 0])
      (simp_all add: rollback_alone_def prod_step_def set_prod_def mpsc_start_def)
  from mpsc_calm_exclusive [OF this z, of 0 0 _ 0 7] show ?thesis
    by (simp add: set_prod_def mpsc_start_def)
qed

text \<open>
  C6. One producer and one consumer, as in the daemon (receive thread and write thread) and in the
  compression queue: in every interleaving whatsoever, full queue and roll-backs included, the
  elements popped are the first ones taken in, in order, the producer never spins, and producer and
  consumer never touch a slot at the same time.
\<close>

theorem mpsc_single_producer:
  assumes "mpsc_reach c 1 s" and "sizes_ok c 1"
  shows "ms_out s = take (length (ms_out s)) (ms_hist s) \<and>
    (ms_cons s = CCopy r \<longrightarrow> touches c (ms_prod s 0) \<noteq> Some (slot_of c r)) \<and>
    (ms_prod s 0 = PClaim w x \<longrightarrow> ms_seq s ! slot_of c w = w)"
proof -
  have i: "mpsc_inv c 1 s" using calm_inv [OF single_producer_calm [OF assms] assms(2)] .
  then have "ms_out s = take (length (ms_out s)) (ms_hist s)" by (simp add: mpsc_inv_def inv_pos_def)
  then show ?thesis
    using consumer_exclusive [OF i assms(2), of 0] claim_succeeds [OF i assms(2), of 0] by auto
qed

theorem mpsc_single_producer_witness:
  "\<exists>s. run 2 [Call 0 7, Prod 0, Prod 0, Prod 0, Prod 0, Prod 0, Consume, Consume, Consume, Consume, Consume]
     (mpsc_start 2 [0, 0 :: nat]) = Some s \<and> ms_out s = [7] \<and> ms_out s = take 1 (ms_hist s)"
proof -
  let ?ts = "[Call 0 7, Prod 0, Prod 0, Prod 0, Prod 0, Prod 0, Consume, Consume, Consume, Consume, Consume]"
  obtain s where s: "run 2 ?ts (mpsc_start 2 [0, 0 :: nat]) = Some s" "ms_out s = [7]"
    by (simp add: prod_call_def prod_step_def cons_step_def set_prod_def mpsc_start_def slot_of_def)
  have "mpsc_reach 2 1 (mpsc_start 2 [0, 0 :: nat])" by (rule mpsc_reach.start) simp
  then have "mpsc_reach 2 1 s" by (rule run_reach [OF s(1)]) auto
  moreover have "sizes_ok 2 1" by (auto simp: sizes_ok_def intro: exI [of _ 1])
  ultimately show ?thesis using mpsc_single_producer [of 2 s] s by auto
qed

text \<open>
  C9. With two producers a roll-back that is not alone wedges the queue for good. Thread 0 finds the
  queue full and is delayed; the consumer empties the queue; thread 1 takes the next position and its
  push returns \<open>SILOG_OK\<close>; thread 0 then rolls back, which leaves a position that nobody will fill.
  From there thread 0's next push spins for ever, every pop reports an empty queue, and the element
  of thread 1 is never delivered.
\<close>

theorem mpsc_rollback_wedges:
  "\<exists>s. mpsc_reach 2 2 s \<and> ms_prod s 1 = PDone SILOG_OK \<and> ms_out s = [10, 11] \<and>
     ms_last s = SILOG_TRANS_QUEUE_EMPTY \<and> (\<exists>w x. ms_prod s 0 = PClaim w (x::int)) \<and>
     prod_step 2 0 s = Some s \<and> prod_step 2 1 s = None \<and> (cons_step 2 ^^ 2) s = s"
proof -
  have "map_option (\<lambda>s. (ms_prod s 0, ms_prod s 1, ms_seq s, ms_rpos s, ms_cons s, ms_last s, ms_out s))
      (run 2 wedge_schedule (mpsc_start 2 [0, 0])) =
    Some (PClaim 3 14, PDone SILOG_OK, [2, 4], 2, CIdle, SILOG_TRANS_QUEUE_EMPTY, [10, 11])"
    by code_simp
  then obtain s where s: "run 2 wedge_schedule (mpsc_start 2 [0, 0]) = Some s"
      "ms_prod s 0 = PClaim 3 14" "ms_prod s 1 = PDone SILOG_OK" "ms_seq s = [2, 4]" "ms_rpos s = 2"
      "ms_cons s = CIdle" "ms_last s = SILOG_TRANS_QUEUE_EMPTY" "ms_out s = [10, 11]"
    by auto
  have "mpsc_reach 2 2 (mpsc_start 2 [0, 0 :: int])" by (rule mpsc_reach.start) simp
  then have "mpsc_reach 2 2 s" by (rule run_reach [OF s(1)]) (auto simp: wedge_schedule_def push_turns_def)
  moreover have "prod_step 2 0 s = Some s" "prod_step 2 1 s = None"
    using s by (simp_all add: prod_step_def slot_of_def)
  moreover have "(cons_step 2 ^^ 2) s = s"
    using s by (simp add: numeral_2_eq_2 cons_step_def slot_of_def)
  ultimately show ?thesis using s by blast
qed

text \<open>
  With capacity 1, which \<open>SilogMpscQueueInit\<close> accepts, the mark of a claimed slot and the mark of
  a ready slot are the same number: the consumer takes a slot that its producer has claimed but not
  yet written, and returns bytes that were never pushed.
\<close>

lemma mpsc_capacity_one_torn:
  "map_option (\<lambda>s. (ms_hist s, ms_out s, ms_last s))
     (run 1 [Call 0 7, Prod 0, Prod 0, Prod 0, Consume, Consume, Consume, Consume, Consume]
        (mpsc_start 1 [99 :: nat])) = Some ([7], [99], SILOG_OK)"
  by (simp add: prod_call_def prod_step_def cons_step_def set_prod_def mpsc_start_def slot_of_def)

end
