(* ===== verification/Silog_Codec.thy ===== *)
theory Silog_Codec
  imports Silog_CMem
begin

text \<open>
  The log entry (\<open>silog_logger.h\<close>) and its network format (\<open>SilogRemoteSerializeEntry\<close> and
  \<open>SilogRemoteDeserializeEntry\<close> of \<open>silog_remote.c\<close>): integers in big-endian order, then the three
  fixed-length character arrays, 377 bytes in all. \<open>pid_t\<close> is a signed 32-bit integer, kept as a
  32-bit word whose cast to 64 bits extends the sign; the level is the value of the C enumeration.
\<close>

section \<open>Log entries\<close>

record logEntry_t =
  le_ts :: u64
  le_pid :: u32
  le_tid :: u32
  le_level :: u32
  le_tag :: "byte list"
  le_file :: "byte list"
  le_line :: u32
  le_msg :: "byte list"
  le_msgLen :: u16
  le_enabled :: byte

abbreviation (input) SILOG_TAG_MAX_LEN :: nat where "SILOG_TAG_MAX_LEN \<equiv> 32"
abbreviation (input) SILOG_FILE_MAX_LEN :: nat where "SILOG_FILE_MAX_LEN \<equiv> 64"
abbreviation (input) SILOG_MSG_MAX_LEN :: nat where "SILOG_MSG_MAX_LEN \<equiv> 256"
abbreviation (input) SILOG_REMOTE_ENTRY_SIZE :: nat where "SILOG_REMOTE_ENTRY_SIZE \<equiv> 377"

text \<open>The values the enumeration \<open>silogLevel\<close> gives its constants.\<close>

definition SILOG_DEBUG :: u32 where "SILOG_DEBUG = 0"
definition SILOG_INFO :: u32 where "SILOG_INFO = 1"
definition SILOG_WARN :: u32 where "SILOG_WARN = 2"
definition SILOG_ERROR :: u32 where "SILOG_ERROR = 3"
definition SILOG_FATAL :: u32 where "SILOG_FATAL = 4"

text \<open>The arrays have their declared lengths.\<close>

definition entry_shape :: "logEntry_t \<Rightarrow> bool" where
  "entry_shape e \<longleftrightarrow> length (le_tag e) = SILOG_TAG_MAX_LEN \<and> length (le_file e) = SILOG_FILE_MAX_LEN \<and>
     length (le_msg e) = SILOG_MSG_MAX_LEN"

text \<open>
  A proper entry: besides, the three strings are terminated at the last byte at the latest and the
  level is that of an enumeration constant.
\<close>

definition entry_ok :: "logEntry_t \<Rightarrow> bool" where
  "entry_ok e \<longleftrightarrow> entry_shape e \<and> le_tag e ! 31 = 0 \<and> le_file e ! 63 = 0 \<and> le_msg e ! 255 = 0 \<and>
     le_level e \<le> SILOG_FATAL"

section \<open>Serialisation\<close>

text \<open>\<open>(uint8_t)((v >> k) & 0xFF)\<close>\<close>

definition octet :: "nat \<Rightarrow> 'a::len word \<Rightarrow> byte" where
  "octet k v = ucast (drop_bit k v AND 0xFF)"

definition be64 :: "u64 \<Rightarrow> byte list" where
  "be64 v = [octet 56 v, octet 48 v, octet 40 v, octet 32 v, octet 24 v, octet 16 v, octet 8 v, octet 0 v]"

definition be32 :: "u32 \<Rightarrow> byte list" where
  "be32 v = [octet 24 v, octet 16 v, octet 8 v, octet 0 v]"

definition entry_bytes :: "logEntry_t \<Rightarrow> byte list" where
  "entry_bytes e = be64 (le_ts e) @ be64 (scast (le_pid e)) @ be32 (le_tid e) @ [ucast (le_level e)] @
     be32 (le_line e) @ le_tag e @ le_file e @ le_msg e"

text \<open>
  \<open>buf\<close> is the caller's block and \<open>bufSize\<close> the size it passes, \<open>outLen\<close> the value of
  \<open>*outLen\<close>; the block and \<open>*outLen\<close> are returned.
\<close>

definition SilogRemoteSerializeEntry ::
  "logEntry_t \<Rightarrow> byte list option \<Rightarrow> nat \<Rightarrow> nat option \<Rightarrow> (byte list option \<times> nat option) c_result" where
  "SilogRemoteSerializeEntry entry buf bufSize outLen =
     (case (buf, outLen) of
        (Some b, Some _) \<Rightarrow>
          if bufSize < SILOG_REMOTE_ENTRY_SIZE then Some (buf, outLen)
          else do {
            b' \<leftarrow> store b 0 (entry_bytes entry);
            Some (Some b', Some SILOG_REMOTE_ENTRY_SIZE)
          }
      | _ \<Rightarrow> Some (buf, outLen))"

section \<open>Deserialisation\<close>

text \<open>The time stamp, with the shifts as the code has them.\<close>

definition de_ts :: "byte list \<Rightarrow> u64" where
  "de_ts b = push_bit 56 (ucast (b ! 0)) OR drop_bit 8 (push_bit 56 (ucast (b ! 1))) OR
     push_bit 48 (ucast (b ! 2)) OR drop_bit 8 (push_bit 48 (ucast (b ! 3))) OR
     push_bit 40 (ucast (b ! 4)) OR drop_bit 8 (push_bit 40 (ucast (b ! 5))) OR
     push_bit 32 (ucast (b ! 6)) OR ucast (b ! 7)"

definition de64 :: "byte list \<Rightarrow> u64" where
  "de64 b = push_bit 56 (ucast (b ! 0)) OR push_bit 48 (ucast (b ! 1)) OR
     push_bit 40 (ucast (b ! 2)) OR push_bit 32 (ucast (b ! 3)) OR
     push_bit 24 (ucast (b ! 4)) OR push_bit 16 (ucast (b ! 5)) OR
     push_bit 8 (ucast (b ! 6)) OR ucast (b ! 7)"

definition de32 :: "byte list \<Rightarrow> u32" where
  "de32 b = push_bit 24 (ucast (b ! 0)) OR push_bit 16 (ucast (b ! 1)) OR
     push_bit 8 (ucast (b ! 2)) OR ucast (b ! 3)"

text \<open>
  The shift of a byte into the sign bit of the \<open>int32_t\<close> line number has the result that the
  compilers define, the bit pattern of the unsigned shift. The three copies are those of
  \<open>memcpy_s\<close> into arrays of exactly the copied length.
\<close>

definition SilogRemoteDeserializeEntry ::
  "byte list option \<Rightarrow> nat \<Rightarrow> logEntry_t option \<Rightarrow> (ErrorCode \<times> logEntry_t option) c_result" where
  "SilogRemoteDeserializeEntry buf bufSize entry =
     (case (buf, entry) of
        (Some b, Some e) \<Rightarrow>
          if bufSize < SILOG_REMOTE_ENTRY_SIZE then Some (SILOG_INVALID_ARG, entry)
          else do {
            bs \<leftarrow> load b 0 SILOG_REMOTE_ENTRY_SIZE;
            let ts = de_ts (seg 0 8 bs);
            let pid = de64 (seg 8 8 bs);
            let tid = de32 (seg 16 4 bs);
            let level = ucast (bs ! 20);
            let line = de32 (seg 21 4 bs);
            let tag = (seg 25 32 bs)[31 := 0];
            let file = (seg 57 64 bs)[63 := 0];
            let msg = (seg 121 256 bs)[255 := 0];
            Some (SILOG_OK, Some (e\<lparr>le_ts := ts, le_pid := ucast pid, le_tid := tid, le_level := level,
              le_line := line, le_tag := tag, le_file := file, le_msg := msg,
              le_msgLen := word_of_nat (length (cstr msg)), le_enabled := 1\<rparr>))
          }
      | _ \<Rightarrow> Some (SILOG_NULL_PTR, entry))"

section \<open>Bits of the integers\<close>

lemma bit_octet: "bit (octet k v) n \<longleftrightarrow> n < 8 \<and> bit v (k + n)"
  for v :: "'a::len word"
proof -
  have "octet k v = ucast (drop_bit k v AND mask 8)" by (simp add: octet_def mask_eq_exp_minus_1)
  then show ?thesis by (auto simp: bit_simps dest: bit_imp_le_length)
qed

text \<open>Byte \<open>j\<close> of a word, moved to position \<open>k\<close>.\<close>

lemma bit_push_octet:
  fixes v :: "'a::len word"
  shows "bit (push_bit k (ucast (octet j v) :: 'a word)) n \<longleftrightarrow>
    k \<le> n \<and> n < k + 8 \<and> n < LENGTH('a) \<and> bit v (j + (n - k))"
  by (auto simp: bit_simps bit_octet)

lemma bit_ucast_octet:
  fixes v :: "'a::len word"
  shows "bit (ucast (octet j v) :: 'a word) n \<longleftrightarrow> n < 8 \<and> n < LENGTH('a) \<and> bit v (j + n)"
  by (auto simp: bit_simps bit_octet)

lemma bit_push_own_octet:
  fixes v :: "'a::len word"
  shows "bit (push_bit k (ucast (octet k v) :: 'a word)) n \<longleftrightarrow> k \<le> n \<and> n < k + 8 \<and> bit v n"
  by (auto simp: bit_push_octet dest: bit_imp_le_length)

lemma bit_own_octet:
  fixes v :: "'a::len word"
  shows "bit (ucast (octet 0 v) :: 'a word) n \<longleftrightarrow> n < 8 \<and> bit v n"
  by (auto simp: bit_ucast_octet dest: bit_imp_le_length)

lemma de64_be64: "de64 (be64 v) = v"
proof (rule bit_word_eqI)
  fix n assume "n < LENGTH(64)"
  then have n: "n < 64" by simp
  have "bit (de64 (be64 v)) n \<longleftrightarrow> bit v n \<and> ((56 \<le> n \<and> n < 64) \<or> (48 \<le> n \<and> n < 56) \<or> (40 \<le> n \<and> n < 48) \<or>
      (32 \<le> n \<and> n < 40) \<or> (24 \<le> n \<and> n < 32) \<or> (16 \<le> n \<and> n < 24) \<or> (8 \<le> n \<and> n < 16) \<or> n < 8)"
    by (simp add: de64_def be64_def bit_or_iff bit_push_own_octet bit_own_octet) blast
  then show "bit (de64 (be64 v)) n \<longleftrightarrow> bit v n" using n by linarith
qed

lemma de32_be32: "de32 (be32 v) = v"
proof (rule bit_word_eqI)
  fix n assume "n < LENGTH(32)"
  then have n: "n < 32" by simp
  have "bit (de32 (be32 v)) n \<longleftrightarrow> bit v n \<and> ((24 \<le> n \<and> n < 32) \<or> (16 \<le> n \<and> n < 24) \<or> (8 \<le> n \<and> n < 16) \<or> n < 8)"
    by (simp add: de32_def be32_def bit_or_iff bit_push_own_octet bit_own_octet) blast
  then show "bit (de32 (be32 v)) n \<longleftrightarrow> bit v n" using n by linarith
qed

text \<open>The other direction: a byte of a word that was put together from bytes.\<close>

lemma octet_same: "j + 8 \<le> LENGTH('a::len) \<Longrightarrow> octet j (push_bit j (ucast (x :: byte)) :: 'a word) = x"
  by (rule bit_word_eqI) (auto simp: bit_octet bit_simps dest: bit_imp_le_length)

lemma octet_other: "j + 8 \<le> k \<or> k + 8 \<le> j \<Longrightarrow> octet j (push_bit k (ucast (x :: byte)) :: 'a::len word) = 0"
  by (rule bit_word_eqI) (auto simp: bit_octet bit_simps dest: bit_imp_le_length)

lemma octet_or: "octet j (v OR w) = octet j v OR octet j w"
  for v :: "'a::len word"
  by (rule bit_word_eqI) (auto simp: bit_octet bit_or_iff)

lemma octet_same0: "8 \<le> LENGTH('a::len) \<Longrightarrow> octet 0 (ucast (x :: byte) :: 'a word) = x"
  using octet_same [of 0 x] by simp

lemma octet_other0: "8 \<le> j \<Longrightarrow> octet j (ucast (x :: byte) :: 'a::len word) = 0"
  using octet_other [where j = j and k = 0 and 'a = 'a and x = x] by simp

lemmas octet_simps = octet_or octet_same octet_other octet_same0 octet_other0

lemma list4: "length b = 4 \<Longrightarrow> b = [b ! 0, b ! 1, b ! 2, b ! 3]"
  by (rule nth_equalityI) (auto simp: less_Suc_eq numeral_eq_Suc)

lemma list8: "length b = 8 \<Longrightarrow> b = [b ! 0, b ! 1, b ! 2, b ! 3, b ! 4, b ! 5, b ! 6, b ! 7]"
  by (rule nth_equalityI) (auto simp: less_Suc_eq numeral_eq_Suc)

lemma be32_de32: "length b = 4 \<Longrightarrow> be32 (de32 b) = b"
  by (subst (3) list4, assumption) (simp add: be32_def de32_def octet_simps)

lemma be64_de64: "length b = 8 \<Longrightarrow> be64 (de64 b) = b"
  by (subst (3) list8, assumption) (simp add: be64_def de64_def octet_simps)

section \<open>Round trip\<close>

lemma length_entry_bytes: "entry_shape e \<Longrightarrow> length (entry_bytes e) = SILOG_REMOTE_ENTRY_SIZE"
  by (simp add: entry_bytes_def entry_shape_def be64_def be32_def)

lemma seg_whole: "a + n \<le> length b \<Longrightarrow> seg a n b @ seg (a + n) k b = seg a (n + k) b"
  by (simp add: seg_def take_add add.commute [of n a])

lemma seg_append_left: "n \<le> length xs \<Longrightarrow> a + n \<le> length xs \<Longrightarrow> seg a n (xs @ ys) = seg a n xs"
  by (simp add: seg_def)

lemma seg_append_right: "length xs \<le> a \<Longrightarrow> seg a n (xs @ ys) = seg (a - length xs) n ys"
  by (simp add: seg_def)

lemma seg_append_all: "n = length xs \<Longrightarrow> seg 0 n (xs @ ys) = xs"
  by (simp add: seg_def)

lemma entry_fields:
  assumes "entry_shape e"
  shows "seg 0 8 (entry_bytes e) = be64 (le_ts e)" "seg 8 8 (entry_bytes e) = be64 (scast (le_pid e))"
    "seg 16 4 (entry_bytes e) = be32 (le_tid e)" "entry_bytes e ! 20 = ucast (le_level e)"
    "seg 21 4 (entry_bytes e) = be32 (le_line e)" "seg 25 32 (entry_bytes e) = le_tag e"
    "seg 57 64 (entry_bytes e) = le_file e" "seg 121 256 (entry_bytes e) = le_msg e"
proof -
  have l: "length (be64 v) = 8" "length (be32 w) = 4" for v w by (simp_all add: be64_def be32_def)
  note s = entry_bytes_def seg_append_right seg_append_all l
  show "seg 0 8 (entry_bytes e) = be64 (le_ts e)" by (simp add: s)
  show "seg 8 8 (entry_bytes e) = be64 (scast (le_pid e))" by (simp add: s)
  show "seg 16 4 (entry_bytes e) = be32 (le_tid e)" by (simp add: s)
  show "entry_bytes e ! 20 = ucast (le_level e)" by (simp add: entry_bytes_def nth_append l)
  show "seg 21 4 (entry_bytes e) = be32 (le_line e)"
    by (simp add: s) (simp add: seg_def l)
  show "seg 25 32 (entry_bytes e) = le_tag e"
    using assms by (simp add: s entry_shape_def) (simp add: seg_def l)
  show "seg 57 64 (entry_bytes e) = le_file e"
    using assms by (simp add: s entry_shape_def) (simp add: seg_def l)
  show "seg 121 256 (entry_bytes e) = le_msg e"
    using assms by (simp add: s entry_shape_def) (simp add: seg_def l)
qed

lemma pid_round_trip: "ucast (scast (p::u32) :: u64) = p"
  by (rule bit_word_eqI) (simp add: bit_simps)

lemma level_round_trip: "l \<le> SILOG_FATAL \<Longrightarrow> ucast (ucast (l::u32) :: byte) = l"
proof -
  assume "l \<le> SILOG_FATAL"
  then have "unat l \<le> 4" by (simp add: word_le_nat_alt SILOG_FATAL_def)
  then have "unat (ucast (ucast l :: byte) :: u32) = unat l" by (simp add: unsigned_ucast_eq take_bit_eq_mod unat_mod_distrib)
  then show ?thesis by (rule word_unat_eq_iff [THEN iffD2])
qed

text \<open>What the reader makes of an entry: everything but the time stamp survives.\<close>

definition received :: "logEntry_t \<Rightarrow> logEntry_t" where
  "received e = e\<lparr>le_ts := de_ts (be64 (le_ts e)), le_msgLen := word_of_nat (length (cstr (le_msg e))),
     le_enabled := 1\<rparr>"

lemma deserialize_bytes:
  assumes "entry_ok e"
  shows "SilogRemoteDeserializeEntry (Some (entry_bytes e)) 377 (Some e0) = Some (SILOG_OK, Some (received e))"
proof -
  have sh: "entry_shape e" using assms by (simp add: entry_ok_def)
  have ld: "load (entry_bytes e) 0 377 = Some (entry_bytes e)"
    using length_entry_bytes [OF sh] by (simp add: load_def seg_def)
  have upd: "(le_tag e)[31 := 0] = le_tag e" "(le_file e)[63 := 0] = le_file e" "(le_msg e)[255 := 0] = le_msg e"
    using assms by (auto simp: entry_ok_def list_update_same_conv entry_shape_def)
  have lev: "ucast (ucast (le_level e) :: byte) = le_level e"
    using assms level_round_trip by (simp add: entry_ok_def)
  show ?thesis
    by (simp add: SilogRemoteDeserializeEntry_def ld Let_def entry_fields [OF sh] upd de32_be32 de64_be64
        pid_round_trip lev received_def)
qed

lemma serialize_bytes:
  assumes "entry_shape e" and "377 \<le> length buf"
  shows "SilogRemoteSerializeEntry e (Some buf) (length buf) (Some l) =
    Some (Some (overwrite 0 (entry_bytes e) buf), Some 377)"
  using assms length_entry_bytes [OF assms(1)] by (simp add: SilogRemoteSerializeEntry_def store_eq)

lemma bit_de_ts:
  "bit (de_ts (be64 v)) n \<longleftrightarrow>
     (56 \<le> n \<and> n < 64 \<and> bit v n) \<or> (48 \<le> n \<and> n < 56 \<and> (bit v n \<or> bit v (n - 8))) \<or>
     (40 \<le> n \<and> n < 48 \<and> (bit v (n - 8) \<or> bit v (n - 16))) \<or>
     (32 \<le> n \<and> n < 40 \<and> (bit v (n - 16) \<or> bit v (n - 24))) \<or> (n < 8 \<and> bit v n)"
  for v :: u64
proof -
  have sh: "bit (drop_bit 8 (push_bit (k + 8) (ucast (octet j v) :: u64))) n \<longleftrightarrow>
      k \<le> n \<and> n < k + 8 \<and> n < 56 \<and> bit v (j + (n - k))" for k j
    by (auto simp: bit_drop_bit_eq bit_push_octet)
  have eq: "bit (de_ts (be64 v)) n \<longleftrightarrow>
      (56 \<le> n \<and> n < 64 \<and> bit v n) \<or> (48 \<le> n \<and> n < 56 \<and> bit v n) \<or>
      (48 \<le> n \<and> n < 56 \<and> bit v (40 + (n - 48))) \<or> (40 \<le> n \<and> n < 48 \<and> bit v (32 + (n - 40))) \<or>
      (40 \<le> n \<and> n < 48 \<and> bit v (24 + (n - 40))) \<or> (32 \<le> n \<and> n < 40 \<and> bit v (16 + (n - 32))) \<or>
      (32 \<le> n \<and> n < 40 \<and> bit v (8 + (n - 32))) \<or> (n < 8 \<and> bit v n)"
    using sh [of 48 48] sh [of 40 32] sh [of 32 16]
    by (simp add: de_ts_def be64_def bit_or_iff bit_push_octet bit_push_own_octet bit_own_octet)
      (cases "n < 64"; cases "56 \<le> n"; cases "48 \<le> n"; cases "40 \<le> n"; cases "32 \<le> n"; simp)
  consider "n < 8" | "8 \<le> n" "n < 32" | "32 \<le> n" "n < 40" | "40 \<le> n" "n < 48"
    | "48 \<le> n" "n < 56" | "56 \<le> n" by linarith
  then show ?thesis unfolding eq by cases simp_all
qed

lemma ts_mask_zero:
  "v AND 0x0000FFFFFFFFFF00 = 0 \<longleftrightarrow> (\<forall>n. 8 \<le> n \<and> n < 48 \<longrightarrow> \<not> bit v n)" for v :: u64
proof -
  have m: "(0x0000FFFFFFFFFF00 :: u64) = push_bit 8 (mask 40)" by (simp add: mask_eq_exp_minus_1)
  have b: "bit (0x0000FFFFFFFFFF00 :: u64) n \<longleftrightarrow> 8 \<le> n \<and> n < 48" for n
    unfolding m by (auto simp: bit_push_bit_iff bit_mask_iff)
  have c: "bit (v AND 0x0000FFFFFFFFFF00) n \<longleftrightarrow> bit v n \<and> 8 \<le> n \<and> n < 48" for n
    by (simp only: bit_and_iff b)
  show ?thesis
  proof
    assume "v AND 0x0000FFFFFFFFFF00 = 0"
    then show "\<forall>n. 8 \<le> n \<and> n < 48 \<longrightarrow> \<not> bit v n" using c by (metis bit_0_eq bot_apply bot_bool_def)
  next
    assume "\<forall>n. 8 \<le> n \<and> n < 48 \<longrightarrow> \<not> bit v n"
    then have "bit (v AND 0x0000FFFFFFFFFF00) n \<longleftrightarrow> bit (0::u64) n" for n
      using c [of n] by (metis bit_0_eq bot_apply bot_bool_def)
    then show "v AND 0x0000FFFFFFFFFF00 = 0" by (intro bit_word_eqI) blast
  qed
qed

lemma ts_received_iff: "de_ts (be64 v) = v \<longleftrightarrow> v AND 0x0000FFFFFFFFFF00 = 0"
proof
  assume eq: "de_ts (be64 v) = v"
  have b: "bit v n \<longleftrightarrow> bit (de_ts (be64 v)) n" for n by (simp add: eq)
  have low: "\<not> bit v n" if "8 \<le> n" "n < 32" for n using that b [of n, unfolded bit_de_ts] by auto
  have mid: "\<not> bit v n" if "32 \<le> n" "n < 40" for n
    using that b [of n, unfolded bit_de_ts] low [of "n - 16"] low [of "n - 24"] by auto
  have top: "\<not> bit v n" if "40 \<le> n" "n < 48" for n
    using that b [of n, unfolded bit_de_ts] mid [of "n - 8"] low [of "n - 16"] by auto
  show "v AND 0x0000FFFFFFFFFF00 = 0"
    unfolding ts_mask_zero using low mid top by (meson not_le)
next
  assume "v AND 0x0000FFFFFFFFFF00 = 0"
  then have z: "\<not> bit v n" if "8 \<le> n" "n < 48" for n using that by (simp add: ts_mask_zero)
  show "de_ts (be64 v) = v"
  proof (rule bit_word_eqI)
    fix n assume "n < LENGTH(64)"
    then have n: "n < 64" by simp
    consider "n < 8" | "8 \<le> n" "n < 32" | "32 \<le> n" "n < 40" | "40 \<le> n" "n < 48"
      | "48 \<le> n" "n < 56" | "56 \<le> n" by linarith
    then show "bit (de_ts (be64 v)) n \<longleftrightarrow> bit v n"
      unfolding bit_de_ts using n z [of n] z [of "n - 8"] z [of "n - 16"] z [of "n - 24"]
      by cases simp_all
  qed
qed


text \<open>An entry with an empty tag, an empty file name and an empty message.\<close>

definition blank_entry :: "u64 \<Rightarrow> logEntry_t" where
  "blank_entry ts = \<lparr>le_ts = ts, le_pid = 0xFFFFFFFE, le_tid = 7, le_level = SILOG_WARN, le_tag = replicate 32 0,
     le_file = replicate 64 0, le_line = 42, le_msg = replicate 256 0, le_msgLen = 0, le_enabled = 1\<rparr>"

lemma blank_entry_ok: "entry_ok (blank_entry ts)"
  by (simp add: entry_ok_def entry_shape_def blank_entry_def SILOG_WARN_def SILOG_FATAL_def)

text \<open>Any 377 bytes give an entry whose strings are terminated.\<close>

lemma DeserializeEntry_shape:
  assumes "377 \<le> length w" and "entry_shape e"
  shows "\<exists>e'. SilogRemoteDeserializeEntry (Some w) (length w) (Some e) = Some (SILOG_OK, Some e') \<and> entry_shape e' \<and>
    le_tag e' ! 31 = 0 \<and> le_file e' ! 63 = 0 \<and> le_msg e' ! 255 = 0 \<and> unat (le_msgLen e') = length (cstr (le_msg e'))"
proof -
  have "length (cstr x) < 2 ^ 16" if "length x = 256" for x :: "byte list"
    using that length_takeWhile_le [of "\<lambda>b. b \<noteq> 0" x] by (simp add: cstr_def)
  then show ?thesis
    using assms by (simp add: SilogRemoteDeserializeEntry_def load_eq entry_shape_def seg_def unat_of_nat Let_def take_bit_nat_eq_self)
qed
section \<open>Properties\<close>



text \<open>
  C28. The time stamp survives the wire exactly when its five middle bytes are zero: the reader
  shifts bytes 2 to 6 to the wrong places.
\<close>

theorem SilogRemote_ts_roundtrip_iff:
  "le_ts (received e) = le_ts e \<longleftrightarrow> le_ts e AND 0x0000FFFFFFFFFF00 = 0"
  using ts_received_iff by (simp add: received_def)

text \<open>
  What \<open>SilogRemoteDeserializeEntry\<close> accepts: it returns \<open>SILOG_OK\<close> exactly on two non-NULL
  arguments and a size of at least 377, and whatever the bytes were, the entry it fills has arrays of
  the declared lengths that are terminated strings, with \<open>msgLen\<close> the length of the message, below
  256; on an error the entry is unchanged.
\<close>

lemma SilogRemoteDeserializeEntry_total:
  assumes "\<forall>b. buf = Some b \<longrightarrow> bufSize \<le> length b"
  shows "\<exists>r e'. SilogRemoteDeserializeEntry buf bufSize entry = Some (r, e') \<and>
    (r = SILOG_OK \<longleftrightarrow> buf \<noteq> None \<and> entry \<noteq> None \<and> 377 \<le> bufSize) \<and>
    (r \<noteq> SILOG_OK \<longrightarrow> e' = entry) \<and>
    (r = SILOG_OK \<longrightarrow> (\<exists>x. e' = Some x \<and> entry_shape x \<and> le_tag x ! 31 = 0 \<and> le_file x ! 63 = 0 \<and>
       le_msg x ! 255 = 0 \<and> unat (le_msgLen x) = length (cstr (le_msg x)) \<and> length (cstr (le_msg x)) < 256))"
proof (cases "\<exists>b e. buf = Some b \<and> entry = Some e \<and> 377 \<le> bufSize")
  case False
  then show ?thesis
    by (cases buf; cases entry) (auto simp: SilogRemoteDeserializeEntry_def)
next
  case True
  then obtain b e where be: "buf = Some b" "entry = Some e" "377 \<le> bufSize" by blast
  then have len: "377 \<le> length b" using assms by auto
  have short: "length (cstr bs) < 256" if "length bs = 256" "bs ! 255 = 0" for bs :: "byte list"
  proof (rule ccontr)
    assume "\<not> length (cstr bs) < 256"
    then have "length (cstr bs) = length bs" using that(1) length_cstr_le [of bs] by simp
    then have "cstr bs = bs" using take_length_cstr [of bs] by simp
    moreover have "bs ! 255 \<in> set bs" using that(1) by (intro nth_mem) simp
    ultimately show False using zero_notin_cstr [of bs] that(2) by simp
  qed
  have small: "unat (word_of_nat n :: u16) = n" if "n < 256" for n
    using that by (intro of_nat_inverse) simp_all
  show ?thesis
    using be len
    by (auto simp: SilogRemoteDeserializeEntry_def load_def Let_def entry_shape_def intro!: short small)
qed

end
