(* ===== verification/Silog_Remote_Server.thy ===== *)
theory Silog_Remote_Server
  imports Silog_Codec
begin

text \<open>
  The TCP service that pushes log entries to remote viewers (\<open>silog_remote.c\<close>, server part). The
  global \<open>g_silogRemoteMgr\<close> is a record that each function takes and returns; \<open>rm_fds\<close> is the part of
  the process's descriptor table that the service owns, so that a descriptor that is never closed is
  visible. The functions hold the mutex around every access to the client table except during a
  \<open>send\<close>, so each of them is one step here. System calls are arguments that give their results;
  what is left out are the diagnostics and the formatting of peer addresses for them.
\<close>

section \<open>State\<close>

type_synonym sockaddr_in = "u32 \<times> u16"

record SilogRemoteClient =
  cl_fd :: int
  cl_addr :: sockaddr_in
  cl_active :: bool

record SilogRemoteManager =
  rm_isInit :: bool
  rm_listenFd :: int
  rm_listenPort :: u16
  rm_maxClients :: u32
  rm_clients :: "SilogRemoteClient list option"
  rm_clientCount :: u32
  rm_fds :: "int set"

record SilogRemoteConfig_t =
  cf_listenPort :: u16
  cf_maxClients :: u32
  cf_enableAuth :: bool

definition g_silogRemoteMgr :: SilogRemoteManager where
  "g_silogRemoteMgr = \<lparr>rm_isInit = False, rm_listenFd = -1, rm_listenPort = 9090, rm_maxClients = 10,
     rm_clients = None, rm_clientCount = 0, rm_fds = {}\<rparr>"

abbreviation (input) free_client :: SilogRemoteClient where
  "free_client \<equiv> \<lparr>cl_fd = -1, cl_addr = (0, 0), cl_active = False\<rparr>"

definition c_close :: "int \<Rightarrow> SilogRemoteManager \<Rightarrow> SilogRemoteManager" where
  "c_close fd m = m\<lparr>rm_fds := rm_fds m - {fd}\<rparr>"

section \<open>Operations\<close>

definition SilogRemoteSetNonblock :: "(int \<Rightarrow> fcntl_cmd \<Rightarrow> int) \<Rightarrow> int \<Rightarrow> ErrorCode" where
  "SilogRemoteSetNonblock fcntl fd =
     (let flags = fcntl fd F_GETFL
      in if flags < 0 then SILOG_NET_FILE_ERROR
         else if fcntl fd (F_SETFL (flags OR 2048)) < 0 then SILOG_NET_FILE_ERROR
         else SILOG_OK)"

text \<open>The index found is cast to \<open>int32_t\<close>.\<close>

function find_free_loop :: "SilogRemoteClient list \<Rightarrow> nat \<Rightarrow> nat \<Rightarrow> int c_result" where
  "find_free_loop cs n i =
     (if i < n then
        if i < length cs then
          if \<not> cl_active (cs ! i) then Some (sint (word_of_nat i :: u32)) else find_free_loop cs n (Suc i)
        else None
      else Some (-1))"
  by pat_completeness auto
termination
  by (relation "measure (\<lambda>(cs, n, i). n - i)") auto

declare find_free_loop.simps [simp del]

definition SilogRemoteFindFreeSlot :: "SilogRemoteManager \<Rightarrow> int c_result" where
  "SilogRemoteFindFreeSlot m = do { cs \<leftarrow> rm_clients m; find_free_loop cs (unat (rm_maxClients m)) 0 }"

definition SilogRemoteCloseClientInternal :: "nat \<Rightarrow> SilogRemoteManager \<Rightarrow> SilogRemoteManager c_result" where
  "SilogRemoteCloseClientInternal idx m =
     (if unat (rm_maxClients m) \<le> idx then Some m
      else do {
        cs \<leftarrow> rm_clients m;
        if idx < length cs then
          let client = cs ! idx;
              m1 = (if cl_active client \<and> cl_fd client \<ge> 0 then c_close (cl_fd client) m else m);
              m2 = (if cl_active client \<and> rm_clientCount m1 > 0
                    then m1\<lparr>rm_clientCount := rm_clientCount m1 - 1\<rparr> else m1)
          in Some (m2\<lparr>rm_clients := Some (cs[idx := free_client])\<rparr>)
        else None
      })"

text \<open>The version that takes the mutex first.\<close>

definition SilogRemoteCloseClientLocked :: "nat \<Rightarrow> SilogRemoteManager \<Rightarrow> SilogRemoteManager c_result" where
  "SilogRemoteCloseClientLocked idx m = SilogRemoteCloseClientInternal idx m"

definition SilogRemoteInit ::
  "(nat \<Rightarrow> byte list option) \<Rightarrow> int \<Rightarrow> int \<Rightarrow> int \<Rightarrow> (int \<Rightarrow> fcntl_cmd \<Rightarrow> int) \<Rightarrow>
   SilogRemoteConfig_t option \<Rightarrow> SilogRemoteManager \<Rightarrow> ErrorCode \<times> SilogRemoteManager" where
  "SilogRemoteInit malloc sock bind_result listen_result fcntl config m =
     (if rm_isInit m then (SILOG_OK, m)
      else
        let m1 = (case config of
              Some c \<Rightarrow> m\<lparr>rm_listenPort := (if cf_listenPort c = 0 then 9090 else cf_listenPort c),
                rm_maxClients := (if cf_maxClients c = 0 then 10 else cf_maxClients c)\<rparr>
            | None \<Rightarrow> m\<lparr>rm_listenPort := 9090, rm_maxClients := 10\<rparr>)
        in if malloc (24 * unat (rm_maxClients m1)) = None
           then (SILOG_OUT_OF_MEMORY, m1\<lparr>rm_clients := None\<rparr>)
           else
             let m2 = m1\<lparr>rm_clients := Some (replicate (unat (rm_maxClients m1)) free_client),
                   rm_clientCount := 0, rm_listenFd := sock\<rparr>
             in if sock < 0 then (SILOG_NET_FILE_CREATE, m2\<lparr>rm_clients := None\<rparr>)
                else
                  let m3 = m2\<lparr>rm_fds := insert sock (rm_fds m2)\<rparr>;
                      undo = (c_close sock m3)\<lparr>rm_listenFd := -1, rm_clients := None\<rparr>
                  in if bind_result < 0 then (SILOG_NET_FILE_OPEN, undo)
                     else if listen_result < 0 then (SILOG_NET_FILE_ERROR, undo)
                     else let ret = SilogRemoteSetNonblock fcntl sock
                          in if ret \<noteq> SILOG_OK then (ret, undo)
                             else (SILOG_OK, m3\<lparr>rm_isInit := True\<rparr>))"

definition SilogRemoteDeinit :: "SilogRemoteManager \<Rightarrow> SilogRemoteManager c_result" where
  "SilogRemoteDeinit m =
     (if \<not> rm_isInit m then Some m
      else do {
        m1 \<leftarrow> c_for [0..<unat (rm_maxClients m)] SilogRemoteCloseClientInternal m;
        let m2 = (if rm_listenFd m1 \<ge> 0 then (c_close (rm_listenFd m1) m1)\<lparr>rm_listenFd := -1\<rparr> else m1);
        Some (m2\<lparr>rm_clients := None, rm_clientCount := 0, rm_isInit := False\<rparr>)
      })"

datatype accept_result = Accepted int sockaddr_in | AcceptAgain | AcceptFail

definition SilogRemoteAccept ::
  "accept_result \<Rightarrow> (int \<Rightarrow> fcntl_cmd \<Rightarrow> int) \<Rightarrow> SilogRemoteManager \<Rightarrow>
   (ErrorCode \<times> SilogRemoteManager) c_result" where
  "SilogRemoteAccept accept fcntl m =
     (if \<not> rm_isInit m then Some (SILOG_NET_FILE_ERROR, m)
      else (case accept of
          AcceptAgain \<Rightarrow> Some (SILOG_NET_TIMEOUT, m)
        | AcceptFail \<Rightarrow> Some (SILOG_NET_FILE_ERROR, m)
        | Accepted clientFd clientAddr \<Rightarrow>
            let m1 = m\<lparr>rm_fds := insert clientFd (rm_fds m)\<rparr>
            in if rm_clientCount m1 \<ge> rm_maxClients m1 then Some (SILOG_NET_FILE_ERROR, c_close clientFd m1)
               else do {
                 slot \<leftarrow> SilogRemoteFindFreeSlot m1;
                 if slot < 0 then Some (SILOG_NET_FILE_ERROR, c_close clientFd m1)
                 else
                   let ret = SilogRemoteSetNonblock fcntl clientFd
                   in if ret \<noteq> SILOG_OK then Some (ret, c_close clientFd m1)
                      else do {
                        cs \<leftarrow> rm_clients m1;
                        if nat slot < length cs then
                          Some (SILOG_OK, m1\<lparr>rm_clients := Some (cs[nat slot :=
                              \<lparr>cl_fd = clientFd, cl_addr = clientAddr, cl_active = True\<rparr>]),
                            rm_clientCount := rm_clientCount m1 + 1\<rparr>)
                        else None
                      }
               }))"

text \<open>
  The loop of \<open>SilogRemoteSendFull\<close>: \<open>send k n\<close> is the outcome of the \<open>k\<close>-th call, for \<open>n\<close> bytes;
  the result is the code and the number of bytes that went out.
\<close>

datatype send_result = Sent nat | SendAgain | SendFail

function send_loop :: "(nat \<Rightarrow> nat \<Rightarrow> send_result) \<Rightarrow> nat \<Rightarrow> nat \<Rightarrow> nat \<Rightarrow> ErrorCode \<times> nat" where
  "send_loop send len k sent =
     (if sent < len then
        (case send k (len - sent) of
           SendAgain \<Rightarrow> (SILOG_NET_TIMEOUT, sent)
         | SendFail \<Rightarrow> (SILOG_NET_FILE_ERROR, sent)
         | Sent n \<Rightarrow> if n = 0 then (SILOG_NET_FILE_ERROR, sent) else send_loop send len (Suc k) (sent + n))
      else (SILOG_OK, sent))"
  by pat_completeness auto
termination
  by (relation "measure (\<lambda>(send, len, k, sent). len - sent)") auto

declare send_loop.simps [simp del]

definition SilogRemoteSendFull :: "(nat \<Rightarrow> nat \<Rightarrow> send_result) \<Rightarrow> byte list \<Rightarrow> ErrorCode \<times> byte list" where
  "SilogRemoteSendFull send buf =
     (case send_loop send (length buf) 0 0 of (r, sent) \<Rightarrow> (r, take sent buf))"

text \<open>
  \<open>SilogRemoteBroadcast\<close>: the state of the loop is the manager, the number of clients that got the
  entry and what was sent to which descriptor.
\<close>

definition broadcast_client ::
  "(int \<Rightarrow> nat \<Rightarrow> nat \<Rightarrow> send_result) \<Rightarrow> byte list \<Rightarrow> nat \<Rightarrow>
   SilogRemoteManager \<times> nat \<times> (int \<times> byte list) list \<Rightarrow>
   (SilogRemoteManager \<times> nat \<times> (int \<times> byte list) list) c_result" where
  "broadcast_client send buf i = (\<lambda>(m, n, wire). do {
     cs \<leftarrow> rm_clients m;
     if i < length cs then
       if \<not> cl_active (cs ! i) \<or> cl_fd (cs ! i) < 0 then Some (m, n, wire)
       else (case SilogRemoteSendFull (send (cl_fd (cs ! i))) buf of (ret, out) \<Rightarrow>
         let wire' = wire @ [(cl_fd (cs ! i), out)]
         in if ret = SILOG_OK then Some (m, Suc n, wire')
            else if ret = SILOG_NET_TIMEOUT then Some (m, n, wire')
            else do { m' \<leftarrow> SilogRemoteCloseClientInternal i m; Some (m', n, wire') })
     else None
   })"

definition SilogRemoteBroadcast ::
  "(int \<Rightarrow> nat \<Rightarrow> nat \<Rightarrow> send_result) \<Rightarrow> logEntry_t option \<Rightarrow> nat option \<Rightarrow> SilogRemoteManager \<Rightarrow>
   (ErrorCode \<times> nat option \<times> (int \<times> byte list) list \<times> SilogRemoteManager) c_result" where
  "SilogRemoteBroadcast send entry sentCount m =
     (let zero = map_option (\<lambda>_. 0) sentCount
      in if \<not> rm_isInit m then Some (SILOG_TRANS_NOT_INIT, zero, [], m)
         else (case entry of
             None \<Rightarrow> Some (SILOG_NULL_PTR, zero, [], m)
           | Some e \<Rightarrow>
               if rm_clientCount m = 0 then Some (SILOG_OK, zero, [], m)
               else do {
                 (buf, bufLen) \<leftarrow> SilogRemoteSerializeEntry e (Some (replicate 377 0)) 377 (Some 0);
                 b \<leftarrow> buf; len \<leftarrow> bufLen;
                 if len = 0 then Some (SILOG_INVALID_ARG, zero, [], m)
                 else do {
                   (m', n, wire) \<leftarrow> c_for [0..<unat (rm_maxClients m)]
                     (broadcast_client send (take len b)) (m, 0, []);
                   Some (SILOG_OK, map_option (\<lambda>_. n) sentCount, wire, m')
                 }
               }))"

definition SilogRemoteGetClientCount :: "SilogRemoteManager \<Rightarrow> u32" where
  "SilogRemoteGetClientCount m = (if rm_isInit m then rm_clientCount m else 0)"

definition SilogRemoteIsInit :: "SilogRemoteManager \<Rightarrow> bool" where
  "SilogRemoteIsInit m = rm_isInit m"

section \<open>The invariant of the client table\<close>

definition active_fds :: "SilogRemoteClient list \<Rightarrow> int list" where
  "active_fds cs = map cl_fd (filter cl_active cs)"

text \<open>
  A running service: the table has the configured size, the counter counts the active clients, a
  free slot has no descriptor, and the descriptors the service owns are exactly the listening socket
  and those of the active clients, each used once. A service that is not running owns nothing.
\<close>

definition table_ok :: "SilogRemoteManager \<Rightarrow> SilogRemoteClient list \<Rightarrow> bool" where
  "table_ok m cs \<longleftrightarrow> length cs = unat (rm_maxClients m) \<and> unat (rm_maxClients m) < 2 ^ 31 \<and>
     unat (rm_clientCount m) = length (active_fds cs) \<and>
     (\<forall>c \<in> set cs. (cl_active c \<longrightarrow> 0 \<le> cl_fd c) \<and> (\<not> cl_active c \<longrightarrow> cl_fd c = -1)) \<and>
     0 \<le> rm_listenFd m \<and> distinct (rm_listenFd m # active_fds cs) \<and>
     rm_fds m = set (rm_listenFd m # active_fds cs)"

definition remote_ok :: "SilogRemoteManager \<Rightarrow> bool" where
  "remote_ok m \<longleftrightarrow> (if rm_isInit m then (case rm_clients m of None \<Rightarrow> False | Some cs \<Rightarrow> table_ok m cs)
     else rm_clients m = None \<and> rm_fds m = {} \<and> rm_clientCount m = 0)"

lemma remote_okE:
  assumes "remote_ok m" and "rm_isInit m"
  obtains cs where "rm_clients m = Some cs" "table_ok m cs"
  using assms by (auto simp: remote_ok_def split: option.splits)

lemma active_fds_free:
  assumes "i < length cs" and "\<not> cl_active (cs ! i)" and "cl_active c"
  shows "mset (active_fds (cs[i := c])) = add_mset (cl_fd c) (mset (active_fds cs))"
proof -
  have "cs = take i cs @ cs ! i # drop (Suc i) cs" using assms(1) by (rule id_take_nth_drop)
  then have "active_fds cs = active_fds (take i cs) @ active_fds (drop (Suc i) cs)"
    using assms(2) unfolding active_fds_def by (metis filter.simps(2) filter_append map_append)
  moreover have "active_fds (cs[i := c]) = active_fds (take i cs) @ cl_fd c # active_fds (drop (Suc i) cs)"
    using assms(1,3) by (simp add: active_fds_def upd_conv_take_nth_drop)
  ultimately show ?thesis by simp
qed

lemma active_fds_used:
  assumes "i < length cs" and "cl_active (cs ! i)" and "\<not> cl_active c"
  shows "mset (active_fds cs) = add_mset (cl_fd (cs ! i)) (mset (active_fds (cs[i := c])))"
proof -
  have "mset (active_fds ((cs[i := c])[i := cs ! i])) = add_mset (cl_fd (cs ! i)) (mset (active_fds (cs[i := c])))"
    using assms by (intro active_fds_free) auto
  then show ?thesis using assms(1) by simp
qed

lemma active_fds_same:
  assumes "i < length cs" and "\<not> cl_active (cs ! i)" and "\<not> cl_active c"
  shows "active_fds (cs[i := c]) = active_fds cs"
proof -
  have "cs = take i cs @ cs ! i # drop (Suc i) cs" using assms(1) by (rule id_take_nth_drop)
  then have "active_fds cs = active_fds (take i cs) @ active_fds (drop (Suc i) cs)"
    using assms(2) unfolding active_fds_def by (metis filter.simps(2) filter_append map_append)
  then show ?thesis using assms(1,3) by (simp add: active_fds_def upd_conv_take_nth_drop)
qed

lemma distinct_mset_eq: "mset xs = add_mset x (mset ys) \<Longrightarrow> distinct (z # xs) \<longleftrightarrow> distinct (z # x # ys)"
  by (metis mset.simps(2) distinct.simps(2) mset_eq_imp_distinct_iff set_mset_mset)

lemma set_mset_list: "mset xs = add_mset x (mset ys) \<Longrightarrow> set xs = insert x (set ys)"
  by (metis mset.simps(2) set_mset_mset list.simps(15))

text \<open>Closing a client frees its slot and its descriptor and nothing else.\<close>

lemma close_client_ok:
  assumes ok: "table_ok m cs" and cl: "rm_clients m = Some cs" and i: "i < length cs"
  shows "\<exists>m'. SilogRemoteCloseClientInternal i m = Some m' \<and> rm_clients m' = Some (cs[i := free_client]) \<and>
    table_ok m' (cs[i := free_client]) \<and> rm_isInit m' = rm_isInit m \<and> rm_maxClients m' = rm_maxClients m \<and>
    rm_listenFd m' = rm_listenFd m \<and>
    rm_fds m' = (if cl_active (cs ! i) then rm_fds m - {cl_fd (cs ! i)} else rm_fds m)"
proof -
  let ?c = "cs ! i" and ?cs = "cs[i := free_client]"
  have mem: "?c \<in> set cs" using i by simp
  have fdok: "cl_active ?c \<Longrightarrow> 0 \<le> cl_fd ?c" using ok mem by (simp add: table_ok_def)
  have i': "\<not> unat (rm_maxClients m) \<le> i" using ok i by (simp add: table_ok_def)
  have all: "\<forall>c \<in> set ?cs. (cl_active c \<longrightarrow> 0 \<le> cl_fd c) \<and> (\<not> cl_active c \<longrightarrow> cl_fd c = -1)"
    using ok set_update_subset_insert [of cs i free_client] by (auto simp: table_ok_def)
  show ?thesis
  proof (cases "cl_active ?c")
    case True
    have ms: "mset (active_fds cs) = add_mset (cl_fd ?c) (mset (active_fds ?cs))"
      using active_fds_used [OF i True, of free_client] by simp
    have len: "length (active_fds cs) = Suc (length (active_fds ?cs))" using mset_eq_length [of _ "_ # _"] ms
      by (metis mset.simps(2) length_Cons)
    have pos: "0 < rm_clientCount m" using ok len by (simp add: table_ok_def word_less_nat_alt)
    let ?m = "(c_close (cl_fd ?c) m)\<lparr>rm_clientCount := rm_clientCount m - 1, rm_clients := Some ?cs\<rparr>"
    have "SilogRemoteCloseClientInternal i m = Some ?m"
      using i' cl i True fdok pos by (simp add: SilogRemoteCloseClientInternal_def Let_def c_close_def)
    moreover have "table_ok ?m ?cs"
    proof -
      have d: "distinct (rm_listenFd m # cl_fd ?c # active_fds ?cs)"
        using ok distinct_mset_eq [OF ms] unfolding table_ok_def by blast
      have "rm_fds m = insert (rm_listenFd m) (insert (cl_fd ?c) (set (active_fds ?cs)))"
        using ok set_mset_list [OF ms] by (simp add: table_ok_def)
      then have "rm_fds m - {cl_fd ?c} = set (rm_listenFd m # active_fds ?cs)" using d by auto
      then show ?thesis
        using ok all d len unat_sub_one [OF pos] by (simp add: table_ok_def c_close_def)
    qed
    ultimately show ?thesis using True by (auto simp: c_close_def)
  next
    case False
    let ?m = "m\<lparr>rm_clients := Some ?cs\<rparr>"
    have "SilogRemoteCloseClientInternal i m = Some ?m"
      using i' cl i False by (simp add: SilogRemoteCloseClientInternal_def Let_def)
    moreover have "table_ok ?m ?cs"
      using ok all active_fds_same [OF i False, of free_client] by (simp add: table_ok_def)
    ultimately show ?thesis using False by auto
  qed
qed

lemma find_free_loop_eq:
  assumes "n = length cs" and "n < 2 ^ 31"
  shows "find_free_loop cs n i =
    Some (case find (\<lambda>j. \<not> cl_active (cs ! j)) [i..<n] of None \<Rightarrow> -1 | Some j \<Rightarrow> int j)"
proof (induction "n - i" arbitrary: i)
  case 0
  then show ?case by (simp add: find_free_loop.simps [of cs n i])
next
  case (Suc d)
  then have i: "i < n" and IH: "find_free_loop cs n (Suc i) =
      Some (case find (\<lambda>j. \<not> cl_active (cs ! j)) [Suc i..<n] of None \<Rightarrow> -1 | Some j \<Rightarrow> int j)"
    by simp_all
  have "sint (word_of_nat i :: u32) = int i"
    using i assms(2) by (simp add: signed_of_nat signed_take_bit_int_eq_self)
  then show ?case
    using i IH unfolding assms(1) by (simp add: find_free_loop.simps [of cs "length cs" i] upt_conv_Cons)
qed

lemma free_slot_exists:
  assumes "length (active_fds cs) < length cs"
  obtains j where "find (\<lambda>j. \<not> cl_active (cs ! j)) [0..<length cs] = Some j" "j < length cs" "\<not> cl_active (cs ! j)"
proof -
  have "filter cl_active cs \<noteq> cs" using assms by (auto simp: active_fds_def)
  then obtain c where "c \<in> set cs" "\<not> cl_active c" by (metis filter_id_conv)
  then have "find (\<lambda>j. \<not> cl_active (cs ! j)) [0..<length cs] \<noteq> None"
    by (auto simp: find_None_iff in_set_conv_nth)
  then obtain j where j: "find (\<lambda>j. \<not> cl_active (cs ! j)) [0..<length cs] = Some j" by blast
  moreover from j have "j < length cs" "\<not> cl_active (cs ! j)" by (auto simp: find_Some_iff)
  ultimately show thesis by (rule that)
qed

lemma deinit_ok:
  assumes ok: "remote_ok m"
  shows "\<exists>m'. SilogRemoteDeinit m = Some m' \<and> remote_ok m' \<and> \<not> rm_isInit m' \<and> rm_fds m' = {} \<and>
    (rm_isInit m \<longrightarrow> rm_clients m' = None \<and> rm_maxClients m' = rm_maxClients m)"
proof (cases "rm_isInit m")
  case False
  then show ?thesis using ok by (simp add: SilogRemoteDeinit_def remote_ok_def)
next
  case True
  then obtain cs where cs: "rm_clients m = Some cs" "table_ok m cs" using ok by (elim remote_okE)
  let ?P = "\<lambda>i m'. \<exists>cs'. rm_clients m' = Some cs' \<and> table_ok m' cs' \<and> length cs' = length cs \<and>
    (\<forall>j < i. \<not> cl_active (cs' ! j)) \<and> rm_maxClients m' = rm_maxClients m"
  have "\<exists>m'. c_for [0..<unat (rm_maxClients m)] SilogRemoteCloseClientInternal m = Some m' \<and>
      ?P (unat (rm_maxClients m)) m'"
  proof (rule c_for_invariant)
    show "?P 0 m" using cs by auto
  next
    fix i s assume i: "i < unat (rm_maxClients m)" and "?P i s"
    then obtain cs' where s: "rm_clients s = Some cs'" "table_ok s cs'" "length cs' = length cs"
      "\<forall>j < i. \<not> cl_active (cs' ! j)" "rm_maxClients s = rm_maxClients m" by blast
    have il: "i < length cs'" using i s(3) cs(2) by (simp add: table_ok_def)
    from close_client_ok [OF s(2,1) il] obtain s' where s': "SilogRemoteCloseClientInternal i s = Some s'"
      "rm_clients s' = Some (cs'[i := free_client])" "table_ok s' (cs'[i := free_client])"
      "rm_maxClients s' = rm_maxClients s" by blast
    have "\<forall>j < Suc i. \<not> cl_active (cs'[i := free_client] ! j)"
      using s(4) il by (simp add: less_Suc_eq nth_list_update)
    then have "?P (Suc i) s'" using s' s(3,5) by simp
    then show "\<exists>s'. SilogRemoteCloseClientInternal i s = Some s' \<and> ?P (Suc i) s'" using s'(1) by blast
  qed
  then obtain m1 where fr: "c_for [0..<unat (rm_maxClients m)] SilogRemoteCloseClientInternal m = Some m1"
    and P: "?P (unat (rm_maxClients m)) m1" by blast
  from P fr obtain cs1 where m1: "c_for [0..<unat (rm_maxClients m)] SilogRemoteCloseClientInternal m = Some m1"
    "rm_clients m1 = Some cs1" "table_ok m1 cs1" "length cs1 = length cs"
    "\<forall>j < unat (rm_maxClients m). \<not> cl_active (cs1 ! j)" "rm_maxClients m1 = rm_maxClients m"
    by blast
  have "length cs1 = unat (rm_maxClients m)" using m1(4) cs(2) by (simp add: table_ok_def)
  then have "\<not> cl_active c" if "c \<in> set cs1" for c
    using that m1(5) unfolding in_set_conv_nth by metis
  then have "filter cl_active cs1 = []" by (simp add: filter_empty_conv)
  then have "rm_fds m1 = {rm_listenFd m1}" "0 \<le> rm_listenFd m1"
    using m1(3) by (simp_all add: table_ok_def active_fds_def)
  then show ?thesis
    using m1(1,6) True by (simp add: SilogRemoteDeinit_def Let_def remote_ok_def c_close_def)
qed

lemma init_ok:
  assumes ok: "remote_ok m"
    and cfg: "\<forall>c. config = Some c \<longrightarrow> unat (cf_maxClients c) < 2 ^ 31"
    and r: "SilogRemoteInit malloc sock b l fcntl config m = (r, m')"
  shows "remote_ok m' \<and> (r = SILOG_OK \<longleftrightarrow> rm_isInit m')"
proof (cases "rm_isInit m")
  case True
  then show ?thesis using ok r by (auto simp: SilogRemoteInit_def)
next
  case False
  have z: "rm_clients m = None" "rm_fds m = {}" "rm_clientCount m = 0"
    using ok False by (simp_all add: remote_ok_def)
  have act: "active_fds (replicate n free_client) = []" for n by (simp add: active_fds_def)
  show ?thesis
    using r False z cfg
    by (auto simp: SilogRemoteInit_def Let_def remote_ok_def table_ok_def c_close_def act
        SilogRemoteSetNonblock_def split: if_splits option.splits)
qed

text \<open>Putting a new descriptor into a free slot.\<close>

lemma table_add:
  assumes ok: "table_ok m cs" and room: "rm_clientCount m < rm_maxClients m" and j: "j < length cs" "\<not> cl_active (cs ! j)"
    and fd: "0 \<le> fd" "fd \<notin> rm_fds m"
  shows "table_ok (m\<lparr>rm_fds := insert fd (rm_fds m),
      rm_clients := Some (cs[j := \<lparr>cl_fd = fd, cl_addr = ad, cl_active = True\<rparr>]), rm_clientCount := rm_clientCount m + 1\<rparr>)
    (cs[j := \<lparr>cl_fd = fd, cl_addr = ad, cl_active = True\<rparr>])"
proof -
  let ?c = "\<lparr>cl_fd = fd, cl_addr = ad, cl_active = True\<rparr>"
  let ?cs = "cs[j := ?c]"
  have ms: "mset (active_fds ?cs) = add_mset fd (mset (active_fds cs))"
    using active_fds_free [OF j, of ?c] by simp
  have len: "length (active_fds ?cs) = Suc (length (active_fds cs))"
    using ms by (metis mset.simps(2) length_Cons mset_eq_length)
  have "unat (rm_clientCount m + 1) = Suc (unat (rm_clientCount m))"
    using room ok by (simp add: table_ok_def unat_word_ariths word_less_nat_alt)
  moreover have "distinct (rm_listenFd m # active_fds ?cs)"
    using distinct_mset_eq [OF ms] ok fd(2) by (auto simp: table_ok_def)
  moreover have "insert fd (rm_fds m) = set (rm_listenFd m # active_fds ?cs)"
    using ok set_mset_list [OF ms] by (auto simp: table_ok_def)
  moreover have "\<forall>c \<in> set ?cs. (cl_active c \<longrightarrow> 0 \<le> cl_fd c) \<and> (\<not> cl_active c \<longrightarrow> cl_fd c = -1)"
    using ok fd(1) set_update_subset_insert [of cs j ?c] by (auto simp: table_ok_def)
  ultimately show ?thesis using ok len by (simp add: table_ok_def)
qed

lemma accept_ok:
  assumes ok: "remote_ok m" and a: "\<forall>fd ad. acc = Accepted fd ad \<longrightarrow> 0 \<le> fd \<and> fd \<notin> rm_fds m"
  shows "\<exists>r m'. SilogRemoteAccept acc fcntl m = Some (r, m') \<and> remote_ok m' \<and>
    rm_isInit m' = rm_isInit m \<and> (r \<noteq> SILOG_OK \<longrightarrow> m' = m)"
proof (cases "rm_isInit m \<and> (\<exists>fd ad. acc = Accepted fd ad)")
  case False
  then show ?thesis using ok by (cases acc) (auto simp: SilogRemoteAccept_def)
next
  case True
  then obtain fd ad cs where acc: "acc = Accepted fd ad" and init: "rm_isInit m"
    and cs: "rm_clients m = Some cs" "table_ok m cs" using ok by (auto elim: remote_okE)
  have fd: "0 \<le> fd" "fd \<notin> rm_fds m" using a acc by auto
  let ?m1 = "m\<lparr>rm_fds := insert fd (rm_fds m)\<rparr>"
  have undo: "c_close fd ?m1 = m" using fd(2) by (simp add: c_close_def)
  show ?thesis
  proof (cases "rm_clientCount m \<ge> rm_maxClients m")
    case True
    then show ?thesis using acc init undo ok by (simp add: SilogRemoteAccept_def Let_def)
  next
    case room: False
    then have "length (active_fds cs) < length cs"
      using cs(2) by (simp add: table_ok_def word_le_nat_alt not_le)
    then obtain j where j: "find (\<lambda>j. \<not> cl_active (cs ! j)) [0..<length cs] = Some j" "j < length cs"
        "\<not> cl_active (cs ! j)" by (elim free_slot_exists)
    have slot: "SilogRemoteFindFreeSlot ?m1 = Some (int j)"
      using cs find_free_loop_eq [of "length cs" cs 0] j(1)
      by (simp add: SilogRemoteFindFreeSlot_def table_ok_def)
    show ?thesis
    proof (cases "SilogRemoteSetNonblock fcntl fd = SILOG_OK")
      case False
      then show ?thesis using acc init room slot undo ok by (simp add: SilogRemoteAccept_def Let_def)
    next
      case True
      let ?c = "\<lparr>cl_fd = fd, cl_addr = ad, cl_active = True\<rparr>"
      let ?cs = "cs[j := ?c]"
      let ?m = "?m1\<lparr>rm_clients := Some ?cs, rm_clientCount := rm_clientCount m + 1\<rparr>"
      have acc_eq: "SilogRemoteAccept acc fcntl m = Some (SILOG_OK, ?m)"
        using acc init room slot True cs(1) j(2) by (simp add: SilogRemoteAccept_def Let_def)
      have "rm_clientCount m < rm_maxClients m" using room by simp
      from table_add [OF cs(2) this j(2,3) fd, of ad] have "table_ok ?m ?cs" .
      then have "remote_ok ?m" using init by (simp add: remote_ok_def)
      then show ?thesis using acc_eq init by simp
    qed
  qed
qed

lemma send_loop_prefix:
  "send_loop send len k sent = (r, n) \<Longrightarrow> sent \<le> n \<and> (r = SILOG_OK \<longleftrightarrow> len \<le> n)"
proof (induction send len k sent rule: send_loop.induct)
  case (1 send len k sent)
  then show ?case
    by (subst (asm) (2) send_loop.simps) (auto split: if_splits send_result.splits)
qed

lemma SendFull_prefix:
  assumes "SilogRemoteSendFull send buf = (r, out)"
  shows "out = take (length out) buf" "r = SILOG_OK \<longleftrightarrow> out = buf"
proof -
  obtain n where n: "send_loop send (length buf) 0 0 = (r, n)" "out = take n buf"
    using assms by (auto simp: SilogRemoteSendFull_def split: prod.splits)
  then show "out = take (length out) buf" by (simp add: min_def)
  show "r = SILOG_OK \<longleftrightarrow> out = buf"
    using send_loop_prefix [OF n(1)] n(2) by (metis length_take min.absorb_iff1 take_all_iff)
qed

text \<open>Which clients a broadcast keeps: those that got everything and those that would block.\<close>

definition kept :: "(int \<Rightarrow> nat \<Rightarrow> nat \<Rightarrow> send_result) \<Rightarrow> byte list \<Rightarrow> int \<Rightarrow> bool" where
  "kept send buf fd \<longleftrightarrow> fst (SilogRemoteSendFull (send fd) buf) \<in> {SILOG_OK, SILOG_NET_TIMEOUT}"

text \<open>After the first \<open>i\<close> slots: what was sent, to whom, and what is left of the table.\<close>

definition broadcast_inv ::
  "(int \<Rightarrow> nat \<Rightarrow> nat \<Rightarrow> send_result) \<Rightarrow> byte list \<Rightarrow> SilogRemoteManager \<Rightarrow> SilogRemoteClient list \<Rightarrow> nat \<Rightarrow>
   SilogRemoteManager \<times> nat \<times> (int \<times> byte list) list \<Rightarrow> bool" where
  "broadcast_inv send buf m cs i = (\<lambda>(m', n, wire). \<exists>cs'. rm_clients m' = Some cs' \<and> table_ok m' cs' \<and>
     rm_isInit m' = rm_isInit m \<and> length cs' = length cs \<and> drop i cs' = drop i cs \<and>
     active_fds (take i cs') = filter (kept send buf) (active_fds (take i cs)) \<and>
     n = length (filter (\<lambda>fd. fst (SilogRemoteSendFull (send fd) buf) = SILOG_OK) (active_fds (take i cs))) \<and>
     wire = map (\<lambda>fd. (fd, snd (SilogRemoteSendFull (send fd) buf))) (active_fds (take i cs)))"

lemma active_fds_take:
  "i < length xs \<Longrightarrow> active_fds (take (Suc i) xs) = active_fds (take i xs) @ (if cl_active (xs ! i) then [cl_fd (xs ! i)] else [])"
  by (simp add: active_fds_def take_Suc_conv_app_nth)

lemma broadcast_step:
  assumes ok: "table_ok m cs" and i: "i < length cs" and P: "broadcast_inv send buf m cs i s"
  shows "\<exists>s'. broadcast_client send buf i s = Some s' \<and> broadcast_inv send buf m cs (Suc i) s'"
proof -
  obtain m1 n wire cs1 where s: "s = (m1, n, wire)" and c1: "rm_clients m1 = Some cs1" "table_ok m1 cs1" "rm_isInit m1 = rm_isInit m"
    "length cs1 = length cs" "drop i cs1 = drop i cs"
    "active_fds (take i cs1) = filter (kept send buf) (active_fds (take i cs))"
    "n = length (filter (\<lambda>fd. fst (SilogRemoteSendFull (send fd) buf) = SILOG_OK) (active_fds (take i cs)))"
    "wire = map (\<lambda>fd. (fd, snd (SilogRemoteSendFull (send fd) buf))) (active_fds (take i cs))"
    using P by (auto simp: broadcast_inv_def)
  have il: "i < length cs1" using i c1(4) by simp
  have dr: "cs1 ! i = cs ! i" "drop (Suc i) cs1 = drop (Suc i) cs"
    using c1(5) i il by (metis Cons_nth_drop_Suc list.inject)+
  have fdok: "cl_active (cs ! i) \<Longrightarrow> 0 \<le> cl_fd (cs ! i)" using ok i by (simp add: table_ok_def)
  obtain r out where ro: "SilogRemoteSendFull (send (cl_fd (cs ! i))) buf = (r, out)" by fastforce
  note tk = active_fds_take [OF i] active_fds_take [OF il]
  consider "\<not> cl_active (cs ! i)" | "cl_active (cs ! i)" "r = SILOG_OK \<or> r = SILOG_NET_TIMEOUT"
    | "cl_active (cs ! i)" "r \<noteq> SILOG_OK" "r \<noteq> SILOG_NET_TIMEOUT" by blast
  then show ?thesis
  proof cases
    case 1
    then have "broadcast_client send buf i s = Some s" using c1(1) il dr(1) by (simp add: broadcast_client_def s)
    then show ?thesis using 1 c1 dr tk by (auto simp: s broadcast_inv_def)
  next
    case 2
    then show ?thesis
      using c1 il dr tk ro fdok by (auto simp: s broadcast_client_def broadcast_inv_def kept_def Let_def)
  next
    case 3
    obtain m2 where m2: "SilogRemoteCloseClientInternal i m1 = Some m2"
      "rm_clients m2 = Some (cs1[i := free_client])" "table_ok m2 (cs1[i := free_client])" "rm_isInit m2 = rm_isInit m1"
      using close_client_ok [OF c1(2,1) il] by blast
    have "broadcast_client send buf i s = Some (m2, n, wire @ [(cl_fd (cs ! i), out)])"
      using 3 c1(1) il dr(1) ro fdok m2(1) by (simp add: s broadcast_client_def Let_def)
    moreover have "active_fds (take (Suc i) (cs1[i := free_client])) = active_fds (take i cs1)"
      using active_fds_take [of i "cs1[i := free_client]"] il by simp
    ultimately show ?thesis using m2 c1 dr tk 3 ro by (auto simp: broadcast_inv_def kept_def)
  qed
qed

lemma broadcast_loop_ok:
  assumes ok: "table_ok m cs" and cl: "rm_clients m = Some cs"
  shows "\<exists>m' cs'. c_for [0..<unat (rm_maxClients m)] (broadcast_client send buf) (m, 0, []) =
      Some (m', length (filter (\<lambda>fd. fst (SilogRemoteSendFull (send fd) buf) = SILOG_OK) (active_fds cs)),
        map (\<lambda>fd. (fd, snd (SilogRemoteSendFull (send fd) buf))) (active_fds cs)) \<and>
    rm_clients m' = Some cs' \<and> table_ok m' cs' \<and> rm_isInit m' = rm_isInit m \<and>
    active_fds cs' = filter (kept send buf) (active_fds cs)"
proof -
  have mx: "unat (rm_maxClients m) = length cs" using ok by (simp add: table_ok_def)
  have "\<exists>s'. c_for [0..<unat (rm_maxClients m)] (broadcast_client send buf) (m, 0, []) = Some s' \<and>
      broadcast_inv send buf m cs (unat (rm_maxClients m)) s'"
  proof (rule c_for_invariant)
    show "broadcast_inv send buf m cs 0 (m, 0, [])" using ok cl by (simp add: broadcast_inv_def active_fds_def)
  next
    fix i s assume "i < unat (rm_maxClients m)" and "broadcast_inv send buf m cs i s"
    then show "\<exists>s'. broadcast_client send buf i s = Some s' \<and> broadcast_inv send buf m cs (Suc i) s'"
      using broadcast_step [OF ok] mx by simp
  qed
  then show ?thesis using mx by (auto simp: broadcast_inv_def)
qed

section \<open>Runs of the service\<close>

text \<open>
  The operations in any order, with any outcome of the system calls. A descriptor that \<open>socket\<close> or
  \<open>accept\<close> returns is a new one.
\<close>

definition accept_fresh :: "accept_result \<Rightarrow> SilogRemoteManager \<Rightarrow> bool" where
  "accept_fresh acc m = (case acc of Accepted fd ad \<Rightarrow> 0 \<le> fd \<and> fd \<notin> rm_fds m | _ \<Rightarrow> True)"

inductive remote_reach :: "SilogRemoteManager \<Rightarrow> bool" where
  start: "remote_reach g_silogRemoteMgr"
| init: "remote_reach m \<Longrightarrow> \<forall>c. config = Some c \<longrightarrow> unat (cf_maxClients c) < 2 ^ 31 \<Longrightarrow>
    SilogRemoteInit malloc sock b l fcntl config m = (r, m') \<Longrightarrow> remote_reach m'"
| deinit: "remote_reach m \<Longrightarrow> SilogRemoteDeinit m = Some m' \<Longrightarrow> remote_reach m'"
| accept: "remote_reach m \<Longrightarrow> accept_fresh acc m \<Longrightarrow> SilogRemoteAccept acc fcntl m = Some (r, m') \<Longrightarrow>
    remote_reach m'"
| broadcast: "remote_reach m \<Longrightarrow> entry_shape e \<Longrightarrow>
    SilogRemoteBroadcast send (Some e) c m = Some (r, n, wire, m') \<Longrightarrow> remote_reach m'"

lemma broadcast_serial:
  assumes "entry_shape e"
  shows "SilogRemoteSerializeEntry e (Some (replicate 377 0)) 377 (Some 0) = Some (Some (entry_bytes e), Some 377)"
  using serialize_bytes [OF assms, of "replicate 377 0" 0] length_entry_bytes [OF assms]
  by (simp add: overwrite_def)

lemma broadcast_ok:
  assumes ok: "remote_ok m" and init: "rm_isInit m" and cs: "rm_clients m = Some cs" and e: "entry_shape e"
  shows "\<exists>m' cs'. SilogRemoteBroadcast send (Some e) c m =
      Some (SILOG_OK, map_option (\<lambda>_. length (filter (\<lambda>fd.
          fst (SilogRemoteSendFull (send fd) (entry_bytes e)) = SILOG_OK) (active_fds cs))) c,
        map (\<lambda>fd. (fd, snd (SilogRemoteSendFull (send fd) (entry_bytes e)))) (active_fds cs), m') \<and>
    remote_ok m' \<and> rm_clients m' = Some cs' \<and> rm_isInit m' \<and>
    active_fds cs' = filter (kept send (entry_bytes e)) (active_fds cs)"
proof (cases "rm_clientCount m = 0")
  case True
  then have "active_fds cs = []" using ok init cs by (simp add: remote_ok_def table_ok_def)
  then show ?thesis using True ok init cs by (simp add: SilogRemoteBroadcast_def Let_def)
next
  case False
  have t: "table_ok m cs" using ok init cs by (simp add: remote_ok_def)
  have len: "length (entry_bytes e) = 377" using length_entry_bytes [OF e] .
  obtain m' cs' where loop: "c_for [0..<unat (rm_maxClients m)] (broadcast_client send (entry_bytes e)) (m, 0, []) =
      Some (m', length (filter (\<lambda>fd. fst (SilogRemoteSendFull (send fd) (entry_bytes e)) = SILOG_OK) (active_fds cs)),
        map (\<lambda>fd. (fd, snd (SilogRemoteSendFull (send fd) (entry_bytes e)))) (active_fds cs))"
    and m': "rm_clients m' = Some cs'" "table_ok m' cs'" "rm_isInit m' = rm_isInit m"
      "active_fds cs' = filter (kept send (entry_bytes e)) (active_fds cs)"
    using broadcast_loop_ok [OF t cs, of send "entry_bytes e"] by blast
  have "remote_ok m'" using m' init by (simp add: remote_ok_def)
  then show ?thesis
    using False init loop m' broadcast_serial [OF e] len by (simp add: SilogRemoteBroadcast_def Let_def)
qed

lemma remote_reach_ok: "remote_reach m \<Longrightarrow> remote_ok m"
proof (induction rule: remote_reach.induct)
  case start
  show ?case by (simp add: remote_ok_def g_silogRemoteMgr_def)
next
  case (init m config malloc sock b l fcntl r m')
  then show ?case using init_ok by blast
next
  case (deinit m m')
  then show ?case using deinit_ok [of m] by auto
next
  case (accept m acc fcntl r m')
  then have "\<forall>fd ad. acc = Accepted fd ad \<longrightarrow> 0 \<le> fd \<and> fd \<notin> rm_fds m" by (auto simp: accept_fresh_def)
  from accept_ok [OF accept.IH this, of fcntl] accept.hyps(3) show ?case by auto
next
  case (broadcast m e send c r n wire m')
  show ?case
  proof (cases "rm_isInit m")
    case True
    then obtain cs where "rm_clients m = Some cs" using broadcast.IH by (elim remote_okE)
    from broadcast_ok [OF broadcast.IH True this broadcast.hyps(2), of send c] broadcast.hyps(3)
    show ?thesis by auto
  next
    case False
    then show ?thesis using broadcast by (simp add: SilogRemoteBroadcast_def Let_def)
  qed
qed

text \<open>A service with two slots and one client, for the concrete runs below.\<close>

definition one_client :: SilogRemoteManager where
  "one_client = \<lparr>rm_isInit = True, rm_listenFd = 3, rm_listenPort = 9090, rm_maxClients = 2,
     rm_clients = Some [free_client, \<lparr>cl_fd = 5, cl_addr = (1, 2), cl_active = True\<rparr>],
     rm_clientCount = 1, rm_fds = {3, 5}\<rparr>"

lemma one_client_ok: "remote_ok one_client"
  by (simp add: remote_ok_def one_client_def table_ok_def active_fds_def)

section \<open>Properties\<close>

text \<open>
  C29. The remote service neither leaks nor reuses a descriptor: in every state reached by
  initialising, accepting, broadcasting and shutting down in any order, with any failures, the client
  counter is the number of active slots, and the descriptors the service owns are exactly the
  listening socket and one per active client (none when it is not running); no operation leaves its
  table, and shutting down always closes everything.
\<close>

theorem SilogRemote_no_descriptor_leak:
  assumes "remote_reach m"
  shows "remote_ok m \<and> (\<exists>m'. SilogRemoteDeinit m = Some m' \<and> rm_fds m' = {} \<and> \<not> rm_isInit m') \<and>
    (accept_fresh acc m \<longrightarrow> SilogRemoteAccept acc fcntl m \<noteq> None) \<and>
    (entry_shape e \<longrightarrow> SilogRemoteBroadcast send (Some e) c m \<noteq> None)"
proof -
  have ok: "remote_ok m" using assms by (rule remote_reach_ok)
  have "SilogRemoteAccept acc fcntl m \<noteq> None" if "accept_fresh acc m"
    using that accept_ok [OF ok, of acc fcntl] by (cases acc) (auto simp: accept_fresh_def)
  moreover have "SilogRemoteBroadcast send (Some e) c m \<noteq> None" if "entry_shape e"
  proof (cases "rm_isInit m")
    case True
    then obtain cs where "rm_clients m = Some cs" using ok by (elim remote_okE)
    from broadcast_ok [OF ok True this that, of send c] show ?thesis by auto
  qed (simp add: SilogRemoteBroadcast_def Let_def)
  ultimately show ?thesis using ok deinit_ok [OF ok] by blast
qed

theorem SilogRemote_no_descriptor_leak_witness:
  "SilogRemoteAccept (Accepted 4 (0, 0)) (\<lambda>fd cmd. 0) g_silogRemoteMgr \<noteq> None \<and> remote_ok g_silogRemoteMgr"
  using SilogRemote_no_descriptor_leak [OF remote_reach.start, of "Accepted 4 (0, 0)" "\<lambda>fd cmd. 0"]
  by (simp add: accept_fresh_def g_silogRemoteMgr_def)

text \<open>
  \<open>SilogRemoteAccept\<close> on a running service puts a new connection into the first free slot and
  counts it when there is room and the socket can be made non-blocking; in every other case the new
  descriptor is closed again and the service is unchanged.
\<close>

lemma SilogRemoteAccept_first_free:
  assumes "remote_ok m" and "rm_isInit m" and "rm_clients m = Some cs" and "0 \<le> fd" and "fd \<notin> rm_fds m"
  shows "if rm_clientCount m < rm_maxClients m \<and> SilogRemoteSetNonblock fcntl fd = SILOG_OK
    then \<exists>j m'. find (\<lambda>j. \<not> cl_active (cs ! j)) [0..<length cs] = Some j \<and>
      SilogRemoteAccept (Accepted fd ad) fcntl m = Some (SILOG_OK, m') \<and>
      rm_clients m' = Some (cs[j := \<lparr>cl_fd = fd, cl_addr = ad, cl_active = True\<rparr>]) \<and>
      rm_clientCount m' = rm_clientCount m + 1 \<and> remote_ok m'
    else \<exists>r. SilogRemoteAccept (Accepted fd ad) fcntl m = Some (r, m) \<and> r \<noteq> SILOG_OK"
proof -
  let ?m1 = "m\<lparr>rm_fds := insert fd (rm_fds m)\<rparr>"
  have undo: "c_close fd ?m1 = m" using assms(5) by (simp add: c_close_def)
  have t: "table_ok m cs" using assms(1-3) by (simp add: remote_ok_def)
  obtain r m' where acc: "SilogRemoteAccept (Accepted fd ad) fcntl m = Some (r, m')" "remote_ok m'"
    using accept_ok [OF assms(1), of "Accepted fd ad" fcntl] assms(4,5) by auto
  show ?thesis
  proof (cases "rm_clientCount m < rm_maxClients m")
    case False
    then show ?thesis using assms(2) undo by (simp add: SilogRemoteAccept_def Let_def not_less)
  next
    case True
    then have "length (active_fds cs) < length cs" using t by (simp add: table_ok_def word_less_nat_alt)
    then obtain j where j: "find (\<lambda>j. \<not> cl_active (cs ! j)) [0..<length cs] = Some j" "j < length cs"
      by (elim free_slot_exists)
    have slot: "SilogRemoteFindFreeSlot ?m1 = Some (int j)"
      using t assms(3) find_free_loop_eq [of "length cs" cs 0] j(1)
      by (simp add: SilogRemoteFindFreeSlot_def table_ok_def)
    show ?thesis
      using True acc assms(2,3) slot undo j by (auto simp: SilogRemoteAccept_def Let_def not_less [symmetric])
  qed
qed

section \<open>Viewers\<close>

text \<open>The descriptors of the clients that a broadcast serves, and what becomes of them.\<close>

definition viewers :: "SilogRemoteManager \<Rightarrow> int list" where
  "viewers m = (if rm_isInit m then case rm_clients m of None \<Rightarrow> [] | Some cs \<Rightarrow> active_fds cs else [])"

lemma broadcast_viewers:
  assumes "remote_ok m" and "entry_shape e"
  shows "\<exists>r n m'. SilogRemoteBroadcast send (Some e) c m =
      Some (r, n, map (\<lambda>fd. (fd, snd (SilogRemoteSendFull (send fd) (entry_bytes e)))) (viewers m), m') \<and>
    remote_ok m' \<and> viewers m' = filter (kept send (entry_bytes e)) (viewers m)"
proof (cases "rm_isInit m")
  case True
  then obtain cs where cs: "rm_clients m = Some cs" using assms(1) by (elim remote_okE)
  have v: "viewers m = active_fds cs" using True cs by (simp add: viewers_def)
  obtain n m' cs' where b: "SilogRemoteBroadcast send (Some e) c m =
      Some (SILOG_OK, n, map (\<lambda>fd. (fd, snd (SilogRemoteSendFull (send fd) (entry_bytes e)))) (active_fds cs), m')"
      "remote_ok m'" "rm_clients m' = Some cs'" "rm_isInit m'" "active_fds cs' = filter (kept send (entry_bytes e)) (active_fds cs)"
    using broadcast_ok [OF assms(1) True cs assms(2), of send c] by blast
  then have "viewers m' = filter (kept send (entry_bytes e)) (viewers m)" by (simp add: v) (simp add: viewers_def)
  then show ?thesis using b(1,2) v by auto
qed (use assms in \<open>simp add: SilogRemoteBroadcast_def Let_def viewers_def\<close>)

lemma viewers_owned: "remote_ok m \<Longrightarrow> set (viewers m) \<subseteq> rm_fds m"
  by (cases "rm_isInit m") (force elim: remote_okE simp: viewers_def table_ok_def)+

lemma accept_viewers:
  assumes ok: "remote_ok m" and fresh: "accept_fresh acc m"
  shows "\<exists>r m'. SilogRemoteAccept acc fcntl m = Some (r, m') \<and> remote_ok m' \<and> set (viewers m) \<subseteq> set (viewers m')"
proof -
  have "\<forall>fd ad. acc = Accepted fd ad \<longrightarrow> 0 \<le> fd \<and> fd \<notin> rm_fds m" using fresh by (auto simp: accept_fresh_def)
  from accept_ok [OF ok this, of fcntl] obtain r m' where
    a: "SilogRemoteAccept acc fcntl m = Some (r, m')" "remote_ok m'" "r \<noteq> SILOG_OK \<longrightarrow> m' = m"
      "rm_isInit m' = rm_isInit m" by blast
  have "set (viewers m) \<subseteq> set (viewers m')"
  proof (cases "r = SILOG_OK")
    case True
    then obtain fd ad where acc: "acc = Accepted fd ad" and init: "rm_isInit m"
      using a(1) by (cases acc) (auto simp: SilogRemoteAccept_def split: if_splits)
    obtain cs where cs: "rm_clients m = Some cs" using ok init by (elim remote_okE)
    have fd: "0 \<le> fd" "fd \<notin> rm_fds m" using fresh acc by (simp_all add: accept_fresh_def)
    obtain j where j: "find (\<lambda>j. \<not> cl_active (cs ! j)) [0..<length cs] = Some j"
        "rm_clients m' = Some (cs[j := \<lparr>cl_fd = fd, cl_addr = ad, cl_active = True\<rparr>])"
      using SilogRemoteAccept_first_free [OF ok init cs fd, of fcntl ad] a(1) True acc by (auto split: if_splits)
    have "rm_isInit m'" using a(4) init by simp
    moreover have "j < length cs" "\<not> cl_active (cs ! j)" using j(1) by (auto simp: find_Some_iff)
    ultimately show ?thesis
      using set_mset_list [OF active_fds_free, of j cs "\<lparr>cl_fd = fd, cl_addr = ad, cl_active = True\<rparr>"] j(2) init cs
      by (auto simp: viewers_def)
  qed (use a(3) in simp)
  then show ?thesis using a by blast
qed

text \<open>
  C30. \<open>SilogRemoteBroadcast\<close> serves every active client once, in slot order: what goes out to a
  client is an initial part of the serialised entry; \<open>*sentCount\<close> is the number of clients that got
  all of it; the clients that stay connected are exactly those that got all of it or would block.
\<close>

theorem SilogRemoteBroadcast_delivers:
  assumes "remote_ok m" and "rm_isInit m" and "rm_clients m = Some cs" and "entry_shape e"
  shows "\<exists>n wire m' cs'. SilogRemoteBroadcast send (Some e) (Some k) m = Some (SILOG_OK, Some n, wire, m') \<and>
    map fst wire = active_fds cs \<and> (\<forall>(fd, out) \<in> set wire. out = take (length out) (entry_bytes e)) \<and>
    n = length (filter (\<lambda>(fd, out). out = entry_bytes e) wire) \<and>
    remote_ok m' \<and> rm_clients m' = Some cs' \<and>
    active_fds cs' = filter (kept send (entry_bytes e)) (active_fds cs)"
proof -
  let ?sf = "\<lambda>fd. SilogRemoteSendFull (send fd) (entry_bytes e)"
  obtain m' cs' where b: "SilogRemoteBroadcast send (Some e) (Some k) m = Some (SILOG_OK,
        Some (length (filter (\<lambda>fd. fst (?sf fd) = SILOG_OK) (active_fds cs))),
        map (\<lambda>fd. (fd, snd (?sf fd))) (active_fds cs), m')"
    "remote_ok m'" "rm_clients m' = Some cs'" "active_fds cs' = filter (kept send (entry_bytes e)) (active_fds cs)"
    using broadcast_ok [OF assms, of send "Some k"] by auto
  have "fst (?sf fd) = SILOG_OK \<longleftrightarrow> snd (?sf fd) = entry_bytes e" for fd
    using SendFull_prefix(2) [of "send fd" "entry_bytes e" "fst (?sf fd)" "snd (?sf fd)"] by simp
  then have "length (filter (\<lambda>fd. fst (?sf fd) = SILOG_OK) (active_fds cs)) =
      length (filter (\<lambda>(fd, out). out = entry_bytes e) (map (\<lambda>fd. (fd, snd (?sf fd))) (active_fds cs)))"
    by (simp add: filter_map comp_def)
  moreover have "snd (?sf fd) = take (length (snd (?sf fd))) (entry_bytes e)" for fd
    using SendFull_prefix(1) [of "send fd" "entry_bytes e" "fst (?sf fd)" "snd (?sf fd)"] by simp
  ultimately show ?thesis using b by (intro exI) (auto simp: comp_def)
qed

theorem SilogRemoteBroadcast_delivers_witness:
  "\<exists>wire m'. SilogRemoteBroadcast (\<lambda>fd k n. SendFail) (Some (blank_entry 5)) (Some 0) one_client =
     Some (SILOG_OK, Some 0, wire, m') \<and> map fst wire = [5]"
proof -
  let ?send = "\<lambda>fd k n. SendFail"
  have sh: "entry_shape (blank_entry 5)" using blank_entry_ok [of 5] by (simp add: entry_ok_def)
  have cs: "active_fds [free_client, \<lparr>cl_fd = 5, cl_addr = (1, 2), cl_active = True\<rparr>] = [5]"
    by (simp add: active_fds_def)
  have fail: "SilogRemoteSendFull (\<lambda>k n. SendFail) (entry_bytes (blank_entry 5)) = (SILOG_NET_FILE_ERROR, [])"
    using length_entry_bytes [OF sh]
    by (simp add: SilogRemoteSendFull_def send_loop.simps [of _ _ 0 0])
  obtain n wire m' where w: "SilogRemoteBroadcast ?send (Some (blank_entry 5)) (Some 0) one_client =
      Some (SILOG_OK, Some n, wire, m')" "map fst wire = [5]"
    using SilogRemoteBroadcast_delivers [OF one_client_ok _ _ sh, of
        "[free_client, \<lparr>cl_fd = 5, cl_addr = (1, 2), cl_active = True\<rparr>]" ?send 0] cs
    by (auto simp: one_client_def)
  have "n = 0"
    using broadcast_ok [OF one_client_ok _ _ sh, of
        "[free_client, \<lparr>cl_fd = 5, cl_addr = (1, 2), cl_active = True\<rparr>]" ?send "Some 0"] w(1) cs fail
    by (auto simp: one_client_def)
  then show ?thesis using w by auto
qed

text \<open>
  A client whose socket takes only part of an entry and then would block is skipped but stays
  connected: it has received the first bytes of the entry, never gets the rest, and the next entry
  follows in the same stream, so from then on the frames are out of step.
\<close>

lemma SilogRemoteBroadcast_partial_frame:
  assumes "remote_ok m" and "rm_isInit m" and "rm_clients m = Some cs" and "entry_shape e"
    and "fd \<in> set (active_fds cs)" and "0 < k" and "k < 377" and "send fd 0 377 = Sent k"
    and "send fd 1 (377 - k) = SendAgain"
  shows "\<exists>n wire m' cs'. SilogRemoteBroadcast send (Some e) c m = Some (SILOG_OK, n, wire, m') \<and>
    (fd, take k (entry_bytes e)) \<in> set wire \<and> rm_clients m' = Some cs' \<and> fd \<in> set (active_fds cs')"
proof -
  have len: "length (entry_bytes e) = 377" using length_entry_bytes [OF assms(4)] .
  have "SilogRemoteSendFull (send fd) (entry_bytes e) = (SILOG_NET_TIMEOUT, take k (entry_bytes e))"
    using assms(6-9) len
    by (simp add: SilogRemoteSendFull_def send_loop.simps [of _ _ 0 0] send_loop.simps [of _ _ "Suc 0" k])
  moreover from this have "kept send (entry_bytes e) fd" by (simp add: kept_def)
  ultimately show ?thesis
    using broadcast_ok [OF assms(1-4), of send c] assms(5) by force
qed

end
