(* ===== verification/Silog_Remote_Conc.thy ===== *)
theory Silog_Remote_Conc
  imports Silog_Remote_Server
begin

text \<open>
  The broadcast of the remote service at the granularity of its lock (\<open>SilogRemoteBroadcast\<close> in
  \<open>silog_remote.c\<close>). The loop releases the lock around every \<open>send\<close>, so the accepting thread may
  change the client table while a frame is on its way. Here the broadcaster is a state machine whose
  steps are its critical sections, and the steps of \<open>SilogRemoteAccept\<close> come in between in any number.
  A step of the broadcaster sends to the client it has picked, takes the lock, handles the outcome and
  picks the next client. Left alone the machine does what the sequential definition does; shutting the
  service down in between makes its next step undefined.
\<close>

section \<open>The broadcaster\<close>

datatype broadcast_pc = BSend nat int | BDone

text \<open>The frame, the count of complete deliveries, and what was sent to which slot and descriptor, with the outcome.\<close>

record broadcaster =
  bc_pc :: broadcast_pc
  bc_buf :: "byte list"
  bc_sent :: nat
  bc_wire :: "(nat \<times> int \<times> ErrorCode \<times> byte list) list"

text \<open>The loop up to the next client that is active, with the lock held.\<close>

function scan :: "SilogRemoteClient list \<Rightarrow> nat \<Rightarrow> nat \<Rightarrow> broadcast_pc c_result" where
  "scan cs n i =
     (if i < n then
        if i < length cs then
          if \<not> cl_active (cs ! i) \<or> cl_fd (cs ! i) < 0 then scan cs n (Suc i) else Some (BSend i (cl_fd (cs ! i)))
        else None
      else Some BDone)"
  by pat_completeness auto
termination
  by (relation "measure (\<lambda>(cs, n, i). n - i)") auto

declare scan.simps [simp del]

definition bc_scan :: "SilogRemoteManager \<Rightarrow> nat \<Rightarrow> broadcast_pc c_result" where
  "bc_scan m i =
     (if i < unat (rm_maxClients m) then do { cs \<leftarrow> rm_clients m; scan cs (unat (rm_maxClients m)) i }
      else Some BDone)"

text \<open>From the call to the first release of the lock: an early return, or the first client picked.\<close>

definition bc_start :: "logEntry_t option \<Rightarrow> SilogRemoteManager \<Rightarrow> (ErrorCode + broadcaster) c_result" where
  "bc_start entry m =
     (if \<not> rm_isInit m then Some (Inl SILOG_TRANS_NOT_INIT)
      else (case entry of
          None \<Rightarrow> Some (Inl SILOG_NULL_PTR)
        | Some e \<Rightarrow>
            if rm_clientCount m = 0 then Some (Inl SILOG_OK)
            else do {
              (buf, bufLen) \<leftarrow> SilogRemoteSerializeEntry e (Some (replicate 377 0)) 377 (Some 0);
              b \<leftarrow> buf; len \<leftarrow> bufLen;
              if len = 0 then Some (Inl SILOG_INVALID_ARG)
              else do {
                pc \<leftarrow> bc_scan m 0;
                Some (Inr \<lparr>bc_pc = pc, bc_buf = take len b, bc_sent = 0, bc_wire = []\<rparr>)
              }
            }))"

text \<open>One frame: the send without the lock, then the critical section that handles its outcome.\<close>

definition bc_turn ::
  "(int \<Rightarrow> nat \<Rightarrow> nat \<Rightarrow> send_result) \<Rightarrow> SilogRemoteManager \<times> broadcaster \<Rightarrow> (SilogRemoteManager \<times> broadcaster) c_result" where
  "bc_turn send = (\<lambda>(m, b). case bc_pc b of
       BDone \<Rightarrow> Some (m, b)
     | BSend i fd \<Rightarrow> (case SilogRemoteSendFull (send fd) (bc_buf b) of (ret, out) \<Rightarrow> do {
         let b1 = b\<lparr>bc_wire := bc_wire b @ [(i, fd, ret, out)]\<rparr>;
         let b2 = (if ret = SILOG_OK then b1\<lparr>bc_sent := Suc (bc_sent b1)\<rparr> else b1);
         m1 \<leftarrow> (if ret = SILOG_OK \<or> ret = SILOG_NET_TIMEOUT then Some m else SilogRemoteCloseClientInternal i m);
         pc \<leftarrow> bc_scan m1 (Suc i);
         Some (m1, b2\<lparr>bc_pc := pc\<rparr>)
       }))"

inductive conc_reach :: "SilogRemoteManager \<Rightarrow> broadcaster \<Rightarrow> SilogRemoteManager \<Rightarrow> broadcaster \<Rightarrow> bool"
  for m0 :: SilogRemoteManager and b0 :: broadcaster where
  start: "conc_reach m0 b0 m0 b0"
| turn: "conc_reach m0 b0 m b \<Longrightarrow> bc_turn send (m, b) = Some (m', b') \<Longrightarrow> conc_reach m0 b0 m' b'"
| accept: "conc_reach m0 b0 m b \<Longrightarrow> accept_fresh acc m \<Longrightarrow> SilogRemoteAccept acc fcntl m = Some (r, m') \<Longrightarrow> conc_reach m0 b0 m' b"

section \<open>Scanning and accepting\<close>

definition serving :: "SilogRemoteClient \<Rightarrow> bool" where
  "serving c \<longleftrightarrow> cl_active c \<and> 0 \<le> cl_fd c"

lemma bc_scan_table: "rm_clients m = Some cs \<Longrightarrow> bc_scan m i = scan cs (unat (rm_maxClients m)) i"
  by (simp add: bc_scan_def scan.simps)

lemma scan_cases:
  assumes "n \<le> length cs"
  obtains j where "i \<le> j" and "j < n" and "serving (cs ! j)" and "\<And>k. i \<le> k \<Longrightarrow> k < j \<Longrightarrow> \<not> serving (cs ! k)"
      and "scan cs n i = Some (BSend j (cl_fd (cs ! j)))"
  | "\<And>k. i \<le> k \<Longrightarrow> k < n \<Longrightarrow> \<not> serving (cs ! k)" and "scan cs n i = Some BDone"
proof (induction "n - i" arbitrary: i thesis)
  case 0
  then show ?case by (auto simp: scan.simps [of cs n i])
next
  case (Suc d)
  then have i: "i < n" "i < length cs" "d = n - Suc i" using assms by auto
  show ?case
  proof (cases "serving (cs ! i)")
    case True
    then have "scan cs n i = Some (BSend i (cl_fd (cs ! i)))" using i by (simp add: scan.simps [of cs n i] serving_def)
    then show ?thesis using Suc.prems(1) [of i] True i(1) by simp
  next
    case False
    then have s: "scan cs n i = scan cs n (Suc i)" using i by (auto simp: scan.simps [of cs n i] serving_def)
    have F: "\<not> serving (cs ! k)" if "i \<le> k" "\<not> (Suc i \<le> k)" for k using that False by (metis le_antisym not_less_eq_eq)
    show ?thesis
    proof (rule Suc.hyps(1) [OF i(3)])
      fix j assume "Suc i \<le> j" "j < n" "serving (cs ! j)" "\<And>k. Suc i \<le> k \<Longrightarrow> k < j \<Longrightarrow> \<not> serving (cs ! k)"
        "scan cs n (Suc i) = Some (BSend j (cl_fd (cs ! j)))"
      then show ?thesis using F s by (intro Suc.prems(1) [of j]) auto
    next
      assume "\<And>k. Suc i \<le> k \<Longrightarrow> k < n \<Longrightarrow> \<not> serving (cs ! k)" "scan cs n (Suc i) = Some BDone"
      then show ?thesis using F s by (intro Suc.prems(2)) auto
    qed
  qed
qed

text \<open>Accepting touches at most one slot, and that one was free.\<close>

lemma accept_slot:
  assumes ok: "remote_ok m" and init: "rm_isInit m" and cs: "rm_clients m = Some cs" and fresh: "accept_fresh acc m"
    and r: "SilogRemoteAccept acc fcntl m = Some (r, m')"
  shows "\<exists>cs'. remote_ok m' \<and> rm_isInit m' \<and> rm_clients m' = Some cs' \<and> length cs' = length cs \<and>
    (\<forall>j < length cs. cl_active (cs ! j) \<longrightarrow> cs' ! j = cs ! j)"
proof -
  have "\<forall>fd ad. acc = Accepted fd ad \<longrightarrow> 0 \<le> fd \<and> fd \<notin> rm_fds m" using fresh by (auto simp: accept_fresh_def)
  from accept_ok [OF ok this, of fcntl] r have a: "remote_ok m'" "rm_isInit m' = rm_isInit m" "r \<noteq> SILOG_OK \<longrightarrow> m' = m" by auto
  show ?thesis
  proof (cases "r = SILOG_OK")
    case True
    then obtain fd ad where acc: "acc = Accepted fd ad" using r init by (cases acc) (auto simp: SilogRemoteAccept_def)
    have fd: "0 \<le> fd" "fd \<notin> rm_fds m" using fresh acc by (simp_all add: accept_fresh_def)
    obtain j where j: "find (\<lambda>j. \<not> cl_active (cs ! j)) [0..<length cs] = Some j"
        "rm_clients m' = Some (cs[j := \<lparr>cl_fd = fd, cl_addr = ad, cl_active = True\<rparr>])"
      using SilogRemoteAccept_first_free [OF ok init cs fd, of fcntl ad] r True acc by (auto split: if_splits)
    then have free: "\<not> cl_active (cs ! j)" by (auto simp: find_Some_iff)
    have "cs[j := c] ! k = cs ! k" if "cl_active (cs ! k)" for c k
      using that free by (metis nth_list_update_neq)
    then show ?thesis using a init j(2) by simp
  qed (use a init cs in auto)
qed


section \<open>The invariant of a broadcast under way\<close>

text \<open>
  The slot the broadcaster stands at, and what holds of the table and the frames then: \<open>cs0\<close> is the
  table when the broadcast began. Slots it has not come to yet and that were in use still hold the
  same client; a client it has passed got its frame, and is still there unless its socket failed.
\<close>

definition at_slot :: "nat \<Rightarrow> broadcaster \<Rightarrow> nat" where
  "at_slot n b = (case bc_pc b of BSend i fd \<Rightarrow> i | BDone \<Rightarrow> n)"

definition picked_ok :: "SilogRemoteClient list \<Rightarrow> broadcaster \<Rightarrow> bool" where
  "picked_ok cs b = (case bc_pc b of BSend i fd \<Rightarrow> i < length cs \<and> cl_active (cs ! i) \<and> cl_fd (cs ! i) = fd | BDone \<Rightarrow> True)"

definition frame_ok :: "SilogRemoteClient list \<Rightarrow> byte list \<Rightarrow> nat \<times> int \<times> ErrorCode \<times> byte list \<Rightarrow> bool" where
  "frame_ok cs buf = (\<lambda>(i, fd, ret, out). out = take (length out) buf \<and> (ret = SILOG_OK \<longleftrightarrow> out = buf) \<and>
     (ret = SILOG_OK \<or> ret = SILOG_NET_TIMEOUT \<longrightarrow> cl_active (cs ! i) \<and> cl_fd (cs ! i) = fd))"

definition passed :: "SilogRemoteClient list \<Rightarrow> byte list \<Rightarrow> nat \<Rightarrow> SilogRemoteClient list \<Rightarrow> broadcaster \<Rightarrow> bool" where
  "passed cs0 buf p cs b \<longleftrightarrow> length cs = length cs0 \<and> bc_buf b = buf \<and>
     (\<forall>j < length cs0. p \<le> j \<longrightarrow> cl_active (cs0 ! j) \<longrightarrow> cs ! j = cs0 ! j) \<and>
     sorted_wrt (<) (map fst (bc_wire b)) \<and> (\<forall>i \<in> fst ` set (bc_wire b). i < p) \<and>
     (\<forall>f \<in> set (bc_wire b). frame_ok cs buf f) \<and>
     (\<forall>j < length cs0. j < p \<longrightarrow> cl_active (cs0 ! j) \<longrightarrow> (\<exists>r. (j, cl_fd (cs0 ! j), r) \<in> set (bc_wire b))) \<and>
     bc_sent b = length (filter (\<lambda>(i, fd, ret, out). out = buf) (bc_wire b))"

definition under_way :: "SilogRemoteClient list \<Rightarrow> byte list \<Rightarrow> SilogRemoteManager \<Rightarrow> broadcaster \<Rightarrow> bool" where
  "under_way cs0 buf m b \<longleftrightarrow> (\<exists>cs. remote_ok m \<and> rm_isInit m \<and> rm_clients m = Some cs \<and> picked_ok cs b \<and>
     at_slot (length cs0) b \<le> length cs0 \<and> passed cs0 buf (at_slot (length cs0) b) cs b)"

lemma table_serving:
  assumes "table_ok m cs" and "j < length cs"
  shows "serving (cs ! j) \<longleftrightarrow> cl_active (cs ! j)"
  using assms by (auto simp: serving_def table_ok_def)

lemma bc_scan_cases:
  assumes ok: "remote_ok m" and init: "rm_isInit m" and cs: "rm_clients m = Some cs"
  obtains j where "i \<le> j" and "j < length cs" and "cl_active (cs ! j)" and "\<And>k. i \<le> k \<Longrightarrow> k < j \<Longrightarrow> \<not> cl_active (cs ! k)"
      and "bc_scan m i = Some (BSend j (cl_fd (cs ! j)))"
  | "\<And>k. i \<le> k \<Longrightarrow> k < length cs \<Longrightarrow> \<not> cl_active (cs ! k)" and "bc_scan m i = Some BDone"
proof -
  have t: "table_ok m cs" using ok init cs by (simp add: remote_ok_def)
  then have n: "unat (rm_maxClients m) = length cs" by (simp add: table_ok_def)
  show thesis
    by (rule scan_cases [of "length cs" cs i])
       (use that table_serving [OF t] in \<open>auto simp: bc_scan_table cs n\<close>)
qed

text \<open>How the three kinds of change act on it: skipping free slots, one frame, one accepted client.\<close>

lemma passed_skip:
  assumes p: "passed cs0 buf p cs b" and "p \<le> q" and free: "\<And>k. p \<le> k \<Longrightarrow> k < q \<Longrightarrow> \<not> cl_active (cs ! k)"
  shows "passed cs0 buf q cs (b\<lparr>bc_pc := pc\<rparr>)"
proof -
  have "\<exists>r. (j, cl_fd (cs0 ! j), r) \<in> set (bc_wire b)" if "j < length cs0" "j < q" "cl_active (cs0 ! j)" for j
  proof (cases "j < p")
    case True
    then show ?thesis using p that by (simp add: passed_def)
  next
    case False
    then have "cs ! j = cs0 ! j" using p that by (simp add: passed_def)
    then show ?thesis using free [of j] False that by simp
  qed
  moreover have "i < q" if "i \<in> fst ` set (bc_wire b)" for i
    using p that \<open>p \<le> q\<close> unfolding passed_def by (meson order_less_le_trans)
  ultimately show ?thesis using p \<open>p \<le> q\<close> by (auto simp: passed_def)
qed

lemma passed_accept:
  assumes p: "passed cs0 buf p cs b" and p0: "p \<le> length cs0" and len: "length cs' = length cs"
    and same: "\<forall>j < length cs. cl_active (cs ! j) \<longrightarrow> cs' ! j = cs ! j"
  shows "passed cs0 buf p cs' b"
proof -
  have "frame_ok cs' buf f" if f: "f \<in> set (bc_wire b)" for f
  proof -
    obtain i fd ret out where e: "f = (i, fd, ret, out)" by (cases f)
    have "i < length cs" using p p0 f e by (force simp: passed_def)
    moreover have "frame_ok cs buf f" using p f by (simp add: passed_def)
    ultimately show ?thesis using same by (auto simp: frame_ok_def e)
  qed
  moreover have "cs' ! j = cs0 ! j" if "j < length cs0" "p \<le> j" "cl_active (cs0 ! j)" for j
    using p same that by (simp add: passed_def)
  ultimately show ?thesis using p len by (simp add: passed_def)
qed

lemma passed_frame:
  assumes p: "passed cs0 buf i cs b" and i: "i < length cs" "cl_active (cs ! i)" "cl_fd (cs ! i) = fd"
    and out: "SilogRemoteSendFull put buf = (ret, out)"
    and cs': "cs' = (if ret = SILOG_OK \<or> ret = SILOG_NET_TIMEOUT then cs else cs[i := c])"
    and b': "bc_buf b' = buf" "bc_wire b' = bc_wire b @ [(i, fd, ret, out)]"
      "bc_sent b' = (if ret = SILOG_OK then Suc (bc_sent b) else bc_sent b)"
  shows "passed cs0 buf (Suc i) cs' b'"
proof -
  have other: "cs' ! j = cs ! j" if "j \<noteq> i" for j using that cs' by simp
  have len: "length cs' = length cs0" using p cs' by (simp add: passed_def)
  have below: "k < i" if "k \<in> fst ` set (bc_wire b)" for k using p that by (auto simp: passed_def)
  note pre = SendFull_prefix [OF out]
  have "frame_ok cs' buf (i, fd, ret, out)" using pre i(2,3) cs' by (auto simp: frame_ok_def)
  moreover have "frame_ok cs' buf f" if f: "f \<in> set (bc_wire b)" for f
  proof -
    obtain k fd' ret' out' where e: "f = (k, fd', ret', out')" by (cases f)
    have "k < i" using below f e by force
    then have "cs' ! k = cs ! k" by (intro other) simp
    moreover have "frame_ok cs buf f" using p f by (simp add: passed_def)
    ultimately show ?thesis by (simp add: frame_ok_def e)
  qed
  moreover have "cs' ! j = cs0 ! j" if "j < length cs0" "Suc i \<le> j" "cl_active (cs0 ! j)" for j
    using p that other [of j] by (simp add: passed_def)
  moreover have "\<exists>r. (j, cl_fd (cs0 ! j), r) \<in> set (bc_wire b')" if "j < length cs0" "j < Suc i" "cl_active (cs0 ! j)" for j
    using p that i(3) by (cases "j = i") (auto simp: passed_def b')
  moreover have "sorted_wrt (<) (map fst (bc_wire b'))" using p below by (auto simp: passed_def b' sorted_wrt_append)
  moreover have "bc_sent b' = length (filter (\<lambda>(i, fd, ret, out). out = buf) (bc_wire b'))"
    using p pre(2) by (simp add: passed_def b')
  moreover have "\<forall>k \<in> fst ` set (bc_wire b'). k < Suc i" using below by (force simp: b')
  ultimately show ?thesis using len b'(1) by (auto simp: passed_def b'(2))
qed

text \<open>Picking the next client re-establishes the invariant.\<close>

lemma scan_under_way:
  assumes ok: "remote_ok m" "rm_isInit m" "rm_clients m = Some cs" and p: "passed cs0 buf p cs b" and "p \<le> length cs0"
  shows "\<exists>pc. bc_scan m p = Some pc \<and> under_way cs0 buf m (b\<lparr>bc_pc := pc\<rparr>) \<and> p \<le> at_slot (length cs0) (b\<lparr>bc_pc := pc\<rparr>)"
proof -
  have len: "length cs = length cs0" using p by (simp add: passed_def)
  show ?thesis
  proof (rule bc_scan_cases [OF ok, of p])
    fix j assume j: "p \<le> j" "j < length cs" "cl_active (cs ! j)" "\<And>k. p \<le> k \<Longrightarrow> k < j \<Longrightarrow> \<not> cl_active (cs ! k)"
      "bc_scan m p = Some (BSend j (cl_fd (cs ! j)))"
    then show ?thesis using passed_skip [OF p j(1,4)] ok len
      by (auto simp: under_way_def picked_ok_def at_slot_def)
  next
    assume j: "\<And>k. p \<le> k \<Longrightarrow> k < length cs \<Longrightarrow> \<not> cl_active (cs ! k)" "bc_scan m p = Some BDone"
    then show ?thesis using passed_skip [OF p \<open>p \<le> length cs0\<close>] ok len \<open>p \<le> length cs0\<close>
      by (auto simp: under_way_def picked_ok_def at_slot_def)
  qed
qed

text \<open>The critical section after a frame: the table and the broadcaster, by the outcome of the send.\<close>

definition stays :: "ErrorCode \<Rightarrow> bool" where
  "stays ret \<longleftrightarrow> ret = SILOG_OK \<or> ret = SILOG_NET_TIMEOUT"

definition sent_frame :: "nat \<Rightarrow> int \<Rightarrow> ErrorCode \<Rightarrow> byte list \<Rightarrow> broadcaster \<Rightarrow> broadcaster" where
  "sent_frame i fd ret out b = b\<lparr>bc_wire := bc_wire b @ [(i, fd, ret, out)],
     bc_sent := (if ret = SILOG_OK then Suc (bc_sent b) else bc_sent b)\<rparr>"

lemma outcome_table:
  assumes "table_ok m cs" and "rm_isInit m" and "rm_clients m = Some cs" and "i < length cs"
  shows "\<exists>m1. (if stays ret then Some m else SilogRemoteCloseClientInternal i m) = Some m1 \<and>
    table_ok m1 (if stays ret then cs else cs[i := free_client]) \<and> rm_isInit m1 \<and>
    rm_clients m1 = Some (if stays ret then cs else cs[i := free_client])"
  using close_client_ok [OF assms(1,3,4)] assms by (cases "stays ret") auto

lemma bc_turn_send:
  assumes "bc_pc b = BSend i fd" and "SilogRemoteSendFull (send fd) (bc_buf b) = (ret, out)"
    and "(if stays ret then Some m else SilogRemoteCloseClientInternal i m) = Some m1" and "bc_scan m1 (Suc i) = Some pc"
  shows "bc_turn send (m, b) = Some (m1, (sent_frame i fd ret out b)\<lparr>bc_pc := pc\<rparr>)"
  using assms by (simp add: bc_turn_def sent_frame_def stays_def Let_def)

lemma turn_under_way:
  assumes "under_way cs0 buf m b"
  shows "\<exists>m' b'. bc_turn send (m, b) = Some (m', b') \<and> under_way cs0 buf m' b' \<and>
    (bc_pc b \<noteq> BDone \<longrightarrow> at_slot (length cs0) b < at_slot (length cs0) b')"
proof (cases "bc_pc b")
  case BDone
  then show ?thesis using assms by (simp add: bc_turn_def)
next
  case (BSend i fd)
  obtain cs where c: "remote_ok m" "rm_isInit m" "rm_clients m = Some cs" "i < length cs" "cl_active (cs ! i)" "cl_fd (cs ! i) = fd"
      and p: "passed cs0 buf i cs b"
    using assms BSend by (auto simp: under_way_def picked_ok_def at_slot_def)
  have len: "Suc i \<le> length cs0" and buf: "bc_buf b = buf" using p c(4) by (simp_all add: passed_def)
  obtain ret out where out: "SilogRemoteSendFull (send fd) buf = (ret, out)" by (cases "SilogRemoteSendFull (send fd) buf")
  let ?cs = "if stays ret then cs else cs[i := free_client]"
  have t: "table_ok m cs" using c(1-3) by (simp add: remote_ok_def)
  obtain m1 where m1: "(if stays ret then Some m else SilogRemoteCloseClientInternal i m) = Some m1"
      "remote_ok m1" "rm_isInit m1" "rm_clients m1 = Some ?cs"
    using outcome_table [OF t c(2-4), of ret] by (auto simp: remote_ok_def)
  have "passed cs0 buf (Suc i) ?cs (sent_frame i fd ret out b)"
    by (rule passed_frame [OF p c(4-6) out]) (simp_all add: buf sent_frame_def stays_def)
  from scan_under_way [OF m1(2-4) this len] obtain pc where
    "bc_scan m1 (Suc i) = Some pc" "under_way cs0 buf m1 ((sent_frame i fd ret out b)\<lparr>bc_pc := pc\<rparr>)"
    "Suc i \<le> at_slot (length cs0) ((sent_frame i fd ret out b)\<lparr>bc_pc := pc\<rparr>)" by blast
  moreover from this(1) have "bc_turn send (m, b) = Some (m1, (sent_frame i fd ret out b)\<lparr>bc_pc := pc\<rparr>)"
    using BSend out buf by (intro bc_turn_send [OF _ _ m1(1)]) simp_all
  ultimately show ?thesis using BSend by (auto simp: at_slot_def)
qed

lemma accept_under_way:
  assumes u: "under_way cs0 buf m b" and fresh: "accept_fresh acc m" and r: "SilogRemoteAccept acc fcntl m = Some (r, m')"
  shows "under_way cs0 buf m' b"
proof -
  obtain cs where c: "remote_ok m" "rm_isInit m" "rm_clients m = Some cs" "picked_ok cs b"
      "at_slot (length cs0) b \<le> length cs0" "passed cs0 buf (at_slot (length cs0) b) cs b"
    using u by (auto simp: under_way_def)
  from accept_slot [OF c(1-3) fresh r] obtain cs' where
    s: "remote_ok m'" "rm_isInit m'" "rm_clients m' = Some cs'" "length cs' = length cs"
      "\<forall>j < length cs. cl_active (cs ! j) \<longrightarrow> cs' ! j = cs ! j" by blast
  moreover have "picked_ok cs' b" using c(4) s(4,5) by (auto simp: picked_ok_def split: broadcast_pc.splits)
  ultimately show ?thesis using passed_accept [OF c(6,5) s(4,5)] c(5) by (auto simp: under_way_def)
qed

lemma conc_reach_under_way: "conc_reach m0 b0 m b \<Longrightarrow> under_way cs0 buf m0 b0 \<Longrightarrow> under_way cs0 buf m b"
proof (induction rule: conc_reach.induct)
  case (turn m b send m' b')
  then show ?case using turn_under_way [of cs0 buf m b send] by auto
qed (auto intro: accept_under_way)

lemma start_under_way:
  assumes ok: "remote_ok m" "rm_isInit m" "rm_clients m = Some cs" and e: "entry_shape e" and b: "bc_start (Some e) m = Some (Inr b)"
  shows "under_way cs (entry_bytes e) m b"
proof -
  let ?b = "\<lparr>bc_pc = BDone, bc_buf = entry_bytes e, bc_sent = 0, bc_wire = []\<rparr>"
  have "passed cs (entry_bytes e) 0 cs ?b" by (simp add: passed_def)
  from scan_under_way [OF ok this] obtain pc where
    pc: "bc_scan m 0 = Some pc" "under_way cs (entry_bytes e) m (?b\<lparr>bc_pc := pc\<rparr>)" by auto
  then show ?thesis using ok b broadcast_serial [OF e] length_entry_bytes [OF e]
    by (auto simp: bc_start_def split: if_splits)
qed

section \<open>Left alone, the broadcaster is the sequential one\<close>

fun bc_turns :: "nat \<Rightarrow> (int \<Rightarrow> nat \<Rightarrow> nat \<Rightarrow> send_result) \<Rightarrow> SilogRemoteManager \<times> broadcaster \<Rightarrow> (SilogRemoteManager \<times> broadcaster) c_result" where
  "bc_turns 0 send mb = Some mb"
| "bc_turns (Suc k) send mb = do { mb' \<leftarrow> bc_turn send mb; bc_turns k send mb' }"

abbreviation (input) wire_of :: "broadcaster \<Rightarrow> (int \<times> byte list) list" where
  "wire_of b \<equiv> map (\<lambda>(i, fd, ret, out). (fd, out)) (bc_wire b)"

text \<open>One round of the loop over a client that is served, on either side.\<close>

lemma serve_round:
  assumes ok: "table_ok m cs" "rm_isInit m" "rm_clients m = Some cs" and p: "p < length cs" "serving (cs ! p)"
    and buf: "bc_buf b = buf"
  obtains m1 b1 cs1 where "bc_scan m p = Some (BSend p (cl_fd (cs ! p)))" and "table_ok m1 cs1" and "rm_isInit m1"
    and "rm_clients m1 = Some cs1" and "length cs1 = length cs" and "bc_buf b1 = buf"
    and "broadcast_client send buf p (m, bc_sent b, wire_of b) = Some (m1, bc_sent b1, wire_of b1)"
    and "\<And>pc. bc_scan m1 (Suc p) = Some pc \<Longrightarrow>
      bc_turn send (m, b\<lparr>bc_pc := BSend p (cl_fd (cs ! p))\<rparr>) = Some (m1, b1\<lparr>bc_pc := pc\<rparr>)"
proof -
  let ?fd = "cl_fd (cs ! p)"
  have n: "unat (rm_maxClients m) = length cs" using ok(1) by (simp add: table_ok_def)
  obtain ret out where out: "SilogRemoteSendFull (send ?fd) buf = (ret, out)" by (cases "SilogRemoteSendFull (send ?fd) buf")
  let ?b = "sent_frame p ?fd ret out (b\<lparr>bc_pc := BSend p ?fd\<rparr>)" and ?cs = "if stays ret then cs else cs[p := free_client]"
  have s: "bc_scan m p = Some (BSend p ?fd)"
    using p ok(3) n by (simp add: bc_scan_table scan.simps [of cs _ p] serving_def)
  obtain m1 where m1: "(if stays ret then Some m else SilogRemoteCloseClientInternal p m) = Some m1"
      "table_ok m1 ?cs" "rm_isInit m1" "rm_clients m1 = Some ?cs"
    using outcome_table [OF ok p(1), of ret] by blast
  have body: "broadcast_client send buf p (m, bc_sent b, wire_of b) = Some (m1, bc_sent ?b, wire_of ?b)"
    using p ok(3) out m1(1)
    by (auto simp: broadcast_client_def serving_def sent_frame_def stays_def Let_def split: if_splits)
  have "bc_turn send (m, b\<lparr>bc_pc := BSend p ?fd\<rparr>) = Some (m1, ?b\<lparr>bc_pc := pc\<rparr>)" if "bc_scan m1 (Suc p) = Some pc" for pc
    using out buf by (intro bc_turn_send [OF _ _ m1(1) that]) simp_all
  then show thesis using that [OF s m1(2-4) _ _ body] buf by (simp add: sent_frame_def)
qed

lemma bc_turns_loop:
  assumes "table_ok m cs" and "rm_isInit m" and "rm_clients m = Some cs" and "bc_buf b = buf"
  shows "\<exists>pc k m' b'. bc_scan m p = Some pc \<and> k \<le> length cs - p \<and> bc_turns k send (m, b\<lparr>bc_pc := pc\<rparr>) = Some (m', b') \<and>
    bc_pc b' = BDone \<and> c_for [p..<length cs] (broadcast_client send buf) (m, bc_sent b, wire_of b) =
      Some (m', bc_sent b', wire_of b')"
  using assms
proof (induction "length cs - p" arbitrary: p m cs b)
  case 0
  have "unat (rm_maxClients m) = length cs" using 0(2) by (simp add: table_ok_def)
  then have "bc_scan m p = Some BDone" using 0(1,4) by (simp add: bc_scan_table scan.simps [of cs _ p])
  then show ?case using 0(1) by (intro exI [of _ BDone] exI [of _ 0]) simp
next
  case (Suc d)
  have n: "unat (rm_maxClients m) = length cs" using Suc(3) by (simp add: table_ok_def)
  have p: "p < length cs" "[p..<length cs] = p # [Suc p..<length cs]" "d = length cs - Suc p"
    using Suc(2) by (auto simp: upt_conv_Cons)
  show ?case
  proof (cases "serving (cs ! p)")
    case False
    then have "bc_scan m p = bc_scan m (Suc p)"
      using p(1) Suc(5) n by (auto simp: bc_scan_table scan.simps [of cs _ p] serving_def)
    moreover have "broadcast_client send buf p (m, bc_sent b, wire_of b) = Some (m, bc_sent b, wire_of b)"
      using False p(1) Suc(5) by (auto simp: broadcast_client_def serving_def)
    moreover obtain pc k m' b' where "bc_scan m (Suc p) = Some pc" "k \<le> length cs - Suc p"
        "bc_turns k send (m, b\<lparr>bc_pc := pc\<rparr>) = Some (m', b')" "bc_pc b' = BDone"
        "c_for [Suc p..<length cs] (broadcast_client send buf) (m, bc_sent b, wire_of b) = Some (m', bc_sent b', wire_of b')"
      using Suc(1) [OF p(3) Suc(3-6)] by blast
    ultimately show ?thesis
      by (intro exI [of _ pc] exI [of _ k] exI [of _ m'] exI [of _ b']) (simp add: p(2))
  next
    case True
    let ?fd = "cl_fd (cs ! p)"
    obtain m1 b1 cs1 where s: "bc_scan m p = Some (BSend p ?fd)"
      and m1: "table_ok m1 cs1" "rm_isInit m1" "rm_clients m1 = Some cs1" "length cs1 = length cs" "bc_buf b1 = buf"
      and body: "broadcast_client send buf p (m, bc_sent b, wire_of b) = Some (m1, bc_sent b1, wire_of b1)"
      and turn: "\<And>pc. bc_scan m1 (Suc p) = Some pc \<Longrightarrow> bc_turn send (m, b\<lparr>bc_pc := BSend p ?fd\<rparr>) = Some (m1, b1\<lparr>bc_pc := pc\<rparr>)"
      by (rule serve_round [OF Suc(3-5) p(1) True Suc(6), of send]) (rule that; assumption)
    have d: "d = length cs1 - Suc p" using p(3) m1(4) by simp
    from Suc(1) [OF d m1(1-3,5)] obtain pc k m' b' where
      r: "bc_scan m1 (Suc p) = Some pc" "k \<le> length cs - Suc p" "bc_turns k send (m1, b1\<lparr>bc_pc := pc\<rparr>) = Some (m', b')"
        "bc_pc b' = BDone" "c_for [Suc p..<length cs] (broadcast_client send buf) (m1, bc_sent b1, wire_of b1) =
          Some (m', bc_sent b', wire_of b')"
      unfolding m1(4) by blast
    have "bc_turns (Suc k) send (m, b\<lparr>bc_pc := BSend p ?fd\<rparr>) = Some (m', b')" using turn [OF r(1)] r(3) by simp
    moreover have "Suc k \<le> length cs - p" using r(2) p(1) by simp
    ultimately show ?thesis using s r(4,5) body p(2) by auto
  qed
qed

lemma broadcast_turns:
  assumes ok: "remote_ok m" "rm_isInit m" "rm_clients m = Some cs" and e: "entry_shape e" and b: "bc_start (Some e) m = Some (Inr b)"
  shows "\<exists>k m' b'. k \<le> length cs \<and> bc_turns k send (m, b) = Some (m', b') \<and> bc_pc b' = BDone \<and>
    SilogRemoteBroadcast send (Some e) (Some c) m = Some (SILOG_OK, Some (bc_sent b'), wire_of b', m')"
proof -
  let ?b = "\<lparr>bc_pc = BDone, bc_buf = entry_bytes e, bc_sent = 0, bc_wire = []\<rparr>"
  have t: "table_ok m cs" using ok by (simp add: remote_ok_def)
  from bc_turns_loop [OF t ok(2,3), of ?b "entry_bytes e" 0 send] obtain pc k m' b' where
    r: "bc_scan m 0 = Some pc" "k \<le> length cs" "bc_turns k send (m, ?b\<lparr>bc_pc := pc\<rparr>) = Some (m', b')" "bc_pc b' = BDone"
      "c_for [0..<length cs] (broadcast_client send (entry_bytes e)) (m, 0, []) = Some (m', bc_sent b', wire_of b')"
    by auto
  have n: "unat (rm_maxClients m) = length cs" using t by (simp add: table_ok_def)
  have nz: "rm_clientCount m \<noteq> 0" using b ok(2) by (auto simp: bc_start_def)
  have b0: "b = ?b\<lparr>bc_pc := pc\<rparr>"
    using b r(1) nz ok(2) broadcast_serial [OF e] length_entry_bytes [OF e] by (simp add: bc_start_def)
  have "SilogRemoteBroadcast send (Some e) (Some c) m = Some (SILOG_OK, Some (bc_sent b'), wire_of b', m')"
    using nz ok(2) n r(5) broadcast_serial [OF e] length_entry_bytes [OF e] by (simp add: SilogRemoteBroadcast_def)
  then show ?thesis using r(2-4) b0 by auto
qed

section \<open>Shutting down during a broadcast\<close>

text \<open>
  Shutting the service down is the other operation that takes the lock. When it runs while a frame is on
  its way to any slot but the last, the broadcast goes on with the client table that has been freed.
  \<open>SilogDaemonDeinit\<close> joins the writing thread first; a call of \<open>SilogDaemonRemoteDeinit\<close> by itself does not.
\<close>

lemma SilogRemoteBroadcast_deinit_race:
  assumes "remote_ok m" and "rm_isInit m" and "bc_pc b = BSend i fd" and "Suc i < unat (rm_maxClients m)"
  shows "\<exists>m'. SilogRemoteDeinit m = Some m' \<and> bc_turn send (m', b) = None"
proof -
  obtain m' where m': "SilogRemoteDeinit m = Some m'" "rm_clients m' = None" "rm_maxClients m' = rm_maxClients m"
    using deinit_ok [OF assms(1)] assms(2) by blast
  then have "bc_turn send (m', b) = None"
    using assms(3,4) by (auto simp: bc_turn_def bc_scan_def SilogRemoteCloseClientInternal_def split: prod.splits)
  then show ?thesis using m'(1) by blast
qed

section \<open>Properties\<close>

text \<open>
  C31. A broadcast during which clients connect: whatever \<open>SilogRemoteAccept\<close> does each time the
  broadcaster has released the lock, the broadcaster's next step is defined, the service stays
  consistent, no slot gets more than one frame (so the broadcast ends after at most one step per
  slot), every frame is an initial part of the serialised entry, a client whose socket did not fail
  is still connected, and the count is the number of complete frames. When the broadcast is over,
  every client that was connected when it began has been sent its frame on its own descriptor.
\<close>

theorem SilogRemoteBroadcast_interleaved:
  assumes "remote_ok m0" and "rm_isInit m0" and "rm_clients m0 = Some cs0" and "entry_shape e"
    and "bc_start (Some e) m0 = Some (Inr b0)" and "conc_reach m0 b0 m b"
  shows "\<exists>cs. remote_ok m \<and> rm_clients m = Some cs \<and> bc_turn send (m, b) \<noteq> None \<and>
    distinct (map fst (bc_wire b)) \<and> length (bc_wire b) \<le> length cs0 \<and>
    (\<forall>(i, fd, ret, out) \<in> set (bc_wire b). out = take (length out) (entry_bytes e) \<and>
       (ret = SILOG_OK \<longleftrightarrow> out = entry_bytes e) \<and>
       (ret = SILOG_OK \<or> ret = SILOG_NET_TIMEOUT \<longrightarrow> cl_active (cs ! i) \<and> cl_fd (cs ! i) = fd)) \<and>
    bc_sent b = length (filter (\<lambda>(i, fd, ret, out). out = entry_bytes e) (bc_wire b)) \<and>
    (bc_pc b = BDone \<longrightarrow> (\<forall>j < length cs0. cl_active (cs0 ! j) \<longrightarrow> (\<exists>r. (j, cl_fd (cs0 ! j), r) \<in> set (bc_wire b))))"
proof -
  let ?buf = "entry_bytes e"
  have u: "under_way cs0 ?buf m b" using conc_reach_under_way [OF assms(6) start_under_way [OF assms(1-5)]] .
  then obtain cs where c: "remote_ok m" "rm_clients m = Some cs" "at_slot (length cs0) b \<le> length cs0"
      and p: "passed cs0 ?buf (at_slot (length cs0) b) cs b" by (auto simp: under_way_def)
  have so: "sorted_wrt (<) (map fst (bc_wire b))" and lt: "\<forall>i \<in> fst ` set (bc_wire b). i < at_slot (length cs0) b"
    and fr: "\<forall>f \<in> set (bc_wire b). frame_ok cs ?buf f"
    and n: "bc_sent b = length (filter (\<lambda>(i, fd, ret, out). out = ?buf) (bc_wire b))"
    and all: "\<forall>j < length cs0. j < at_slot (length cs0) b \<longrightarrow> cl_active (cs0 ! j) \<longrightarrow> (\<exists>r. (j, cl_fd (cs0 ! j), r) \<in> set (bc_wire b))"
    using p unfolding passed_def by blast+
  have d: "distinct (map fst (bc_wire b))" using so by (simp add: strict_sorted_iff)
  have "set (map fst (bc_wire b)) \<subseteq> {..<length cs0}" using lt c(3) by (auto intro: order_less_le_trans)
  then have l: "length (bc_wire b) \<le> length cs0"
    using card_mono [of "{..<length cs0}" "set (map fst (bc_wire b))"] distinct_card [OF d] by simp
  have t: "bc_turn send (m, b) \<noteq> None" using turn_under_way [OF u, of send] by auto
  have f: "\<forall>(i, fd, ret, out) \<in> set (bc_wire b). out = take (length out) ?buf \<and> (ret = SILOG_OK \<longleftrightarrow> out = ?buf) \<and>
       (ret = SILOG_OK \<or> ret = SILOG_NET_TIMEOUT \<longrightarrow> cl_active (cs ! i) \<and> cl_fd (cs ! i) = fd)"
    using fr by (simp add: frame_ok_def case_prod_beta)
  have a: "bc_pc b = BDone \<longrightarrow> (\<forall>j < length cs0. cl_active (cs0 ! j) \<longrightarrow> (\<exists>r. (j, cl_fd (cs0 ! j), r) \<in> set (bc_wire b)))"
    using all by (simp add: at_slot_def)
  show ?thesis using c(1,2) t d l f n a by blast
qed

text \<open>A client connects in slot 0 while the frame for slot 1 is being sent.\<close>

theorem SilogRemoteBroadcast_interleaved_witness:
  "\<exists>b0 m b. bc_start (Some (blank_entry 5)) one_client = Some (Inr b0) \<and> conc_reach one_client b0 m b \<and>
     rm_clients m \<noteq> rm_clients one_client \<and> bc_pc b = BDone \<and> (\<exists>r. bc_wire b = [(1, 5, r)])"
proof -
  let ?e = "blank_entry 5" and ?send = "\<lambda>fd k n. Sent n" and ?fcntl = "\<lambda>fd c. 0"
  let ?new = "\<lparr>cl_fd = 7, cl_addr = (3, 4), cl_active = True\<rparr>"
  let ?cs = "[free_client, \<lparr>cl_fd = 5, cl_addr = (1, 2), cl_active = True\<rparr>]"
  let ?m = "one_client\<lparr>rm_fds := {3, 5, 7}, rm_clients := Some [?new, ?cs ! 1], rm_clientCount := 2\<rparr>"
  let ?b0 = "\<lparr>bc_pc = BSend 1 5, bc_buf = entry_bytes ?e, bc_sent = 0, bc_wire = []\<rparr>"
  have sh: "entry_shape ?e" using blank_entry_ok [of 5] by (simp add: entry_ok_def)
  have sc: "bc_scan one_client 0 = Some (BSend 1 5)"
    by (simp add: bc_scan_def one_client_def scan.simps [of _ _ 0] scan.simps [of _ _ "Suc 0"])
  have s: "bc_start (Some ?e) one_client = Some (Inr ?b0)"
    using broadcast_serial [OF sh] length_entry_bytes [OF sh] sc
    by (simp add: bc_start_def) (simp add: one_client_def)
  have a: "SilogRemoteAccept (Accepted 7 (3, 4)) ?fcntl one_client = Some (SILOG_OK, ?m)"
    by (simp add: SilogRemoteAccept_def one_client_def SilogRemoteFindFreeSlot_def find_free_loop.simps [of _ _ 0]
        SilogRemoteSetNonblock_def Let_def insert_commute word_le_nat_alt)
  have r1: "conc_reach one_client ?b0 ?m ?b0"
    by (rule conc_reach.accept [OF conc_reach.start _ a]) (simp add: accept_fresh_def one_client_def)
  have clients: "rm_clients one_client = Some ?cs" "rm_isInit one_client" by (simp_all add: one_client_def)
  obtain m b where t: "bc_turn ?send (?m, ?b0) = Some (m, b)"
    using SilogRemoteBroadcast_interleaved [OF one_client_ok clients(2,1) sh s r1, of ?send] by auto
  have out: "SilogRemoteSendFull (?send 5) (entry_bytes ?e) = (SILOG_OK, entry_bytes ?e)"
    using length_entry_bytes [OF sh]
    by (simp add: SilogRemoteSendFull_def send_loop.simps [of _ _ 0 0] send_loop.simps [of _ _ "Suc 0" 377])
  have fin: "bc_scan ?m 2 = Some BDone" by (simp add: bc_scan_def one_client_def scan.simps [of _ _ 2])
  have b: "bc_pc b = BDone" "bc_wire b = [(1, 5, SILOG_OK, entry_bytes ?e)]" "m = ?m"
    using t out fin by (auto simp: bc_turn_def eval_nat_numeral)
  have "rm_clients ?m \<noteq> rm_clients one_client" by (simp add: one_client_def)
  then show ?thesis using s conc_reach.turn [OF r1 t] b by blast
qed

end
