(* ===== verification/Silog_Time.thy ===== *)
theory Silog_Time
  imports Silog_Securec Silog_Codec
begin

text \<open>
  The clocks and the formatting of time stamps (\<open>silog_comm/src/silog_time.c\<close>), the names of the
  levels (\<open>silog_comm/src/silog_utils.c\<close>), and the decimal conversions of \<open>printf\<close> that the formats of
  the program use. The clocks have a definition for each platform, the Linux ones under the names of
  the code; the other components use those. What the system says of the time is an argument, and so is
  \<open>localtime_r\<close> (\<open>localtime_s\<close> on Windows), which fails or fills in a \<open>tm\<close>.
\<close>

section \<open>Decimal conversions\<close>

function dec :: "nat \<Rightarrow> byte list" where
  "dec n = (if n < 10 then [word_of_nat (48 + n)] else dec (n div 10) @ [word_of_nat (48 + n mod 10)])"
  by pat_completeness auto
termination
  by (relation "measure id") auto

declare dec.simps [simp del]

text \<open>\<open>%0wu\<close>, and \<open>%0wd\<close>, whose width counts the sign\<close>

definition dec_pad :: "nat \<Rightarrow> nat \<Rightarrow> byte list" where
  "dec_pad w n = replicate (w - length (dec n)) 48 @ dec n"

definition int_pad :: "nat \<Rightarrow> int \<Rightarrow> byte list" where
  "int_pad w i = (if i < 0 then chars ''-'' @ dec_pad (w - 1) (nat (- i)) else dec_pad w (nat i))"

definition dec_int :: "int \<Rightarrow> byte list" where
  "dec_int i = int_pad 0 i"

text \<open>A \<open>%s\<close> of an array without a terminator reads beyond it.\<close>

definition array_string :: "byte list \<Rightarrow> byte list c_result" where
  "array_string a = (if 0 \<in> set a then Some (cstr a) else None)"

text \<open>\<open>strncpy\<close> to the start of an array fills up with zeros and does not terminate a long string.\<close>

definition c_strncpy :: "byte list \<Rightarrow> byte list \<Rightarrow> nat \<Rightarrow> byte list c_result" where
  "c_strncpy dest src n = store dest 0 (take n src @ replicate (n - length src) 0)"

text \<open>\<open>atoi\<close>: blanks, a sign, digits; a number that is no \<open>int\<close> is undefined.\<close>

fun digits_value :: "nat \<Rightarrow> byte list \<Rightarrow> nat" where
  "digits_value acc [] = acc"
| "digits_value acc (c # cs) = (if 48 \<le> c \<and> c \<le> 57 then digits_value (10 * acc + (unat c - 48)) cs else acc)"

definition c_isspace :: "byte \<Rightarrow> bool" where
  "c_isspace b \<longleftrightarrow> b = 32 \<or> (9 \<le> b \<and> b \<le> 13)"

definition c_atoi :: "byte list \<Rightarrow> int c_result" where
  "c_atoi s =
     (let i = (case dropWhile c_isspace s of
          [] \<Rightarrow> 0
        | c # cs \<Rightarrow> if c = 45 then - int (digits_value 0 cs)
                    else if c = 43 then int (digits_value 0 cs)
                    else int (digits_value 0 (c # cs)))
      in if - (2 ^ 31) \<le> i \<and> i < 2 ^ 31 then Some i else None)"

section \<open>Clocks\<close>

text \<open>The time \<open>clock_gettime\<close> gives, seconds and nanoseconds, or \<open>None\<close> when it fails.\<close>

definition SilogGetNowMs :: "(u64 \<times> u64) option \<Rightarrow> u64" where
  "SilogGetNowMs ts = (case ts of None \<Rightarrow> 0 | Some (tv_sec, tv_nsec) \<Rightarrow> tv_sec * 1000 + tv_nsec div (1000 * 1000000))"

definition SilogGetMonoMs :: "(u64 \<times> u64) option \<Rightarrow> u64" where
  "SilogGetMonoMs ts = (case ts of None \<Rightarrow> 0 | Some (tv_sec, tv_nsec) \<Rightarrow> tv_sec * 1000 + tv_nsec div (1000 * 1000000))"

text \<open>
  On Windows the wall clock is a count of 100 ns since 1601, in two halves, and the monotonic clock a
  counter with a frequency that is queried once: the flag is taken by a compare-and-exchange, and the
  caller that wins it stores the frequency afterwards. The products are of type \<open>uint64_t\<close>; dividing
  by a frequency that is still zero is undefined.
\<close>

record FILETIME =
  dwLowDateTime :: u32
  dwHighDateTime :: u32

definition SilogGetNowMs_windows :: "FILETIME \<Rightarrow> u64" where
  "SilogGetNowMs_windows ft =
     (let QuadPart = ucast (dwHighDateTime ft) * 2 ^ 32 + ucast (dwLowDateTime ft) :: u64;
          EPOCH_DIFF = 116444736000000000
      in if QuadPart < EPOCH_DIFF then 0 else (QuadPart - EPOCH_DIFF) div 10000)"

record mono_statics =
  ms_freq :: u64
  ms_init :: bool

definition mono_statics0 :: mono_statics where
  "mono_statics0 = \<lparr>ms_freq = 0, ms_init = False\<rparr>"

text \<open>The three parts of a call: winning the flag, storing the frequency, reading the counter.\<close>

definition mono_claim :: "mono_statics \<Rightarrow> bool \<times> mono_statics" where
  "mono_claim s = (\<not> ms_init s, s\<lparr>ms_init := True\<rparr>)"

definition mono_query :: "u64 \<Rightarrow> mono_statics \<Rightarrow> mono_statics" where
  "mono_query freq s = s\<lparr>ms_freq := freq\<rparr>"

definition mono_read :: "u64 \<Rightarrow> mono_statics \<Rightarrow> u64 c_result" where
  "mono_read counter s = (if ms_freq s = 0 then None else Some (counter * 1000 div ms_freq s))"

definition SilogGetMonoMs_windows :: "u64 \<Rightarrow> u64 \<Rightarrow> mono_statics \<Rightarrow> u64 c_result \<times> mono_statics" where
  "SilogGetMonoMs_windows freq counter s =
     (case mono_claim s of (won, s1) \<Rightarrow>
        let s2 = (if won then mono_query freq s1 else s1) in (mono_read counter s2, s2))"

section \<open>Wall clock text\<close>

record tm =
  tm_year :: int
  tm_mon :: int
  tm_mday :: int
  tm_hour :: int
  tm_min :: int
  tm_sec :: int

definition wall_clock_text :: "tm \<Rightarrow> u32 \<Rightarrow> byte list" where
  "wall_clock_text t msec =
     int_pad 4 (tm_year t + 1900) @ chars ''-'' @ int_pad 2 (tm_mon t + 1) @ chars ''-'' @ int_pad 2 (tm_mday t) @
     chars '' '' @ int_pad 2 (tm_hour t) @ chars '':'' @ int_pad 2 (tm_min t) @ chars '':'' @ int_pad 2 (tm_sec t) @
     chars ''.'' @ dec_pad 4 (unat msec)"

definition SilogFormatWallClockMs ::
  "(u64 \<Rightarrow> tm option) \<Rightarrow> u64 \<Rightarrow> byte list option \<Rightarrow> u32 \<Rightarrow> byte list option c_result" where
  "SilogFormatWallClockMs localtime inputMs buffer bufferLen =
     (case buffer of
        None \<Rightarrow> Some None
      | Some b \<Rightarrow>
          if bufferLen = 0 then Some buffer
          else do {
            b1 \<leftarrow> store b 0 [0];
            let sec64 = inputMs div 1000;
            let msec = (ucast (inputMs mod 1000) :: u32);
            if sec64 > 0x7FFFFFFFFFFFFFFF then Some (Some b1)
            else (case localtime sec64 of
                None \<Rightarrow> Some (Some b1)
              | Some tm_info \<Rightarrow> do {
                  (n, b2) \<leftarrow> snprintf_s b1 (Some 0) (unat bufferLen) (unat (bufferLen - 1))
                    (Some (Rendered (wall_clock_text tm_info msec)));
                  if n < 0 then do { b3 \<leftarrow> store b2 (unat (bufferLen - 1)) [0]; Some (Some b3) }
                  else Some (Some b2)
                })
          })"

section \<open>Names of the levels and the thread id\<close>

text \<open>\<open>syscall\<close> returns a \<open>long\<close>, which is cut to the 32 bits of a \<open>pid_t\<close>.\<close>

definition SilogUtilsGetTid :: "u64 \<Rightarrow> u32" where
  "SilogUtilsGetTid gettid = ucast gettid"

definition SilogUtilsLevelToName :: "u32 \<Rightarrow> byte list" where
  "SilogUtilsLevelToName level =
     (let names = [chars ''DEBUG'', chars ''INFO'', chars ''WARN'', chars ''ERROR'', chars ''FATAL'']
      in if level \<ge> 5 then chars ''UNKNOWN'' else names ! unat level)"

section \<open>Formatting into an array\<close>

lemma vsnprintf_array:
  assumes "0 < n" and "0 \<notin> set t"
  shows "\<exists>b. c_vsnprintf (replicate n 0) 0 n (Rendered t) = Some (int (length t), b) \<and>
    length b = n \<and> b ! (n - 1) = 0 \<and> cstr b = take (n - 1) t"
proof -
  let ?b = "overwrite 0 (take (n - 1) t @ [0]) (replicate n 0)"
  have l: "length ?b = n" using assms(1) by simp
  have z: "0 \<notin> set (take (n - 1) t)" using assms(2) by (auto dest: in_set_takeD)
  then have s: "is_string ?b 0 (take (n - 1) t)" using assms(1) by (intro is_string_overwrite) auto
  have "?b ! (n - 1) = 0"
  proof (cases "n - 1 < length (take (n - 1) t @ [0])")
    case True
    then have "length (take (n - 1) t) = n - 1" by simp
    then show ?thesis by (subst nth_overwrite) (use assms(1) True in \<open>auto simp: nth_append\<close>)
  next
    case False
    then show ?thesis by (subst nth_overwrite) (use assms(1) in auto)
  qed
  then show ?thesis using l is_string_cstr [OF s] assms(1) by (auto simp: c_vsnprintf_def store_eq)
qed

section \<open>Digits\<close>

lemma length_chars [simp]: "length (chars s) = length s"
  by (simp add: chars_def)

lemma digit_nonzero: "n < 10 \<Longrightarrow> word_of_nat (48 + n) \<noteq> (0::byte)"
proof -
  assume "n < 10"
  then have "unat (word_of_nat (48 + n) :: byte) = 48 + n" by (simp add: unat_of_nat del: of_nat_add)
  then show ?thesis by (metis add_is_0 unsigned_0 zero_neq_numeral)
qed

lemma dec_no_zero: "0 \<notin> set (dec n)"
proof (induction n rule: dec.induct)
  case (1 n)
  then show ?case using digit_nonzero [of n] digit_nonzero [of "n mod 10"] by (subst dec.simps) auto
qed

lemma dec_pad_no_zero: "0 \<notin> set (dec_pad w n)"
  by (simp add: dec_pad_def dec_no_zero)

lemma length_dec_le: "0 < w \<Longrightarrow> n < 10 ^ w \<Longrightarrow> length (dec n) \<le> w"
proof (induction w arbitrary: n)
  case (Suc w)
  show ?case
  proof (cases "n < 10")
    case True
    then show ?thesis by (subst dec.simps) simp
  next
    case False
    then have w: "0 < w" using Suc.prems by (cases w) auto
    have "n div 10 < 10 ^ w" using Suc.prems by (simp add: less_mult_imp_div_less mult.commute)
    from Suc.IH [OF w this] show ?thesis using False by (subst dec.simps) simp
  qed
qed simp

lemma length_dec_pad: "0 < w \<Longrightarrow> n < 10 ^ w \<Longrightarrow> length (dec_pad w n) = w"
  using length_dec_le [of w n] by (simp add: dec_pad_def)


lemma int_pad_no_zero: "0 \<notin> set (int_pad w i)"
  by (simp add: int_pad_def dec_pad_no_zero chars_def)

lemma length_int_pad: "0 < w \<Longrightarrow> 0 \<le> i \<Longrightarrow> i < 10 ^ w \<Longrightarrow> length (int_pad w i) = w"
  by (simp add: int_pad_def length_dec_pad nat_less_iff)

lemma wall_clock_text_no_zero: "0 \<notin> set (wall_clock_text t msec)"
  by (simp add: wall_clock_text_def dec_pad_no_zero int_pad_no_zero chars_def)

text \<open>A calendar time with fields in the usual ranges.\<close>

definition tm_ok :: "tm \<Rightarrow> bool" where
  "tm_ok t \<longleftrightarrow> 0 \<le> tm_year t + 1900 \<and> tm_year t + 1900 < 10000 \<and> 0 \<le> tm_mon t \<and> tm_mon t < 12 \<and>
     0 < tm_mday t \<and> tm_mday t \<le> 31 \<and> 0 \<le> tm_hour t \<and> tm_hour t < 24 \<and> 0 \<le> tm_min t \<and> tm_min t < 60 \<and>
     0 \<le> tm_sec t \<and> tm_sec t \<le> 60"

lemma length_wall_clock_text:
  assumes "tm_ok t" and "unat msec < 1000"
  shows "length (wall_clock_text t msec) = 24"
  using assms by (simp add: wall_clock_text_def tm_ok_def length_int_pad length_dec_pad)

lemma FormatWallClockMs_run:
  assumes "0 < bufferLen" and "unat bufferLen \<le> length b"
  shows "\<exists>b'. SilogFormatWallClockMs localtime inputMs (Some b) bufferLen = Some (Some b') \<and>
    is_string b' 0 (take (unat bufferLen - 1)
      (case localtime (inputMs div 1000) of None \<Rightarrow> [] | Some t \<Rightarrow> wall_clock_text t (ucast (inputMs mod 1000)))) \<and>
    same_outside b b' 0 (unat bufferLen)"
proof -
  have n: "0 < unat bufferLen" using assms(1) by (simp add: word_less_nat_alt)
  then have m: "unat (bufferLen - 1) = unat bufferLen - 1" using assms(1) by (simp add: unat_sub_one)
  let ?b1 = "overwrite 0 [0] b"
  have b1: "store b 0 [0] = Some ?b1" "length ?b1 = length b" using n assms(2) by (simp_all add: store_eq)
  have s1: "same_outside b ?b1 0 (unat bufferLen)" using n assms(2) by (intro same_outside_overwrite) auto
  have "unat (inputMs div 1000) \<le> unat (0x7FFFFFFFFFFFFFFF :: u64)"
    using unsigned_less [where 'a = nat, of inputMs] by (simp add: unat_div_distrib)
  then have sec: "\<not> inputMs div 1000 > 0x7FFFFFFFFFFFFFFF" by (simp add: word_le_nat_alt not_less)
  show ?thesis
  proof (cases "localtime (inputMs div 1000)")
    case None
    have "is_string ?b1 0 []" using n assms(2) by (cases b) (auto simp: is_string_def overwrite_def)
    then show ?thesis using None b1 s1 sec assms(1) by (auto simp: SilogFormatWallClockMs_def Let_def)
  next
    case (Some t)
    let ?t = "wall_clock_text t (ucast (inputMs mod 1000))" and ?k = "unat bufferLen - 1"
    obtain b2 where b2: "snprintf_s ?b1 (Some 0) (unat bufferLen) ?k (Some (Rendered ?t)) = Some (int (length ?t), b2)"
        "is_string b2 0 (take ?k ?t)" "same_outside ?b1 b2 0 (Suc ?k)"
      using snprintf_s_bounded [of 0 "unat bufferLen" ?b1 ?t ?k ?k] n assms(2) b1(2) wall_clock_text_no_zero
      by auto
    have "same_outside b b2 0 (unat bufferLen)" using b2(3) s1 n by (auto intro: same_outside_trans)
    then show ?thesis
      using Some b1 sec assms(1) b2(1,2) by (auto simp: SilogFormatWallClockMs_def Let_def m)
  qed
qed

section \<open>Properties\<close>

text \<open>
  \<open>SilogFormatWallClockMs\<close> on a buffer with room for the text: it is filled with the terminated
  text, which for every calendar time with a four-digit year has 24 characters, the milliseconds as
  four digits of which the first is zero. The header promises three digits: a 24-byte buffer, enough
  for what is promised, loses the last digit.
\<close>

lemma SilogFormatWallClockMs_text:
  assumes "localtime (inputMs div 1000) = Some t" and "tm_ok t" and "24 \<le> unat bufferLen" and "unat bufferLen \<le> length b"
  shows "\<exists>b' date. SilogFormatWallClockMs localtime inputMs (Some b) bufferLen = Some (Some b') \<and>
    length date = 19 \<and> wall_clock_text t (ucast (inputMs mod 1000)) = date @ chars ''.0'' @ dec_pad 3 (unat (inputMs mod 1000)) \<and>
    is_string b' 0 (if unat bufferLen = 24 then date @ chars ''.0'' @ butlast (dec_pad 3 (unat (inputMs mod 1000)))
      else date @ chars ''.0'' @ dec_pad 3 (unat (inputMs mod 1000))) \<and>
    same_outside b b' 0 (unat bufferLen)"
proof -
  let ?ms = "inputMs mod 1000" and ?k = "unat bufferLen - 1"
  let ?m3 = "dec_pad 3 (unat ?ms)"
  define date where "date = take 19 (wall_clock_text t (ucast ?ms))"
  have ms: "unat ?ms < 1000" by (simp add: unat_mod_distrib)
  then have c: "unat (ucast ?ms :: u32) = unat ?ms" by (simp add: unsigned_ucast_eq take_bit_nat_eq_self)
  have l3: "length (dec (unat ?ms)) \<le> 3" "length ?m3 = 3"
    using ms length_dec_le [of 3] length_dec_pad [of 3] by auto
  have "4 - length (dec (unat ?ms)) = Suc (3 - length (dec (unat ?ms)))" using l3(1) by simp
  then have "dec_pad 4 (unat ?ms) = chars ''0'' @ ?m3" by (simp add: dec_pad_def chars_def)
  then have wct: "wall_clock_text t (ucast ?ms) = date @ chars ''.0'' @ ?m3"
    using assms(2) c by (simp add: date_def wall_clock_text_def tm_ok_def length_int_pad chars_def)
  have len: "length date = 19" using length_wall_clock_text [OF assms(2)] ms c by (simp add: date_def)
  have "0 < bufferLen" using assms(3) by (simp add: word_less_nat_alt)
  from FormatWallClockMs_run [OF this assms(4), of localtime inputMs] assms(1) obtain b' where
    b': "SilogFormatWallClockMs localtime inputMs (Some b) bufferLen = Some (Some b')"
      "is_string b' 0 (take ?k (wall_clock_text t (ucast ?ms)))" "same_outside b b' 0 (unat bufferLen)"
    by auto
  have "take ?k (wall_clock_text t (ucast ?ms)) =
      (if unat bufferLen = 24 then date @ chars ''.0'' @ butlast ?m3 else date @ chars ''.0'' @ ?m3)"
    unfolding wct using assms(3) l3(2) len by (auto simp: butlast_conv_take chars_def)
  then show ?thesis using b' wct len by (intro exI [of _ b'] exI [of _ date]) simp
qed

text \<open>
  The clock functions drop the milliseconds: whatever nanoseconds the system reports, the value is
  a whole number of seconds. The header promises milliseconds.
\<close>

lemma SilogGetNowMs_whole_seconds:
  assumes "unat tv_nsec < 10 ^ 9"
  shows "SilogGetNowMs (Some (tv_sec, tv_nsec)) = tv_sec * 1000 \<and> SilogGetMonoMs (Some (tv_sec, tv_nsec)) = tv_sec * 1000"
proof -
  have "unat (tv_nsec div (1000 * 1000000)) = 0" using assms by (simp add: unat_div_distrib)
  then have "tv_nsec div (1000 * 1000000) = 0" by (metis unat_eq_zero)
  then show ?thesis by (simp add: SilogGetNowMs_def SilogGetMonoMs_def)
qed

text \<open>The Windows wall clock does give milliseconds, and zero before 1970.\<close>

lemma SilogGetNowMs_windows_value:
  "unat (SilogGetNowMs_windows ft) =
     (unat (dwHighDateTime ft) * 2 ^ 32 + unat (dwLowDateTime ft) - 116444736000000000) div 10000"
proof -
  let ?q = "ucast (dwHighDateTime ft) * 2 ^ 32 + ucast (dwLowDateTime ft) :: u64"
  have "unat (dwHighDateTime ft) < 2 ^ 32" "unat (dwLowDateTime ft) < 2 ^ 32"
    using unsigned_less [where 'a = nat, of "dwHighDateTime ft"] unsigned_less [where 'a = nat, of "dwLowDateTime ft"]
    by simp_all
  then have q: "unat ?q = unat (dwHighDateTime ft) * 2 ^ 32 + unat (dwLowDateTime ft)"
    by (simp add: unat_word_ariths unsigned_ucast_eq take_bit_nat_eq_self)
  show ?thesis
  proof (cases "?q < 116444736000000000")
    case True
    then have "unat ?q < 116444736000000000" by (simp add: word_less_nat_alt)
    then show ?thesis using True unfolding q by (simp add: SilogGetNowMs_windows_def)
  next
    case False
    then have "(116444736000000000 :: u64) \<le> ?q" by simp
    then have "unat (?q - 116444736000000000) = unat ?q - 116444736000000000" by (simp add: unat_sub)
    then show ?thesis using False unfolding q by (simp add: SilogGetNowMs_windows_def unat_div_distrib)
  qed
qed

text \<open>
  The Windows monotonic clock, called by one thread at a time with the same frequency, is right as long
  as a thousand times the counter fits into 64 bits. The comment in the code promises to divide first;
  the code multiplies first, so that beyond this point the clock starts again from zero.
\<close>

lemma SilogGetMonoMs_windows_value:
  assumes "0 < unat freq" and "s = mono_statics0 \<or> s = \<lparr>ms_freq = freq, ms_init = True\<rparr>"
  shows "SilogGetMonoMs_windows freq counter s = (Some (counter * 1000 div freq), \<lparr>ms_freq = freq, ms_init = True\<rparr>) \<and>
    (unat counter * 1000 < 2 ^ 64 \<longrightarrow> unat (counter * 1000 div freq) = unat counter * 1000 div unat freq)"
proof -
  have "freq \<noteq> 0" using assms(1) by auto
  moreover have "unat (counter * 1000) = unat counter * 1000" if "unat counter * 1000 < 2 ^ 64"
    using that by (simp add: unat_word_ariths)
  ultimately show ?thesis using assms(2)
    by (auto simp: SilogGetMonoMs_windows_def mono_claim_def mono_query_def mono_read_def mono_statics0_def unat_div_distrib)
qed

lemma SilogGetMonoMs_windows_restarts:
  "fst (SilogGetMonoMs_windows 10000000 18446744073709551 mono_statics0) = Some 1844674407370 \<and>
   fst (SilogGetMonoMs_windows 10000000 18446744073709552 mono_statics0) = Some 0"
  by (simp add: SilogGetMonoMs_windows_def mono_claim_def mono_query_def mono_read_def mono_statics0_def)

text \<open>
  The flag is set before the frequency is known: a second thread that calls in between divides by zero.
\<close>

lemma SilogGetMonoMs_windows_race:
  "fst (SilogGetMonoMs_windows freq counter (snd (mono_claim mono_statics0))) = None"
  by (simp add: SilogGetMonoMs_windows_def mono_claim_def mono_read_def mono_statics0_def)

end
