(* ===== verification/Silog_Prelog.thy ===== *)
theory Silog_Prelog
  imports Silog_Securec
begin

text \<open>
  The diagnostics of SiLog itself (\<open>silog_comm/src/silog_prelog.c\<close>): a file that every line is
  appended and flushed to, with the standard output as a substitute. The global \<open>g_prelogMgr\<close> is a
  record, the open file its path; every function holds the mutex, so it is one step. The line is
  built in a 1024-byte buffer by the functions of \<open>Silog_Securec\<close>. The text of \<open>errno\<close>, what the
  format makes of the arguments and the previous contents of the stack buffer are arguments.
\<close>

section \<open>State\<close>

record SilogPrelogConfig_t =
  pc_path :: "byte list"
  pc_minLevel :: u32
  pc_enableStdout :: bool

record SilogPrelogManager_t =
  pm_file :: "byte list option"
  pm_config :: SilogPrelogConfig_t
  pm_initialized :: bool

record prelog_out =
  po_files :: "byte list \<rightharpoonup> byte list"
  po_stdout :: "byte list"

definition SILOG_PRELOG_LEVEL_DEBUG :: u32 where "SILOG_PRELOG_LEVEL_DEBUG = 0"
definition SILOG_PRELOG_LEVEL_INFO :: u32 where "SILOG_PRELOG_LEVEL_INFO = 1"
definition SILOG_PRELOG_LEVEL_WARNING :: u32 where "SILOG_PRELOG_LEVEL_WARNING = 2"
definition SILOG_PRELOG_LEVEL_ERROR :: u32 where "SILOG_PRELOG_LEVEL_ERROR = 3"

lemmas prelog_levels = SILOG_PRELOG_LEVEL_DEBUG_def SILOG_PRELOG_LEVEL_INFO_def
  SILOG_PRELOG_LEVEL_WARNING_def SILOG_PRELOG_LEVEL_ERROR_def

definition g_prelogMgr :: SilogPrelogManager_t where
  "g_prelogMgr = \<lparr>pm_file = None, pm_config = \<lparr>pc_path = [], pc_minLevel = 0, pc_enableStdout = False\<rparr>,
     pm_initialized = False\<rparr>"

section \<open>Operations\<close>

definition SilogPrelogLevelToString :: "u32 \<Rightarrow> byte list" where
  "SilogPrelogLevelToString level =
     (if level = SILOG_PRELOG_LEVEL_DEBUG then chars ''DEBUG''
      else if level = SILOG_PRELOG_LEVEL_INFO then chars ''INFO''
      else if level = SILOG_PRELOG_LEVEL_WARNING then chars ''WARNING''
      else if level = SILOG_PRELOG_LEVEL_ERROR then chars ''ERROR''
      else chars ''UNKNOWN'')"

definition SilogPrelogInit ::
  "(byte list \<Rightarrow> bool) \<Rightarrow> SilogPrelogConfig_t option \<Rightarrow> SilogPrelogManager_t \<Rightarrow> prelog_out \<Rightarrow>
   ErrorCode \<times> SilogPrelogManager_t \<times> prelog_out" where
  "SilogPrelogInit fopen config g out =
     (if pm_initialized g then (SILOG_OK, g, out)
      else
        let c = (case config of Some c \<Rightarrow> c
                 | None \<Rightarrow> \<lparr>pc_path = chars ''/tmp/silog_prelog.txt'', pc_minLevel = SILOG_PRELOG_LEVEL_DEBUG,
                     pc_enableStdout = False\<rparr>)
        in if fopen (pc_path c)
           then (SILOG_OK, g\<lparr>pm_config := c, pm_file := Some (pc_path c), pm_initialized := True\<rparr>,
                 out\<lparr>po_files := (po_files out)(pc_path c \<mapsto> [])\<rparr>)
           else (SILOG_OK, g\<lparr>pm_config := c\<lparr>pc_enableStdout := True\<rparr>, pm_file := None, pm_initialized := True\<rparr>, out))"

definition SilogPrelogDeinit :: "SilogPrelogManager_t \<Rightarrow> SilogPrelogManager_t" where
  "SilogPrelogDeinit g = (if \<not> pm_initialized g then g else g\<lparr>pm_file := None, pm_initialized := False\<rparr>)"

text \<open>\<open>fputs\<close> and \<open>fflush\<close> to the file and to the standard output.\<close>

definition prelog_emit :: "byte list \<Rightarrow> SilogPrelogManager_t \<Rightarrow> prelog_out \<Rightarrow> prelog_out" where
  "prelog_emit line g out =
     (let out1 = (case pm_file g of None \<Rightarrow> out
                  | Some p \<Rightarrow> out\<lparr>po_files := (po_files out)(p := map_option (\<lambda>bs. bs @ line) (po_files out p))\<rparr>)
      in if pc_enableStdout (pm_config g) then out1\<lparr>po_stdout := po_stdout out1 @ line\<rparr> else out1)"

definition prelog_prefix :: "byte list \<Rightarrow> byte list \<Rightarrow> u32 \<Rightarrow> byte list" where
  "prelog_prefix err modname level =
     chars ''['' @ err @ chars ''] ['' @ modname @ chars ''] ['' @ SilogPrelogLevelToString level @ chars ''] ''"

text \<open>
  The message is formatted behind the prefix, whose full length \<open>snprintf_s\<close> returns also when it
  was cut off; a prefix of more than 1024 characters leaves the buffer. The newline is a string of
  its own, here behind the buffer.
\<close>

definition SilogPrelogWriteV ::
  "byte list \<Rightarrow> byte list \<Rightarrow> byte list option \<Rightarrow> u32 \<Rightarrow> rendered option \<Rightarrow> SilogPrelogManager_t \<Rightarrow> prelog_out \<Rightarrow>
   (ErrorCode \<times> prelog_out) c_result" where
  "SilogPrelogWriteV buf err modname level fmt g out =
     (case (modname, fmt) of
        (Some md, Some r) \<Rightarrow>
          if \<not> pm_initialized g then Some (SILOG_TRANS_NOT_INIT, out)
          else if level < pc_minLevel (pm_config g) then Some (SILOG_OK, out)
          else do {
            (n, b1) \<leftarrow> snprintf_s buf (Some 0) 1024 1023 (Some (Rendered (prelog_prefix err md level)));
            (n', b2) \<leftarrow> (if n < 0 then do { b \<leftarrow> store b1 0 [0]; Some (0, b) } else Some (nat n, b1));
            pos \<leftarrow> ptr_add b2 0 n';
            (msg_len, b3) \<leftarrow> c_vsnprintf b2 pos (1024 - n') r;
            if msg_len < 0 then Some (SILOG_STR_ERR, out)
            else do {
              (e, b4) \<leftarrow> strncat_s (b3 @ [10, 0]) (Some 0) 1024 (Some 1024) 1;
              Some (SILOG_OK, prelog_emit (cstr b4) g out)
            }
          }
      | _ \<Rightarrow> Some (SILOG_NULL_PTR, out))"

definition SilogPrelogWrite ::
  "byte list \<Rightarrow> byte list \<Rightarrow> byte list option \<Rightarrow> u32 \<Rightarrow> rendered option \<Rightarrow> SilogPrelogManager_t \<Rightarrow> prelog_out \<Rightarrow>
   (ErrorCode \<times> prelog_out) c_result" where
  "SilogPrelogWrite buf err modname level fmt g out = SilogPrelogWriteV buf err modname level fmt g out"

text \<open>The macros and the module names of \<open>silog_prelog.h\<close>.\<close>

definition SILOG_PRELOG_D ::
  "byte list \<Rightarrow> byte list \<Rightarrow> byte list option \<Rightarrow> rendered option \<Rightarrow> SilogPrelogManager_t \<Rightarrow> prelog_out \<Rightarrow>
   (ErrorCode \<times> prelog_out) c_result" where
  "SILOG_PRELOG_D buf err modname fmt g out = SilogPrelogWrite buf err modname SILOG_PRELOG_LEVEL_DEBUG fmt g out"

definition SILOG_PRELOG_I ::
  "byte list \<Rightarrow> byte list \<Rightarrow> byte list option \<Rightarrow> rendered option \<Rightarrow> SilogPrelogManager_t \<Rightarrow> prelog_out \<Rightarrow>
   (ErrorCode \<times> prelog_out) c_result" where
  "SILOG_PRELOG_I buf err modname fmt g out = SilogPrelogWrite buf err modname SILOG_PRELOG_LEVEL_INFO fmt g out"

definition SILOG_PRELOG_W ::
  "byte list \<Rightarrow> byte list \<Rightarrow> byte list option \<Rightarrow> rendered option \<Rightarrow> SilogPrelogManager_t \<Rightarrow> prelog_out \<Rightarrow>
   (ErrorCode \<times> prelog_out) c_result" where
  "SILOG_PRELOG_W buf err modname fmt g out = SilogPrelogWrite buf err modname SILOG_PRELOG_LEVEL_WARNING fmt g out"

definition SILOG_PRELOG_E ::
  "byte list \<Rightarrow> byte list \<Rightarrow> byte list option \<Rightarrow> rendered option \<Rightarrow> SilogPrelogManager_t \<Rightarrow> prelog_out \<Rightarrow>
   (ErrorCode \<times> prelog_out) c_result" where
  "SILOG_PRELOG_E buf err modname fmt g out = SilogPrelogWrite buf err modname SILOG_PRELOG_LEVEL_ERROR fmt g out"

definition SILOG_PRELOG_LOGGER :: "byte list" where
  "SILOG_PRELOG_LOGGER = chars ''logger''"

definition SILOG_PRELOG_DAEMON :: "byte list" where
  "SILOG_PRELOG_DAEMON = chars ''daemon''"

definition SILOG_PRELOG_CAT :: "byte list" where
  "SILOG_PRELOG_CAT = chars ''cat''"

definition SILOG_PRELOG_EXE :: "byte list" where
  "SILOG_PRELOG_EXE = chars ''exe''"

definition SILOG_PRELOG_COMM :: "byte list" where
  "SILOG_PRELOG_COMM = chars ''comm''"

definition SilogPrelogIsInitialized :: "SilogPrelogManager_t \<Rightarrow> bool" where
  "SilogPrelogIsInitialized g = pm_initialized g"

definition SilogPrelogGetFile :: "SilogPrelogManager_t \<Rightarrow> byte list option" where
  "SilogPrelogGetFile g = pm_file g"

section \<open>The line\<close>

definition prelog_line :: "byte list \<Rightarrow> byte list \<Rightarrow> u32 \<Rightarrow> byte list \<Rightarrow> byte list" where
  "prelog_line err modname level t =
     (let full = prelog_prefix err modname level @ t
      in take 1023 full @ (if length full < 1023 then [10] else []))"

lemma prefix_no_zero:
  "0 \<notin> set err \<Longrightarrow> 0 \<notin> set modname \<Longrightarrow> 0 \<notin> set (prelog_prefix err modname level)"
  by (simp add: prelog_prefix_def SilogPrelogLevelToString_def chars_def)

lemma is_string_extend: "is_string b 0 s \<Longrightarrow> is_string (b @ c) 0 s"
  by (auto simp: is_string_def seg_def nth_append)

lemma prelog_write_line:
  assumes "pm_initialized g" and "pc_minLevel (pm_config g) \<le> level" and "length buf = 1024"
    and "0 \<notin> set err" and "0 \<notin> set md" and "0 \<notin> set t" and "length (prelog_prefix err md level) \<le> 1023"
  shows "SilogPrelogWriteV buf err (Some md) level (Some (Rendered t)) g out =
    Some (SILOG_OK, prelog_emit (prelog_line err md level t) g out)"
proof -
  let ?p = "prelog_prefix err md level"
  have pz: "0 \<notin> set ?p" using assms(4,5) by (rule prefix_no_zero)
  obtain b1 where b1: "snprintf_s buf (Some 0) 1024 1023 (Some (Rendered ?p)) = Some (int (length ?p), b1)"
      "is_string b1 0 ?p" "same_outside buf b1 0 1024"
    using snprintf_s_bounded [of 0 1024 buf ?p 1023 1023] assms(3,7) pz by auto
  have len1: "length b1 = 1024" using b1(3) assms(3) by (simp add: same_outside_def)
  let ?t = "take (1023 - length ?p) t"
  have fit: "length ?p + length (?t @ [0]) \<le> length b1" using len1 assms(7) by simp
  let ?b3 = "overwrite (length ?p) (?t @ [0]) b1"
  have vs: "c_vsnprintf b1 (length ?p) (1024 - length ?p) (Rendered t) = Some (int (length t), ?b3)"
    using fit assms(7) by (simp add: c_vsnprintf_def store_eq)
  have full: "take 1023 (?p @ t) = ?p @ ?t" using assms(7) by simp
  have zt: "0 \<notin> set ?t" using assms(6) by (auto dest: in_set_takeD)
  have s3: "is_string ?b3 0 (?p @ ?t)"
    using is_string_append [OF b1(2), of ?t] fit zt by simp
  let ?m = "?b3 @ [10, 0]"
  have l3: "length ?b3 = 1024" using fit len1 by simp
  have sm: "is_string ?m 0 (?p @ ?t)" by (rule is_string_extend [OF s3])
  have nl: "is_string ?m 1024 [10]" using l3 by (simp add: is_string_def seg_def nth_append)
  have ln: "length (?p @ ?t) < 1024" using assms(7) by simp
  note sc = strncat_s_eq [OF sm nl, of 1024 1]
  have fin: "\<exists>e b4. strncat_s ?m (Some 0) 1024 (Some 1024) 1 = Some (e, b4) \<and> cstr b4 = prelog_line err md level t"
  proof (cases "length (?p @ ?t) + 1 < 1024")
    case True
    then have all: "?t = t" "length (?p @ t) < 1023" using assms(7) by auto
    have "is_string (overwrite (length (?p @ ?t)) ([10] @ [0]) ?m) 0 ((?p @ ?t) @ [10])"
      using is_string_append [OF sm, of "[10]"] True l3 by simp
    then have "cstr (overwrite (length (?p @ ?t)) ([10] @ [0]) ?m) = ?p @ t @ [10]"
      using is_string_cstr [of _ 0] all(1) by fastforce
    then show ?thesis using sc True l3 ln all by (simp add: prelog_line_def Let_def)
  next
    case False
    then have "length (?p @ t) \<ge> 1023" "cstr ?m = ?p @ ?t" using assms(7) is_string_cstr [OF sm] by auto
    then show ?thesis using sc False l3 ln full by (simp add: prelog_line_def Let_def)
  qed
  then show ?thesis
    using assms(1,2,7) b1(1) vs len1 by (auto simp: SilogPrelogWriteV_def ptr_add_eq not_less [symmetric])
qed

section \<open>Sequences of messages\<close>

type_synonym prelog_msg = "byte list \<times> u32 \<times> byte list"

fun prelog_writes ::
  "byte list \<Rightarrow> byte list \<Rightarrow> prelog_msg list \<Rightarrow> SilogPrelogManager_t \<Rightarrow> prelog_out \<Rightarrow> prelog_out c_result" where
  "prelog_writes buf err [] g out = Some out"
| "prelog_writes buf err ((md, level, t) # msgs) g out = do {
     (r, out') \<leftarrow> SilogPrelogWrite buf err (Some md) level (Some (Rendered t)) g out;
     prelog_writes buf err msgs g out'
   }"

definition msg_ok :: "byte list \<Rightarrow> prelog_msg \<Rightarrow> bool" where
  "msg_ok err = (\<lambda>(md, level, t). 0 \<notin> set md \<and> 0 \<notin> set t \<and> length (prelog_prefix err md level) \<le> 1023)"

definition lines_from :: "byte list \<Rightarrow> u32 \<Rightarrow> prelog_msg list \<Rightarrow> byte list" where
  "lines_from err minLevel msgs =
     concat (map (\<lambda>(md, level, t). prelog_line err md level t) (filter (\<lambda>(md, level, t). minLevel \<le> level) msgs))"

lemma prelog_writes_lines:
  assumes "pm_initialized g" and "pm_file g = Some p" and "\<not> pc_enableStdout (pm_config g)"
    and "length buf = 1024" and "0 \<notin> set err" and "\<forall>x \<in> set msgs. msg_ok err x" and "po_files out p = Some bs"
  shows "\<exists>out'. prelog_writes buf err msgs g out = Some out' \<and> po_stdout out' = po_stdout out \<and>
    po_files out' p = Some (bs @ lines_from err (pc_minLevel (pm_config g)) msgs) \<and>
    (\<forall>q. q \<noteq> p \<longrightarrow> po_files out' q = po_files out q)"
  using assms(6,7)
proof (induction msgs arbitrary: out bs)
  case Nil
  then show ?case by (auto simp: lines_from_def)
next
  case (Cons x msgs)
  obtain md level t where x: "x = (md, level, t)" by (cases x) auto
  show ?case
  proof (cases "pc_minLevel (pm_config g) \<le> level")
    case True
    let ?l = "prelog_line err md level t"
    let ?o = "out\<lparr>po_files := (po_files out)(p \<mapsto> bs @ ?l)\<rparr>"
    have "SilogPrelogWrite buf err (Some md) level (Some (Rendered t)) g out = Some (SILOG_OK, prelog_emit ?l g out)"
      unfolding SilogPrelogWrite_def
      using Cons.prems(1) x by (intro prelog_write_line [OF assms(1) True assms(4,5)]) (auto simp: msg_ok_def)
    then have w: "SilogPrelogWrite buf err (Some md) level (Some (Rendered t)) g out = Some (SILOG_OK, ?o)"
      using assms(2,3) Cons.prems(2) by (simp add: prelog_emit_def)
    have "\<exists>out'. prelog_writes buf err msgs g ?o = Some out' \<and> po_stdout out' = po_stdout out \<and>
        po_files out' p = Some (bs @ ?l @ lines_from err (pc_minLevel (pm_config g)) msgs) \<and>
        (\<forall>q. q \<noteq> p \<longrightarrow> po_files out' q = po_files out q)"
      using Cons.IH [of ?o "bs @ ?l"] Cons.prems(1) by simp
    then show ?thesis using w True x by (simp add: lines_from_def)
  next
    case False
    then have "SilogPrelogWrite buf err (Some md) level (Some (Rendered t)) g out = Some (SILOG_OK, out)"
      using assms(1) by (simp add: SilogPrelogWrite_def SilogPrelogWriteV_def not_le)
    then show ?thesis using Cons.IH [OF _ Cons.prems(2)] Cons.prems(1) False x by (simp add: lines_from_def)
  qed
qed

text \<open>
  The modules of the program under the macros: a message of one of them fits the buffer as soon as the
  text of \<open>errno\<close> is shorter than 1000 bytes, and below the configured level the macro does nothing.
\<close>

lemma prelog_modules_fit:
  assumes "md \<in> {SILOG_PRELOG_LOGGER, SILOG_PRELOG_DAEMON, SILOG_PRELOG_CAT, SILOG_PRELOG_EXE, SILOG_PRELOG_COMM}"
    and "length err < 1000" and "0 \<notin> set t"
  shows "msg_ok err (md, level, t)"
  using assms
  by (auto simp: msg_ok_def prelog_prefix_def SilogPrelogLevelToString_def chars_def SILOG_PRELOG_LOGGER_def
      SILOG_PRELOG_DAEMON_def SILOG_PRELOG_CAT_def SILOG_PRELOG_EXE_def SILOG_PRELOG_COMM_def)

lemma prelog_macros_silent:
  assumes "pm_initialized g" and "pc_minLevel (pm_config g) = SILOG_PRELOG_LEVEL_ERROR"
  shows "SILOG_PRELOG_D buf err (Some md) (Some r) g out = Some (SILOG_OK, out)"
    and "SILOG_PRELOG_I buf err (Some md) (Some r) g out = Some (SILOG_OK, out)"
    and "SILOG_PRELOG_W buf err (Some md) (Some r) g out = Some (SILOG_OK, out)"
  using assms
  by (simp_all add: SILOG_PRELOG_D_def SILOG_PRELOG_I_def SILOG_PRELOG_W_def SilogPrelogWrite_def SilogPrelogWriteV_def
      SILOG_PRELOG_LEVEL_DEBUG_def SILOG_PRELOG_LEVEL_INFO_def SILOG_PRELOG_LEVEL_WARNING_def SILOG_PRELOG_LEVEL_ERROR_def)

section \<open>Properties\<close>

text \<open>
  C39. Opening the diagnostics and writing any sequence of messages whose prefixes fit the buffer: the
  file holds exactly the lines of the messages at or above the configured level, in order, each cut
  to 1023 characters, and ended by a newline only when there is room for it; no write leaves the
  buffer, and nothing goes to the standard output.
\<close>

theorem SilogPrelog_file_contents:
  assumes "\<not> pm_initialized g" and "fopen (pc_path c)" and "\<not> pc_enableStdout c"
    and "length buf = 1024" and "0 \<notin> set err" and "\<forall>x \<in> set msgs. msg_ok err x"
  shows "\<exists>g' out1 out'. SilogPrelogInit fopen (Some c) g out = (SILOG_OK, g', out1) \<and>
    prelog_writes buf err msgs g' out1 = Some out' \<and>
    po_files out' = (po_files out)(pc_path c \<mapsto> lines_from err (pc_minLevel c) msgs) \<and> po_stdout out' = po_stdout out"
proof -
  let ?g = "g\<lparr>pm_config := c, pm_file := Some (pc_path c), pm_initialized := True\<rparr>"
  let ?o = "out\<lparr>po_files := (po_files out)(pc_path c \<mapsto> [])\<rparr>"
  have i: "SilogPrelogInit fopen (Some c) g out = (SILOG_OK, ?g, ?o)"
    using assms(1,2) by (simp add: SilogPrelogInit_def)
  obtain out' where w: "prelog_writes buf err msgs ?g ?o = Some out'" "po_stdout out' = po_stdout out"
      "po_files out' (pc_path c) = Some (lines_from err (pc_minLevel c) msgs)"
      "\<forall>q. q \<noteq> pc_path c \<longrightarrow> po_files out' q = po_files out q"
    using prelog_writes_lines [of ?g "pc_path c" buf err msgs ?o "[]"] assms(3-6) by auto
  then have "po_files out' = (po_files out)(pc_path c \<mapsto> lines_from err (pc_minLevel c) msgs)" by (auto simp: fun_eq_iff)
  then show ?thesis using i w(1,2) by auto
qed

theorem SilogPrelog_file_contents_witness:
  "\<exists>g' out1 out'. SilogPrelogInit (\<lambda>_. True) (Some \<lparr>pc_path = [112], pc_minLevel = 1, pc_enableStdout = False\<rparr>)
      g_prelogMgr \<lparr>po_files = Map.empty, po_stdout = []\<rparr> = (SILOG_OK, g', out1) \<and>
    prelog_writes (replicate 1024 0) (chars ''Success'') [(chars ''comm'', 3, chars ''bad''), (chars ''comm'', 0, chars ''dbg'')] g' out1 = Some out' \<and>
    po_files out' [112] = Some (chars ''[Success] [comm] [ERROR] bad'' @ [10])"
proof -
  let ?msgs = "[(chars ''comm'', 3, chars ''bad''), (chars ''comm'', 0, chars ''dbg'')] :: prelog_msg list"
  have "lines_from (chars ''Success'') 1 ?msgs = chars ''[Success] [comm] [ERROR] bad'' @ [10]" by code_simp
  moreover have "\<forall>x \<in> set ?msgs. msg_ok (chars ''Success'') x" by code_simp
  moreover have "0 \<notin> set (chars ''Success'')" by code_simp
  ultimately show ?thesis
    using SilogPrelog_file_contents [of g_prelogMgr "\<lambda>_. True" "\<lparr>pc_path = [112], pc_minLevel = 1, pc_enableStdout = False\<rparr>"
        "replicate 1024 0" "chars ''Success''" ?msgs "\<lparr>po_files = Map.empty, po_stdout = []\<rparr>"]
    by (auto simp: g_prelogMgr_def)
qed

end
