(* ===== verification/Silog_Ipc.thy ===== *)
theory Silog_Ipc
  imports Silog_Securec
begin

text \<open>
  The datagram socket between the logging library and the daemon (\<open>silog_comm/src/silog_ipc.c\<close>). The
  global \<open>g_silogIpcAgent\<close> is a record; \<open>ia_fds\<close> is the part of the process's descriptor table the
  module owns, and \<open>ia_file\<close> what the path of the socket in the file system leads to. The outcomes of
  the system calls are arguments; \<open>connect\<close> and \<open>bind\<close> are given the address that the code builds.
  Sending returns the datagrams that went out.
\<close>

section \<open>State\<close>

datatype SilogIpcType_t = SILOG_IPC_TYPE_UNIX_DGRAM | SILOG_IPC_TYPE_UNIX_STREAM

text \<open>
  The file at the path of the socket: there is none, it is the file of some other process (another
  daemon, or one that has crashed), or it is the address of a socket of this process.
\<close>

datatype socket_file = NoFile | OtherFile | OwnFile int

record SilogIpcAgent =
  ia_isInit :: bool
  ia_sendFd :: int
  ia_recvFd :: int
  ia_fds :: "int set"
  ia_file :: socket_file

definition g_silogIpcAgent :: SilogIpcAgent where
  "g_silogIpcAgent = \<lparr>ia_isInit = False, ia_sendFd = 0, ia_recvFd = 0, ia_fds = {}, ia_file = NoFile\<rparr>"

text \<open>\<open>DgramRefused\<close> is a failure with \<open>ECONNREFUSED\<close> or \<open>ENOENT\<close>.\<close>

datatype dgram_send = DgramSent | DgramRefused | DgramError
datatype dgram_recv = DgramNone | DgramData "byte list"

record ipc_env =
  ie_socket :: int
  ie_fcntl :: "int \<Rightarrow> fcntl_cmd \<Rightarrow> int"
  ie_connect :: "mem \<Rightarrow> int"
  ie_bind :: "mem \<Rightarrow> int"
  ie_send :: dgram_send
  ie_resend :: dgram_send

definition ipc_close :: "int \<Rightarrow> SilogIpcAgent \<Rightarrow> SilogIpcAgent" where
  "ipc_close fd g = g\<lparr>ia_fds := ia_fds g - {fd}\<rparr>"

definition ipc_open :: "int \<Rightarrow> SilogIpcAgent \<Rightarrow> SilogIpcAgent" where
  "ipc_open fd g = g\<lparr>ia_fds := insert fd (ia_fds g)\<rparr>"

text \<open>\<open>unlink\<close> of the path; a socket that is bound to it stays open and can be reached no more.\<close>

definition ipc_unlink :: "SilogIpcAgent \<Rightarrow> SilogIpcAgent" where
  "ipc_unlink g = g\<lparr>ia_file := NoFile\<rparr>"

text \<open>
  The path as it stands in \<open>addr.sun_path\<close>, an array of 108 bytes that has been cleared, and what
  \<open>snprintf_s\<close> returned; the call is within its bounds (lemma \<open>sun_path_defined\<close> below).
\<close>

definition LOGD_SOCKET_PATH :: "byte list" where
  "LOGD_SOCKET_PATH = chars ''/tmp/logd.sock''"

definition sun_path :: "int \<times> mem" where
  "sun_path = the (snprintf_s (replicate 108 0) (Some 0) 108 (108 - 1) (Some (Rendered LOGD_SOCKET_PATH)))"

section \<open>Datagram sockets\<close>

definition setNonblock :: "(int \<Rightarrow> fcntl_cmd \<Rightarrow> int) \<Rightarrow> int \<Rightarrow> ErrorCode" where
  "setNonblock fcntl fd =
     (let flags = fcntl fd F_GETFL
      in if flags < 0 then SILOG_NET_FILE_ERROR
         else if fcntl fd (F_SETFL (flags OR 2048)) < 0 then SILOG_NET_FILE_ERROR
         else SILOG_OK)"

definition SilogIpcDgramClientInit :: "ipc_env \<Rightarrow> SilogIpcAgent \<Rightarrow> ErrorCode \<times> SilogIpcAgent" where
  "SilogIpcDgramClientInit env g =
     (let fd = ie_socket env
      in if fd < 0 then (SILOG_NET_FILE_CREATE, g)
         else
           let g1 = ipc_open fd g; ret = setNonblock (ie_fcntl env) fd
           in if ret \<noteq> SILOG_OK then (ret, ipc_close fd g1)
              else (case sun_path of (ret, addr) \<Rightarrow>
                if ret < 0 then (SILOG_STR_ERR, ipc_close fd g1)
                else if ie_connect env addr < 0 then (SILOG_NET_CONNECT, ipc_close fd g1)
                else (SILOG_OK, g1\<lparr>ia_sendFd := fd\<rparr>)))"

definition SilogIpcDgramClientClose :: "SilogIpcAgent \<Rightarrow> SilogIpcAgent" where
  "SilogIpcDgramClientClose g =
     (let fd = ia_sendFd g; g1 = g\<lparr>ia_sendFd := -1\<rparr> in if fd \<ge> 0 then ipc_close fd g1 else g1)"

definition SilogIpcDgramClientSend ::
  "ipc_env \<Rightarrow> byte list \<Rightarrow> u32 \<Rightarrow> SilogIpcAgent \<Rightarrow> ErrorCode \<times> byte list list \<times> SilogIpcAgent" where
  "SilogIpcDgramClientSend env data len g =
     (if ia_sendFd g < 0 then (SILOG_NET_FILE_ERROR, [], g)
      else (case ie_send env of
          DgramSent \<Rightarrow> (SILOG_OK, [take (unat len) data], g)
        | DgramError \<Rightarrow> (SILOG_NET_SEND, [], g)
        | DgramRefused \<Rightarrow>
            (case SilogIpcDgramClientInit env (SilogIpcDgramClientClose g) of (ret, g') \<Rightarrow>
               if ret = SILOG_OK \<and> ie_resend env = DgramSent then (SILOG_OK, [take (unat len) data], g')
               else (SILOG_NET_SEND, [], g'))))"

definition SilogIpcDgramServerInit :: "ipc_env \<Rightarrow> SilogIpcAgent \<Rightarrow> ErrorCode \<times> SilogIpcAgent" where
  "SilogIpcDgramServerInit env g =
     (let g0 = ipc_unlink g; fd = ie_socket env
      in if fd < 0 then (SILOG_NET_FILE_CREATE, g0)
         else
           let g1 = ipc_open fd g0; ret = setNonblock (ie_fcntl env) fd
           in if ret \<noteq> SILOG_OK then (ret, ipc_close fd g1)
              else (case sun_path of (ret, addr) \<Rightarrow>
                if ret < 0 then (SILOG_STR_ERR, ipc_close fd g1)
                else if ie_bind env addr < 0 then (SILOG_NET_FILE_OPEN, ipc_close fd g1)
                else (SILOG_OK, g1\<lparr>ia_file := OwnFile fd, ia_recvFd := fd\<rparr>)))"

text \<open>The number of bytes and the caller's block, into which at most \<open>len\<close> bytes are written.\<close>

definition SilogIpcDgramServerRecv ::
  "dgram_recv \<Rightarrow> byte list \<Rightarrow> u32 \<Rightarrow> SilogIpcAgent \<Rightarrow> int \<times> byte list" where
  "SilogIpcDgramServerRecv recv data len g =
     (if ia_recvFd g < 0 then (0, data)
      else (case recv of
          DgramNone \<Rightarrow> (-1, data)
        | DgramData bs \<Rightarrow> (int (length (take (unat len) bs)), overwrite 0 (take (unat len) bs) data)))"

definition SilogIpcDgramServerClose :: "SilogIpcAgent \<Rightarrow> SilogIpcAgent" where
  "SilogIpcDgramServerClose g =
     (let fd = ia_recvFd g; g1 = g\<lparr>ia_recvFd := -1\<rparr>
      in ipc_unlink (if fd \<ge> 0 then ipc_close fd g1 else g1))"

section \<open>Public operations\<close>

definition SilogIpcClientInit :: "ipc_env \<Rightarrow> SilogIpcAgent \<Rightarrow> ErrorCode \<times> SilogIpcAgent" where
  "SilogIpcClientInit env g =
     (if \<not> ia_isInit g then (SILOG_NOT_IMPLEMENTED, g) else SilogIpcDgramClientInit env g)"

definition SilogIpcClientSend ::
  "ipc_env \<Rightarrow> byte list \<Rightarrow> u32 \<Rightarrow> SilogIpcAgent \<Rightarrow> ErrorCode \<times> byte list list \<times> SilogIpcAgent" where
  "SilogIpcClientSend env data len g =
     (if \<not> ia_isInit g then (SILOG_NOT_IMPLEMENTED, [], g) else SilogIpcDgramClientSend env data len g)"

definition SilogIpcClientClose :: "SilogIpcAgent \<Rightarrow> SilogIpcAgent" where
  "SilogIpcClientClose g = (if \<not> ia_isInit g then g else SilogIpcDgramClientClose g)"

definition SilogIpcServerInit :: "ipc_env \<Rightarrow> SilogIpcAgent \<Rightarrow> ErrorCode \<times> SilogIpcAgent" where
  "SilogIpcServerInit env g =
     (if \<not> ia_isInit g then (SILOG_NOT_IMPLEMENTED, g) else SilogIpcDgramServerInit env g)"

text \<open>The error code is returned as a positive number of bytes.\<close>

definition SilogIpcServerRecv :: "dgram_recv \<Rightarrow> byte list \<Rightarrow> u32 \<Rightarrow> SilogIpcAgent \<Rightarrow> int \<times> byte list" where
  "SilogIpcServerRecv recv data len g =
     (if \<not> ia_isInit g then (error_value SILOG_NOT_IMPLEMENTED, data) else SilogIpcDgramServerRecv recv data len g)"

definition SilogIpcServerClose :: "SilogIpcAgent \<Rightarrow> SilogIpcAgent" where
  "SilogIpcServerClose g =
     (if \<not> ia_isInit g then g else (SilogIpcDgramServerClose g)\<lparr>ia_isInit := False\<rparr>)"

definition SilogIpcIsInit :: "SilogIpcAgent \<Rightarrow> bool" where
  "SilogIpcIsInit g = ia_isInit g"

definition SilogIpcInit :: "SilogIpcType_t \<Rightarrow> SilogIpcAgent \<Rightarrow> SilogIpcAgent" where
  "SilogIpcInit type g =
     (if ia_isInit g then g
      else if type = SILOG_IPC_TYPE_UNIX_DGRAM then g\<lparr>ia_isInit := True, ia_sendFd := -1, ia_recvFd := -1\<rparr>
      else g)"

section \<open>The address\<close>

definition logd_address :: mem where
  "logd_address = LOGD_SOCKET_PATH @ replicate 94 0"

lemma length_LOGD_SOCKET_PATH: "length LOGD_SOCKET_PATH = 14"
  by (simp add: LOGD_SOCKET_PATH_def chars_def)

text \<open>Both ends format the same terminated path, and the formatting never fails.\<close>

lemma sun_path_defined:
  "snprintf_s (replicate 108 0) (Some 0) 108 (108 - 1) (Some (Rendered LOGD_SOCKET_PATH)) = Some (14, logd_address)"
proof -
  have "0 # replicate 92 0 @ [0] = replicate 94 (0 :: byte)" by code_simp
  then show ?thesis
    using snprintf_s_eq [of 0 108 "replicate 108 0" 107 107 LOGD_SOCKET_PATH] length_LOGD_SOCKET_PATH
    by (simp add: logd_address_def overwrite_def)
qed

lemma sun_path_eq [simp]: "sun_path = (14, logd_address)"
  by (simp only: sun_path_def sun_path_defined option.sel)

lemma logd_address_string: "is_string logd_address 0 LOGD_SOCKET_PATH"
proof -
  have "0 \<notin> set LOGD_SOCKET_PATH" by (simp add: LOGD_SOCKET_PATH_def chars_def)
  then show ?thesis by (simp add: is_string_def logd_address_def seg_def nth_append length_LOGD_SOCKET_PATH)
qed

section \<open>Descriptors\<close>

text \<open>A descriptor that the system hands out is not in use.\<close>

definition fresh_socket :: "ipc_env \<Rightarrow> SilogIpcAgent \<Rightarrow> bool" where
  "fresh_socket env g \<longleftrightarrow> ie_socket env \<notin> ia_fds g"

fun own_socket :: "socket_file \<Rightarrow> int option" where
  "own_socket (OwnFile fd) = Some fd"
| "own_socket _ = None"

text \<open>The descriptors that are open are the ones the module knows; a file of its own leads to its server.\<close>

definition fds_ok :: "SilogIpcAgent \<Rightarrow> bool" where
  "fds_ok g \<longleftrightarrow> (if ia_isInit g
     then ia_fds g = {fd. 0 \<le> fd \<and> (fd = ia_sendFd g \<or> fd = ia_recvFd g)} \<and>
       (0 \<le> ia_sendFd g \<longrightarrow> ia_recvFd g \<noteq> ia_sendFd g)
     else ia_fds g = {})"

definition file_ok :: "SilogIpcAgent \<Rightarrow> bool" where
  "file_ok g \<longleftrightarrow> own_socket (ia_file g) = None \<or>
     (ia_isInit g \<and> 0 \<le> ia_recvFd g \<and> own_socket (ia_file g) = Some (ia_recvFd g))"

definition ipc_ok :: "SilogIpcAgent \<Rightarrow> bool" where
  "ipc_ok g \<longleftrightarrow> fds_ok g \<and> file_ok g"

lemma close_open: "fd \<notin> ia_fds g \<Longrightarrow> ipc_close fd (ipc_open fd g) = g"
  by (simp add: ipc_close_def ipc_open_def)

lemma setNonblock_codes: "setNonblock f fd = SILOG_OK \<or> setNonblock f fd = SILOG_NET_FILE_ERROR"
  by (simp add: setNonblock_def Let_def)

text \<open>Opening either side: a new descriptor, or nothing has changed.\<close>

lemma DgramClientInit_cases:
  assumes "fresh_socket env g" and "SilogIpcDgramClientInit env g = (r, g')"
  shows "(r = SILOG_OK \<and> 0 \<le> ie_socket env \<and> g' = (ipc_open (ie_socket env) g)\<lparr>ia_sendFd := ie_socket env\<rparr>) \<or>
    (r \<noteq> SILOG_OK \<and> g' = g)"
  using assms close_open [of "ie_socket env" g] setNonblock_codes [of "ie_fcntl env" "ie_socket env"]
  by (auto simp: SilogIpcDgramClientInit_def Let_def fresh_socket_def split: if_splits)

lemma DgramServerInit_cases:
  assumes "fresh_socket env g" and "SilogIpcDgramServerInit env g = (r, g')"
  shows "(r = SILOG_OK \<and> 0 \<le> ie_socket env \<and> g' = (ipc_open (ie_socket env) g)\<lparr>ia_file := OwnFile (ie_socket env), ia_recvFd := ie_socket env\<rparr>) \<or>
    (r \<noteq> SILOG_OK \<and> g' = ipc_unlink g)"
  using assms close_open [of "ie_socket env" "ipc_unlink g"] setNonblock_codes [of "ie_fcntl env" "ie_socket env"]
  by (auto simp: SilogIpcDgramServerInit_def Let_def fresh_socket_def ipc_unlink_def ipc_open_def split: if_splits)

lemma ClientInit_ok:
  assumes "ipc_ok g" and "ia_sendFd g < 0" and "fresh_socket env g" and "SilogIpcClientInit env g = (r, g')"
  shows "ipc_ok g'"
proof (cases "ia_isInit g")
  case False
  then show ?thesis using assms(1,4) by (simp add: SilogIpcClientInit_def)
next
  case True
  then have "SilogIpcDgramClientInit env g = (r, g')" using assms(4) by (simp add: SilogIpcClientInit_def)
  from DgramClientInit_cases [OF assms(3) this] show ?thesis
  proof
    assume o: "r = SILOG_OK \<and> 0 \<le> ie_socket env \<and> g' = (ipc_open (ie_socket env) g)\<lparr>ia_sendFd := ie_socket env\<rparr>"
    have fds: "ia_fds g = {fd. 0 \<le> fd \<and> fd = ia_recvFd g}" using assms(1,2) True by (auto simp: ipc_ok_def fds_ok_def)
    have "ie_socket env \<noteq> ia_recvFd g" using assms(3) o unfolding fresh_socket_def fds by auto
    then have "fds_ok g'" using o True fds by (simp add: fds_ok_def ipc_open_def) auto
    then show ?thesis using o assms(1) by (simp add: ipc_ok_def file_ok_def ipc_open_def)
  qed (use assms(1) in simp)
qed

lemma ClientClose_ok:
  assumes "ipc_ok g"
  shows "ipc_ok (SilogIpcClientClose g) \<and> (ia_isInit g \<longrightarrow> ia_sendFd (SilogIpcClientClose g) = -1)"
  using assms
  by (auto simp: SilogIpcClientClose_def SilogIpcDgramClientClose_def Let_def ipc_ok_def fds_ok_def file_ok_def ipc_close_def)

lemma ServerInit_ok:
  assumes "ipc_ok g" and "ia_recvFd g < 0" and "fresh_socket env g" and "SilogIpcServerInit env g = (r, g')"
  shows "ipc_ok g'"
proof (cases "ia_isInit g")
  case False
  then show ?thesis using assms(1,4) by (simp add: SilogIpcServerInit_def)
next
  case True
  then have "SilogIpcDgramServerInit env g = (r, g')" using assms(4) by (simp add: SilogIpcServerInit_def)
  from DgramServerInit_cases [OF assms(3) this] show ?thesis
  proof
    assume o: "r = SILOG_OK \<and> 0 \<le> ie_socket env \<and>
      g' = (ipc_open (ie_socket env) g)\<lparr>ia_file := OwnFile (ie_socket env), ia_recvFd := ie_socket env\<rparr>"
    have fds: "ia_fds g = {fd. 0 \<le> fd \<and> fd = ia_sendFd g}" using assms(1,2) True by (auto simp: ipc_ok_def fds_ok_def)
    have "ie_socket env \<noteq> ia_sendFd g" using assms(3) o unfolding fresh_socket_def fds by auto
    then have "fds_ok g'" using o True fds by (simp add: fds_ok_def ipc_open_def) auto
    then show ?thesis using o True by (simp add: ipc_ok_def file_ok_def ipc_open_def)
  qed (use assms(1) in \<open>simp add: ipc_ok_def fds_ok_def file_ok_def ipc_unlink_def\<close>)
qed

lemma ClientSend_ok:
  assumes "ipc_ok g" and "fresh_socket env (SilogIpcDgramClientClose g)" and "SilogIpcClientSend env data len g = (r, out, g')"
  shows "ipc_ok g'"
proof (cases "ia_isInit g \<and> 0 \<le> ia_sendFd g \<and> ie_send env = DgramRefused")
  case True
  let ?g = "SilogIpcDgramClientClose g"
  obtain r1 g1 where i: "SilogIpcDgramClientInit env ?g = (r1, g1)" by fastforce
  have c: "ia_isInit ?g" "ia_sendFd ?g < 0" "ipc_ok ?g"
    using True ClientClose_ok [OF assms(1)]
    by (auto simp: SilogIpcClientClose_def SilogIpcDgramClientClose_def Let_def ipc_close_def)
  then have "ipc_ok g1" using ClientInit_ok [OF c(3,2) assms(2), of r1 g1] i by (simp add: SilogIpcClientInit_def)
  moreover have "g' = g1"
    using assms(3) i True by (auto simp: SilogIpcClientSend_def SilogIpcDgramClientSend_def split: if_splits)
  ultimately show ?thesis by simp
next
  case False
  then show ?thesis using assms(1,3)
    by (auto simp: SilogIpcClientSend_def SilogIpcDgramClientSend_def split: if_splits dgram_send.splits)
qed

text \<open>
  What a process may do: the library and the tools open the client side only when it is closed, and
  the server side only once; a process that closes the server has no client open. At any time another
  process may remove the file of the socket or put its own in its place.
\<close>

inductive ipc_reach :: "SilogIpcAgent \<Rightarrow> bool" where
  start: "ipc_reach g_silogIpcAgent"
| elsewhere: "ipc_reach g \<Longrightarrow> own_socket f = None \<Longrightarrow> ipc_reach (g\<lparr>ia_file := f\<rparr>)"
| init: "ipc_reach g \<Longrightarrow> ipc_reach (SilogIpcInit t g)"
| clientInit: "ipc_reach g \<Longrightarrow> ia_sendFd g < 0 \<Longrightarrow> fresh_socket env g \<Longrightarrow> SilogIpcClientInit env g = (r, g') \<Longrightarrow>
    ipc_reach g'"
| clientSend: "ipc_reach g \<Longrightarrow> fresh_socket env (SilogIpcDgramClientClose g) \<Longrightarrow>
    SilogIpcClientSend env data len g = (r, out, g') \<Longrightarrow> ipc_reach g'"
| clientClose: "ipc_reach g \<Longrightarrow> ipc_reach (SilogIpcClientClose g)"
| serverInit: "ipc_reach g \<Longrightarrow> ia_recvFd g < 0 \<Longrightarrow> fresh_socket env g \<Longrightarrow> SilogIpcServerInit env g = (r, g') \<Longrightarrow>
    ipc_reach g'"
| serverClose: "ipc_reach g \<Longrightarrow> ia_sendFd g < 0 \<Longrightarrow> ipc_reach (SilogIpcServerClose g)"

lemma ipc_reach_ok: "ipc_reach g \<Longrightarrow> ipc_ok g"
proof (induction rule: ipc_reach.induct)
  case start
  show ?case by (simp add: ipc_ok_def fds_ok_def file_ok_def g_silogIpcAgent_def)
next
  case (init g t)
  then show ?case by (auto simp: SilogIpcInit_def ipc_ok_def fds_ok_def file_ok_def)
next
  case (elsewhere g f)
  then show ?case by (simp add: ipc_ok_def fds_ok_def file_ok_def)
next
  case (serverClose g)
  then show ?case
    by (auto simp: SilogIpcServerClose_def SilogIpcDgramServerClose_def Let_def ipc_ok_def fds_ok_def file_ok_def
      ipc_close_def ipc_unlink_def)
qed (use ClientInit_ok ServerInit_ok ClientSend_ok ClientClose_ok in blast)+

lemma ClientSend_outcome:
  assumes "SilogIpcClientSend env data len g = (r, out, g')"
  shows "out = (if r = SILOG_OK then [take (unat len) data] else [])"
  using assms
  by (auto simp: SilogIpcClientSend_def SilogIpcDgramClientSend_def split: if_splits dgram_send.splits prod.splits)

text \<open>
  The file of the socket: a server that has started is reachable under the path, one that has not has
  removed whatever stood there; closing removes the file, also one that another process has put there.
\<close>

lemma SilogIpcServerInit_file:
  assumes "ia_isInit g" and "fresh_socket env g" and "SilogIpcServerInit env g = (r, g')"
  shows "ia_file g' = (if r = SILOG_OK then OwnFile (ia_recvFd g') else NoFile) \<and> (r = SILOG_OK \<longrightarrow> 0 \<le> ia_recvFd g')"
proof -
  have "SilogIpcDgramServerInit env g = (r, g')" using assms by (simp add: SilogIpcServerInit_def)
  from DgramServerInit_cases [OF assms(2) this] show ?thesis by (auto simp: ipc_unlink_def)
qed

lemma SilogIpcServerClose_file:
  "ia_file (SilogIpcServerClose g) = (if ia_isInit g then NoFile else ia_file g)"
  by (simp add: SilogIpcServerClose_def SilogIpcDgramServerClose_def ipc_unlink_def Let_def)

section \<open>Properties\<close>

definition refused_env :: ipc_env where
  "refused_env = \<lparr>ie_socket = 7, ie_fcntl = (\<lambda>_ _. 0), ie_connect = (\<lambda>_. -1), ie_bind = (\<lambda>_. 0), ie_send = DgramRefused,
     ie_resend = DgramSent\<rparr>"

definition good_env :: ipc_env where
  "good_env = \<lparr>ie_socket = 5, ie_fcntl = (\<lambda>_ _. 0), ie_connect = (\<lambda>_. 0), ie_bind = (\<lambda>_. 0), ie_send = DgramSent,
     ie_resend = DgramSent\<rparr>"

text \<open>
  C22. In every state a process can reach, sending delivers the datagram exactly once when it returns
  \<open>SILOG_OK\<close> and not at all otherwise, also across a reconnection; the descriptors the module has
  open are exactly the ones it still knows, before and after, and closing the client leaves only the
  server's.
\<close>

theorem SilogIpc_send_exact:
  assumes "ipc_reach g" and "fresh_socket env (SilogIpcDgramClientClose g)"
    and "SilogIpcClientSend env data len g = (r, out, g')"
  shows "out = (if r = SILOG_OK then [take (unat len) data] else []) \<and>
    (ia_isInit g' \<longrightarrow> ia_fds g' = {fd. 0 \<le> fd \<and> (fd = ia_sendFd g' \<or> fd = ia_recvFd g')} \<and>
       ia_fds (SilogIpcClientClose g') = {fd. 0 \<le> fd \<and> fd = ia_recvFd g'})"
proof -
  have ok: "ipc_ok g'" using ClientSend_ok [OF ipc_reach_ok [OF assms(1)] assms(2,3)] .
  have "ia_fds (SilogIpcClientClose g') = {fd. 0 \<le> fd \<and> fd = ia_recvFd g'}" if "ia_isInit g'"
    using ok that by (auto simp: ipc_ok_def fds_ok_def SilogIpcClientClose_def SilogIpcDgramClientClose_def Let_def ipc_close_def)
  then show ?thesis using ok ClientSend_outcome [OF assms(3)] by (auto simp: ipc_ok_def fds_ok_def)
qed

theorem SilogIpc_send_exact_witness:
  "\<exists>g g'. ipc_reach g \<and> SilogIpcClientSend good_env [1, 2, 3] 2 g = (SILOG_OK, [[1, 2]], g') \<and>
     ia_fds (SilogIpcClientClose g') = {}"
proof -
  let ?g1 = "SilogIpcInit SILOG_IPC_TYPE_UNIX_DGRAM g_silogIpcAgent"
  let ?g = "?g1\<lparr>ia_sendFd := 5, ia_fds := {5}\<rparr>"
  have 1: "ipc_reach ?g1" by (intro ipc_reach.intros)
  have "SilogIpcClientInit good_env ?g1 = (SILOG_OK, ?g)"
    by (simp add: SilogIpcClientInit_def SilogIpcDgramClientInit_def SilogIpcInit_def g_silogIpcAgent_def good_env_def
      setNonblock_def ipc_open_def)
  then have g: "ipc_reach ?g"
    by (rule ipc_reach.clientInit [OF 1, rotated 2])
      (simp_all add: SilogIpcInit_def g_silogIpcAgent_def good_env_def fresh_socket_def)
  have s: "SilogIpcClientSend good_env [1, 2, 3] 2 ?g = (SILOG_OK, [[1, 2]], ?g)"
    by (simp add: SilogIpcClientSend_def SilogIpcDgramClientSend_def SilogIpcInit_def g_silogIpcAgent_def good_env_def)
  have "fresh_socket good_env (SilogIpcDgramClientClose ?g)"
    by (simp add: fresh_socket_def good_env_def SilogIpcDgramClientClose_def ipc_close_def)
  from SilogIpc_send_exact [OF g this s] g s show ?thesis
    by (intro exI [of _ ?g]) (auto simp: SilogIpcInit_def g_silogIpcAgent_def)
qed

text \<open>
  C38. A send that is refused while the daemon is down closes the socket; when the reconnection fails
  too, the client is left closed, and from then on every send fails without an attempt to reconnect,
  whatever the system would answer: the comment in the code expects the reconnection to cover a
  restart of the daemon.
\<close>

theorem SilogIpcClientSend_never_recovers:
  assumes "ia_isInit g" and "0 \<le> ia_sendFd g" and "ie_send env = DgramRefused" and "ie_connect env logd_address < 0"
    and "SilogIpcClientSend env data len g = (r, out, g')"
  shows "r = SILOG_NET_SEND \<and> ia_sendFd g' = -1 \<and>
    (\<forall>env' data' len'. SilogIpcClientSend env' data' len' g' = (SILOG_NET_FILE_ERROR, [], g'))"
proof -
  have "SilogIpcDgramClientInit env (SilogIpcDgramClientClose g) = (r', h) \<Longrightarrow>
      r' \<noteq> SILOG_OK \<and> ia_sendFd h = -1 \<and> ia_isInit h" for r' h
    using assms(1,2,4) setNonblock_codes [of "ie_fcntl env" "ie_socket env"]
    by (auto simp: SilogIpcDgramClientInit_def SilogIpcDgramClientClose_def Let_def ipc_open_def ipc_close_def
      split: if_splits)
  then have "r = SILOG_NET_SEND \<and> ia_sendFd g' = -1 \<and> ia_isInit g'"
    using assms by (auto simp: SilogIpcClientSend_def SilogIpcDgramClientSend_def split: prod.splits if_splits)
  then show ?thesis by (simp add: SilogIpcClientSend_def SilogIpcDgramClientSend_def)
qed

theorem SilogIpcClientSend_never_recovers_witness:
  "\<exists>r out g'. SilogIpcClientSend refused_env [1] 1 \<lparr>ia_isInit = True, ia_sendFd = 3, ia_recvFd = -1, ia_fds = {3}, ia_file = OtherFile\<rparr> = (r, out, g') \<and>
     SilogIpcClientSend good_env [2] 1 g' = (SILOG_NET_FILE_ERROR, [], g')"
proof -
  let ?g = "\<lparr>ia_isInit = True, ia_sendFd = 3, ia_recvFd = -1, ia_fds = {3}, ia_file = OtherFile\<rparr>"
  obtain r out g' where s: "SilogIpcClientSend refused_env [1] 1 ?g = (r, out, g')" by (rule prod_cases3)
  have "\<forall>env' data' len'. SilogIpcClientSend env' data' len' g' = (SILOG_NET_FILE_ERROR, [], g')"
    using SilogIpcClientSend_never_recovers [OF _ _ _ _ s] by (simp add: refused_env_def)
  then show ?thesis using s by blast
qed

end
