(* ===== verification/Silog_Logger.thy ===== *)
theory Silog_Logger
  imports Silog_Mpsc Silog_Time Silog_Prelog Silog_Ipc
begin

text \<open>
  The logging library inside an application (\<open>silog_logger/src/silog_logger.c\<close>): a log call builds
  an entry and pushes it into the library's ring, a thread takes entries from the ring and sends them
  to the daemon. The state holds the global \<open>g_logEntryMgr\<close> and those of the modules it uses. Each
  call of \<open>silogLog\<close> and each turn of the thread is one step; their interleaving on the ring is
  the subject of \<open>Silog_Mpsc_Conc\<close>.
\<close>

section \<open>Entries in memory\<close>

text \<open>
  The ring and the socket carry the bytes of the structure: the fields in order, least significant
  byte first, and five bytes of padding at the end.
\<close>

definition le16 :: "u16 \<Rightarrow> byte list" where
  "le16 v = [octet 0 v, octet 8 v]"

definition de16 :: "byte list \<Rightarrow> u16" where
  "de16 b = ucast (b ! 0) OR push_bit 8 (ucast (b ! 1))"

definition entry_struct :: "logEntry_t \<Rightarrow> byte list" where
  "entry_struct e = rev (be64 (le_ts e)) @ rev (be32 (le_pid e)) @ rev (be32 (le_tid e)) @ rev (be32 (le_level e)) @
     le_tag e @ le_file e @ rev (be32 (le_line e)) @ le_msg e @ le16 (le_msgLen e) @ [le_enabled e] @ replicate 5 0"

definition struct_entry :: "byte list \<Rightarrow> logEntry_t" where
  "struct_entry b = \<lparr>le_ts = de64 (rev (seg 0 8 b)), le_pid = de32 (rev (seg 8 4 b)), le_tid = de32 (rev (seg 12 4 b)),
     le_level = de32 (rev (seg 16 4 b)), le_tag = seg 20 32 b, le_file = seg 52 64 b, le_line = de32 (rev (seg 116 4 b)),
     le_msg = seg 120 256 b, le_msgLen = de16 (seg 376 2 b), le_enabled = b ! 378\<rparr>"

lemma length_be64 [simp]: "length (be64 v) = 8"
  by (simp add: be64_def)

lemma length_be32 [simp]: "length (be32 v) = 4"
  by (simp add: be32_def)

lemma de16_le16: "de16 (le16 v) = v"
proof (rule bit_word_eqI)
  fix n assume "n < LENGTH(16)"
  then show "bit (de16 (le16 v)) n = bit v n"
    by (auto simp: de16_def le16_def bit_or_iff bit_push_bit_iff bit_ucast_iff bit_octet)
qed

lemma length_entry_struct: "entry_shape e \<Longrightarrow> length (entry_struct e) = 384"
  by (simp add: entry_struct_def entry_shape_def le16_def)

lemma struct_entry_struct: "entry_shape e \<Longrightarrow> struct_entry (entry_struct e) = e"
proof -
  assume s: "entry_shape e"
  then have l: "length (le_tag e) = 32" "length (le_file e) = 64" "length (le_msg e) = 256"
    by (simp_all add: entry_shape_def)
  let ?b = "entry_struct e"
  have "seg 0 8 ?b = rev (be64 (le_ts e))" "seg 8 4 ?b = rev (be32 (le_pid e))" "seg 12 4 ?b = rev (be32 (le_tid e))"
      "seg 16 4 ?b = rev (be32 (le_level e))" "seg 20 32 ?b = le_tag e" "seg 52 64 ?b = le_file e"
      "seg 116 4 ?b = rev (be32 (le_line e))" "seg 120 256 ?b = le_msg e" "seg 376 2 ?b = le16 (le_msgLen e)"
      "?b ! 378 = le_enabled e"
    using l by (simp_all add: entry_struct_def seg_def le16_def nth_append)
  then show ?thesis by (simp add: struct_entry_def de64_be64 de32_be32 de16_le16)
qed

text \<open>Reading a block as an entry loses nothing but the padding.\<close>

lemma le16_de16: "length b = 2 \<Longrightarrow> le16 (de16 b) = b"
proof -
  assume "length b = 2"
  then have "[b ! 0, b ! 1] = b" by (intro nth_equalityI) (auto simp: less_Suc_eq numeral_eq_Suc)
  then show ?thesis by (simp add: le16_def de16_def octet_simps)
qed

lemma struct_entry_bytes:
  assumes "length b = 384"
  shows "entry_shape (struct_entry b)" and "take 379 (entry_struct (struct_entry b)) = take 379 b"
proof -
  let ?e = "struct_entry b"
  have l: "length (seg a n b) = n" if "a + n \<le> 384" for a n using that assms by (simp add: seg_def)
  show sh: "entry_shape ?e" using assms by (simp add: entry_shape_def struct_entry_def)
  have last: "[b ! 378] = seg 378 1 b" using assms by (simp add: seg_def take_Suc hd_drop_conv_nth)
  have "rev (be64 (le_ts ?e)) = seg 0 8 b" "rev (be32 (le_pid ?e)) = seg 8 4 b" "rev (be32 (le_tid ?e)) = seg 12 4 b"
      "rev (be32 (le_level ?e)) = seg 16 4 b" "rev (be32 (le_line ?e)) = seg 116 4 b" "le16 (le_msgLen ?e) = seg 376 2 b"
    using assms by (simp_all add: struct_entry_def be64_de64 be32_de32 le16_de16)
  then have "entry_struct ?e = (seg 0 8 b @ seg 8 4 b @ seg 12 4 b @ seg 16 4 b @ seg 20 32 b @ seg 52 64 b @
      seg 116 4 b @ seg 120 256 b @ seg 376 2 b @ seg 378 1 b) @ replicate 5 0"
    unfolding entry_struct_def last [symmetric] by (simp add: struct_entry_def)
  also have "seg 0 8 b @ seg 8 4 b @ seg 12 4 b @ seg 16 4 b @ seg 20 32 b @ seg 52 64 b @
      seg 116 4 b @ seg 120 256 b @ seg 376 2 b @ seg 378 1 b = seg 0 379 b"
    using assms seg_whole [of 0 8 b 371] seg_whole [of 8 4 b 367] seg_whole [of 12 4 b 363] seg_whole [of 16 4 b 359]
      seg_whole [of 20 32 b 327] seg_whole [of 52 64 b 263] seg_whole [of 116 4 b 259] seg_whole [of 120 256 b 3]
      seg_whole [of 376 2 b 1] by simp
  finally show "take 379 (entry_struct ?e) = take 379 b" using l [of 0 379] by (simp add: seg_def)
qed

section \<open>State\<close>

record logEntryManager_t =
  lm_minLevel :: u32
  lm_initOnce :: bool
  lm_logQueue :: SiLogMpscQueue
  lm_initSuccess :: bool

record logger =
  lg_mgr :: logEntryManager_t
  lg_prelog :: SilogPrelogManager_t
  lg_out :: prelog_out
  lg_ipc :: SilogIpcAgent
  lg_sending :: bool

definition g_logEntryMgr :: logEntryManager_t where
  "g_logEntryMgr = \<lparr>lm_minLevel = SILOG_DEBUG, lm_initOnce = False, lm_logQueue = zero_ring, lm_initSuccess = False\<rparr>"

text \<open>The state of a process that has not logged yet.\<close>

definition logger_globals :: "prelog_out \<Rightarrow> logger" where
  "logger_globals out = \<lparr>lg_mgr = g_logEntryMgr, lg_prelog = g_prelogMgr, lg_out = out, lg_ipc = g_silogIpcAgent, lg_sending = False\<rparr>"

record logger_env =
  lv_malloc :: "nat \<Rightarrow> byte list option"
  lv_fopen :: "byte list \<Rightarrow> bool"
  lv_ipc :: ipc_env
  lv_pthread_create :: int
  lv_clock :: "(u64 \<times> u64) option"
  lv_pid :: u32
  lv_tid :: u64

section \<open>Operations\<close>

definition silogSetLevel :: "u32 \<Rightarrow> logger \<Rightarrow> logger" where
  "silogSetLevel level st = st\<lparr>lg_mgr := (lg_mgr st)\<lparr>lm_minLevel := level\<rparr>\<rparr>"

definition silogCheckLevel :: "u32 \<Rightarrow> logger \<Rightarrow> bool" where
  "silogCheckLevel level st \<longleftrightarrow> level \<ge> lm_minLevel (lg_mgr st)"

text \<open>The conversion of the length to \<open>uint16_t\<close> is part of the assignment to \<open>msgLen\<close>.\<close>

definition silogBuildEntry ::
  "logger_env \<Rightarrow> u32 \<Rightarrow> byte list \<Rightarrow> byte list \<Rightarrow> u32 \<Rightarrow> rendered \<Rightarrow> (ErrorCode \<times> logEntry_t) c_result" where
  "silogBuildEntry env level tag fname line fmt = do {
     let entry = \<lparr>le_ts = 0, le_pid = 0, le_tid = 0, le_level = 0, le_tag = replicate 32 0, le_file = replicate 64 0,
       le_line = 0, le_msg = replicate 256 0, le_msgLen = 0, le_enabled = 0\<rparr>;
     (n, msg) \<leftarrow> c_vsnprintf (le_msg entry) 0 SILOG_MSG_MAX_LEN fmt;
     let entry1 = entry\<lparr>le_msg := msg\<rparr>;
     if n < 0 then Some (SILOG_STR_ERR, entry1)
     else do {
       let entry2 = entry1\<lparr>le_ts := SilogGetNowMs (lv_clock env), le_pid := lv_pid env, le_tid := SilogUtilsGetTid (lv_tid env),
         le_level := level, le_line := line\<rparr>;
       (ret, tagbuf) \<leftarrow> snprintf_s (le_tag entry2) (Some 0) SILOG_TAG_MAX_LEN (SILOG_TAG_MAX_LEN - 1) (Some (Rendered tag));
       let entry3 = entry2\<lparr>le_tag := tagbuf\<rparr>;
       if ret < 0 then Some (SILOG_STR_ERR, entry3)
       else do {
         (ret2, filebuf) \<leftarrow> snprintf_s (le_file entry3) (Some 0) SILOG_FILE_MAX_LEN (SILOG_FILE_MAX_LEN - 1) (Some (Rendered fname));
         let entry4 = entry3\<lparr>le_file := filebuf\<rparr>;
         if ret2 < 0 then Some (SILOG_STR_ERR, entry4)
         else Some (SILOG_OK, entry4\<lparr>le_msgLen := word_of_int n, le_enabled := 1\<rparr>)
       }
     }
   }"

definition silogEntrySendTaskInit :: "logger_env \<Rightarrow> logger \<Rightarrow> ErrorCode \<times> logger" where
  "silogEntrySendTaskInit env st =
     (let ipc = SilogIpcInit SILOG_IPC_TYPE_UNIX_DGRAM (lg_ipc st)
      in case SilogIpcClientInit (lv_ipc env) ipc of (ret, ipc') \<Rightarrow>
           let st1 = st\<lparr>lg_ipc := ipc'\<rparr>
           in if ret \<noteq> SILOG_OK then (ret, st1)
              else if lv_pthread_create env \<noteq> 0 then (SILOG_THREAD_CREATE, st1)
              else (SILOG_OK, st1\<lparr>lg_sending := True\<rparr>))"

definition silogEntryMngInit :: "logger_env \<Rightarrow> logger \<Rightarrow> logger" where
  "silogEntryMngInit env st =
     (case SilogPrelogInit (lv_fopen env)
        (Some \<lparr>pc_path = chars ''/tmp/silog_logger.txt'', pc_minLevel = SILOG_PRELOG_LEVEL_DEBUG, pc_enableStdout = False\<rparr>)
        (lg_prelog st) (lg_out st) of (r, pl, out) \<Rightarrow>
      let st1 = st\<lparr>lg_prelog := pl, lg_out := out\<rparr>
      in case SilogMpscQueueInit (lv_malloc env) (lv_malloc env) (Some (lm_logQueue (lg_mgr st1))) 384 1024 of
           (SILOG_OK, Some q) \<Rightarrow>
             let st2 = st1\<lparr>lg_mgr := (lg_mgr st1)\<lparr>lm_logQueue := q\<rparr>\<rparr>
             in case silogEntrySendTaskInit env st2 of (ret, st3) \<Rightarrow>
                  if ret \<noteq> SILOG_OK then st3
                  else st3\<lparr>lg_mgr := (lg_mgr st3)\<lparr>lm_initSuccess := True\<rparr>\<rparr>
         | (ret, q) \<Rightarrow> st1\<lparr>lg_mgr := (lg_mgr st1)\<lparr>lm_logQueue :=
             (case q of Some q' \<Rightarrow> q' | None \<Rightarrow> lm_logQueue (lg_mgr st1))\<rparr>\<rparr>)"

text \<open>
  What \<open>vsnprintf\<close> makes of a format when there are no arguments: \<open>silogLog\<close> does not hand its own on
  to \<open>silogBuildEntry\<close>, so a conversion reads an argument that was never passed, which is undefined.
\<close>

fun format_no_args :: "byte list \<Rightarrow> byte list option" where
  "format_no_args [] = Some []"
| "format_no_args (c # cs) =
     (if c \<noteq> 37 then map_option (Cons c) (format_no_args cs)
      else case cs of d # ds \<Rightarrow> if d = 37 then map_option (Cons 37) (format_no_args ds) else None | [] \<Rightarrow> None)"

definition silogLog ::
  "logger_env \<Rightarrow> u32 \<Rightarrow> byte list \<Rightarrow> byte list \<Rightarrow> u32 \<Rightarrow> byte list \<Rightarrow> logger \<Rightarrow> logger c_result" where
  "silogLog env level tag fname line fmt st =
     (let st1 = (if lm_initOnce (lg_mgr st) then st
                 else silogEntryMngInit env (st\<lparr>lg_mgr := (lg_mgr st)\<lparr>lm_initOnce := True\<rparr>\<rparr>))
      in if \<not> lm_initSuccess (lg_mgr st1) then Some st1
         else if \<not> silogCheckLevel level st1 then Some st1
         else do {
           t \<leftarrow> format_no_args fmt;
           (ret, entry) \<leftarrow> silogBuildEntry env level tag fname line (Rendered t);
           if ret \<noteq> SILOG_OK then Some st1
           else do {
             (ret2, q) \<leftarrow> SilogMpscQueuePush (Some (lm_logQueue (lg_mgr st1))) (Some (entry_struct entry));
             q' \<leftarrow> q;
             Some (st1\<lparr>lg_mgr := (lg_mgr st1)\<lparr>lm_logQueue := q'\<rparr>\<rparr>)
           }
         })"

text \<open>The macros of \<open>silog.h\<close>; the file name and the line are those of the place of the call.\<close>

definition SILOG_D :: "logger_env \<Rightarrow> byte list \<Rightarrow> u32 \<Rightarrow> byte list \<Rightarrow> byte list \<Rightarrow> logger \<Rightarrow> logger c_result" where
  "SILOG_D env FILE LINE tag fmt st = silogLog env SILOG_DEBUG tag FILE LINE fmt st"

definition SILOG_I :: "logger_env \<Rightarrow> byte list \<Rightarrow> u32 \<Rightarrow> byte list \<Rightarrow> byte list \<Rightarrow> logger \<Rightarrow> logger c_result" where
  "SILOG_I env FILE LINE tag fmt st = silogLog env SILOG_INFO tag FILE LINE fmt st"

definition SILOG_W :: "logger_env \<Rightarrow> byte list \<Rightarrow> u32 \<Rightarrow> byte list \<Rightarrow> byte list \<Rightarrow> logger \<Rightarrow> logger c_result" where
  "SILOG_W env FILE LINE tag fmt st = silogLog env SILOG_WARN tag FILE LINE fmt st"

definition SILOG_E :: "logger_env \<Rightarrow> byte list \<Rightarrow> u32 \<Rightarrow> byte list \<Rightarrow> byte list \<Rightarrow> logger \<Rightarrow> logger c_result" where
  "SILOG_E env FILE LINE tag fmt st = silogLog env SILOG_ERROR tag FILE LINE fmt st"

definition SILOG_F :: "logger_env \<Rightarrow> byte list \<Rightarrow> u32 \<Rightarrow> byte list \<Rightarrow> byte list \<Rightarrow> logger \<Rightarrow> logger c_result" where
  "SILOG_F env FILE LINE tag fmt st = silogLog env SILOG_FATAL tag FILE LINE fmt st"

text \<open>One turn of the endless loop of \<open>silogEntrySendHandle\<close>, with the datagrams it sends.\<close>

definition silogEntrySendHandle :: "logger_env \<Rightarrow> logger \<Rightarrow> (byte list list \<times> logger) c_result" where
  "silogEntrySendHandle env st = do {
     (ret, entry, q) \<leftarrow> SilogMpscQueuePop (Some (lm_logQueue (lg_mgr st))) (Some (replicate 384 0));
     b \<leftarrow> entry; q' \<leftarrow> q;
     let st1 = st\<lparr>lg_mgr := (lg_mgr st)\<lparr>lm_logQueue := q'\<rparr>\<rparr>;
     if ret \<noteq> SILOG_OK then Some ([], st1)
     else (case SilogIpcClientSend (lv_ipc env) b 384 (lg_ipc st1) of (r, out, ipc) \<Rightarrow>
       Some (out, st1\<lparr>lg_ipc := ipc\<rparr>))
   }"

section \<open>Building an entry\<close>

lemma snprintf_s_array:
  assumes "0 < n" and "0 \<notin> set t"
  shows "\<exists>b. snprintf_s (replicate n 0) (Some 0) n (n - 1) (Some (Rendered t)) = Some (int (length t), b) \<and>
    length b = n \<and> b ! (n - 1) = 0 \<and> cstr b = take (n - 1) t"
proof -
  let ?k = "n - 1" and ?b = "overwrite (0 + (n - 1)) [0] (overwrite 0 (take (n - 1) t @ [0]) (replicate n 0))"
  have k: "?k < length (replicate n (0::byte))" using assms(1) by simp
  have e: "snprintf_s (replicate n 0) (Some 0) n ?k (Some (Rendered t)) = Some (int (length t), ?b)"
    using assms(1) by (intro snprintf_s_eq) auto
  have s: "is_string ?b 0 (take ?k t)" using printf_terminated [of 0 ?k "replicate n 0" t] k assms(2) by simp
  have l: "length ?b = n" using assms(1) by simp
  have "?b ! ?k = 0" using assms(1) by (subst nth_overwrite) auto
  then show ?thesis using e l is_string_cstr [OF s] by auto
qed

lemma BuildEntry_ok:
  assumes "0 \<notin> set tag" and "0 \<notin> set fname" and "0 \<notin> set t"
  shows "\<exists>e. silogBuildEntry env level tag fname line (Rendered t) = Some (SILOG_OK, e) \<and> entry_shape e \<and>
    le_tag e ! 31 = 0 \<and> le_file e ! 63 = 0 \<and> le_msg e ! 255 = 0 \<and>
    cstr (le_tag e) = take 31 tag \<and> cstr (le_file e) = take 63 fname \<and> cstr (le_msg e) = take 255 t \<and>
    le_level e = level \<and> le_line e = line \<and> le_ts e = SilogGetNowMs (lv_clock env) \<and> le_pid e = lv_pid env \<and>
    le_tid e = SilogUtilsGetTid (lv_tid env) \<and> le_msgLen e = word_of_nat (length t)"
proof -
  obtain m where m: "c_vsnprintf (replicate 256 0) 0 256 (Rendered t) = Some (int (length t), m)" "length m = 256"
      "m ! 255 = 0" "cstr m = take 255 t"
    using vsnprintf_array [of 256 t] assms(3) by auto
  obtain g where g: "snprintf_s (replicate 32 0) (Some 0) 32 31 (Some (Rendered tag)) = Some (int (length tag), g)"
      "length g = 32" "g ! 31 = 0" "cstr g = take 31 tag"
    using snprintf_s_array [of 32 tag] assms(1) by auto
  obtain f where f: "snprintf_s (replicate 64 0) (Some 0) 64 63 (Some (Rendered fname)) = Some (int (length fname), f)"
      "length f = 64" "f ! 63 = 0" "cstr f = take 63 fname"
    using snprintf_s_array [of 64 fname] assms(2) by auto
  show ?thesis using m g f by (simp add: silogBuildEntry_def entry_shape_def)
qed

text \<open>On every outcome, errors of the formatting included, the arrays keep their sizes.\<close>

lemma c_vsnprintf_total:
  assumes "d + n \<le> length m"
  shows "\<exists>r m'. c_vsnprintf m d n t = Some (r, m') \<and> length m' = length m"
  using assms by (cases t) (auto simp: c_vsnprintf_def store_eq)

lemma snprintf_s_total:
  assumes "d + n \<le> length m"
  shows "\<exists>r m'. snprintf_s m (Some d) n k t = Some (r, m') \<and> length m' = length m"
proof (cases "n = 0 \<or> t = None")
  case True
  then show ?thesis using assms by (auto simp: snprintf_s_def store_eq)
next
  case False
  then obtain x where x: "t = Some x" "0 < n" by auto
  let ?w = "if k < n - 1 then k else n - 1"
  have w: "d + (?w + 1) \<le> length m" using assms x(2) by auto
  from c_vsnprintf_total [OF w, of x] obtain r m' where "c_vsnprintf m d (?w + 1) x = Some (r, m')" "length m' = length m" by blast
  then show ?thesis using x w by (auto simp: snprintf_s_def store_eq Let_def)
qed

lemma BuildEntry_shape: "\<exists>r e. silogBuildEntry env level tag fname line fmt = Some (r, e) \<and> entry_shape e"
proof -
  obtain n m where m: "c_vsnprintf (replicate 256 0) 0 256 fmt = Some (n, m)" "length m = 256"
    using c_vsnprintf_total [of 0 256 "replicate 256 0" fmt] by auto
  obtain r1 g where g: "snprintf_s (replicate 32 0) (Some 0) 32 31 (Some (Rendered tag)) = Some (r1, g)" "length g = 32"
    using snprintf_s_total [of 0 32 "replicate 32 0" 31 "Some (Rendered tag)"] by auto
  obtain r2 f where f: "snprintf_s (replicate 64 0) (Some 0) 64 63 (Some (Rendered fname)) = Some (r2, f)" "length f = 64"
    using snprintf_s_total [of 0 64 "replicate 64 0" 63 "Some (Rendered fname)"] by auto
  show ?thesis using m g f by (simp add: silogBuildEntry_def entry_shape_def Let_def)
qed

section \<open>A running logger\<close>

definition logger_ok :: "logger \<Rightarrow> bool" where
  "logger_ok st \<longleftrightarrow> lm_initOnce (lg_mgr st) \<and> lm_initSuccess (lg_mgr st) \<and> mq_ok (lm_logQueue (lg_mgr st)) \<and>
     mq_elementSize (lm_logQueue (lg_mgr st)) = 384"

abbreviation (input) "log_queue st \<equiv> mq_list (lm_logQueue (lg_mgr st))"
abbreviation (input) "log_room st \<equiv> unat (mq_capacity (lm_logQueue (lg_mgr st)))"

lemma format_plain: "37 \<notin> set t \<Longrightarrow> format_no_args t = Some t"
  by (induction t) auto

lemma format_conversion:
  assumes "37 \<notin> set a" and "c \<noteq> 37"
  shows "format_no_args (a @ 37 # c # b) = None"
  using assms by (induction a) auto

lemma format_no_zero: "format_no_args fmt = Some t \<Longrightarrow> 0 \<notin> set fmt \<Longrightarrow> 0 \<notin> set t"
  by (induction fmt arbitrary: t rule: format_no_args.induct) (auto split: if_splits list.splits)

definition built_entry :: "logger_env \<Rightarrow> u32 \<Rightarrow> byte list \<Rightarrow> byte list \<Rightarrow> u32 \<Rightarrow> byte list \<Rightarrow> logEntry_t" where
  "built_entry env level tag fname line t = snd (the (silogBuildEntry env level tag fname line (Rendered t)))"

lemma built_entry:
  assumes "0 \<notin> set tag" and "0 \<notin> set fname" and "0 \<notin> set t"
  shows "silogBuildEntry env level tag fname line (Rendered t) = Some (SILOG_OK, built_entry env level tag fname line t)"
    and "entry_shape (built_entry env level tag fname line t)"
    and "level \<le> SILOG_FATAL \<Longrightarrow> entry_ok (built_entry env level tag fname line t)"
    and "cstr (le_tag (built_entry env level tag fname line t)) = take 31 tag"
    and "cstr (le_file (built_entry env level tag fname line t)) = take 63 fname"
    and "cstr (le_msg (built_entry env level tag fname line t)) = take 255 t"
    and "le_level (built_entry env level tag fname line t) = level"
    and "le_line (built_entry env level tag fname line t) = line"
    and "le_ts (built_entry env level tag fname line t) = SilogGetNowMs (lv_clock env)"
    and "le_pid (built_entry env level tag fname line t) = lv_pid env"
    and "le_tid (built_entry env level tag fname line t) = SilogUtilsGetTid (lv_tid env)"
    and "le_msgLen (built_entry env level tag fname line t) = word_of_nat (length t)"
  using BuildEntry_ok [OF assms, of env level line] by (auto simp: built_entry_def entry_ok_def)

lemma silogLog_push:
  assumes ok: "logger_ok st" and lvl: "silogCheckLevel level st" and t: "format_no_args fmt = Some t"
    and z: "0 \<notin> set tag" "0 \<notin> set fname" "0 \<notin> set fmt"
  shows "\<exists>st'. silogLog env level tag fname line fmt st = Some st' \<and> logger_ok st' \<and>
    log_room st' = log_room st \<and> lm_minLevel (lg_mgr st') = lm_minLevel (lg_mgr st) \<and> lg_ipc st' = lg_ipc st \<and> lg_sending st' = lg_sending st \<and>
    log_queue st' = (if length (log_queue st) < log_room st
      then log_queue st @ [entry_struct (built_entry env level tag fname line t)] else log_queue st)"
proof -
  let ?q = "lm_logQueue (lg_mgr st)" and ?x = "entry_struct (built_entry env level tag fname line t)"
  have q: "mq_ok ?q" "mq_elementSize ?q = 384" using ok by (simp_all add: logger_ok_def)
  note b = built_entry [OF z(1,2) format_no_zero [OF t z(3)]]
  have x: "length ?x = unat (mq_elementSize ?q)" using length_entry_struct [OF b(2)] q(2) by simp
  obtain r q' where p: "SilogMpscQueuePush (Some ?q) (Some ?x) = Some (r, Some q')" "mq_ok q'" "same_shape ?q q'"
      "mq_list q' = (if length (mq_list ?q) < unat (mq_capacity ?q) then mq_list ?q @ [?x] else mq_list ?q)"
    using ring_push [OF q(1) x] by blast
  let ?st = "st\<lparr>lg_mgr := (lg_mgr st)\<lparr>lm_logQueue := q'\<rparr>\<rparr>"
  have "silogLog env level tag fname line fmt st = Some ?st"
    using ok lvl t b(1) p(1) by (simp add: silogLog_def logger_ok_def)
  then show ?thesis using ok p by (auto simp: logger_ok_def same_shape_def)
qed

lemma SendHandle_turn:
  assumes ok: "logger_ok st" and q: "log_queue st = x # xs" and l: "length x = 384"
    and s: "ia_isInit (lg_ipc st)" "0 \<le> ia_sendFd (lg_ipc st)" "ie_send (lv_ipc env) = DgramSent"
  shows "\<exists>st'. silogEntrySendHandle env st = Some ([x], st') \<and> logger_ok st' \<and> log_queue st' = xs \<and> lg_ipc st' = lg_ipc st \<and>
    lg_sending st' = lg_sending st \<and> log_room st' = log_room st \<and> lm_minLevel (lg_mgr st') = lm_minLevel (lg_mgr st)"
proof -
  let ?q = "lm_logQueue (lg_mgr st)"
  have ok': "mq_ok ?q" "mq_elementSize ?q = 384" using ok by (simp_all add: logger_ok_def)
  obtain q' where p: "SilogMpscQueuePop (Some ?q) (Some (replicate 384 0)) = Some (SILOG_OK, Some x, Some q')" "mq_ok q'"
      "same_shape ?q q'" "mq_list q' = xs"
    using ring_pop [OF ok'(1) q, of 384] ok'(2) by auto
  have "SilogIpcClientSend (lv_ipc env) x 384 (lg_ipc st) = (SILOG_OK, [x], lg_ipc st)"
    using s l by (simp add: SilogIpcClientSend_def SilogIpcDgramClientSend_def)
  then show ?thesis
    using p ok by (auto simp: silogEntrySendHandle_def logger_ok_def same_shape_def)
qed

text \<open>The first call initialises the library.\<close>

lemma silogEntryMngInit_ok:
  assumes m: "\<And>n. \<exists>b. lv_malloc env n = Some b \<and> length b = n" and i: "\<not> ia_isInit (lg_ipc st)"
    and s: "0 \<le> ie_socket (lv_ipc env)" "setNonblock (ie_fcntl (lv_ipc env)) (ie_socket (lv_ipc env)) = SILOG_OK"
      "0 \<le> ie_connect (lv_ipc env) logd_address" and p: "lv_pthread_create env = 0" and o: "lm_initOnce (lg_mgr st)"
  shows "logger_ok (silogEntryMngInit env st) \<and> log_queue (silogEntryMngInit env st) = [] \<and>
    log_room (silogEntryMngInit env st) = 1024 \<and> ia_isInit (lg_ipc (silogEntryMngInit env st)) \<and>
    0 \<le> ia_sendFd (lg_ipc (silogEntryMngInit env st)) \<and>
    lm_minLevel (lg_mgr (silogEntryMngInit env st)) = lm_minLevel (lg_mgr st) \<and> lg_sending (silogEntryMngInit env st)"
proof -
  obtain b where b: "lv_malloc env 393216 = Some b" "length b = 393216" using m by blast
  have b2: "lv_malloc env 4096 \<noteq> None" using m [of 4096] by auto
  have "\<exists>q'. SilogMpscQueueInit (lv_malloc env) (lv_malloc env) (Some (lm_logQueue (lg_mgr st))) 384 1024 = (SILOG_OK, Some q') \<and>
      mq_ok q' \<and> mq_list q' = [] \<and> mq_elementSize q' = 384 \<and> mq_capacity q' = 1024"
    using b b2 by (intro mpsc_init_ok [where b = b]) simp_all
  then obtain q where q: "SilogMpscQueueInit (lv_malloc env) (lv_malloc env) (Some (lm_logQueue (lg_mgr st))) 384 1024 = (SILOG_OK, Some q)"
      "mq_ok q" "mq_list q = []" "mq_elementSize q = 384" "mq_capacity q = 1024" by blast
  obtain pr pl out where pi: "SilogPrelogInit (lv_fopen env)
      (Some \<lparr>pc_path = chars ''/tmp/silog_logger.txt'', pc_minLevel = SILOG_PRELOG_LEVEL_DEBUG, pc_enableStdout = False\<rparr>)
      (lg_prelog st) (lg_out st) = (pr, pl, out)" by (rule prod_cases3)
  show ?thesis
    using pi q i s p o
    by (simp add: silogEntryMngInit_def silogEntrySendTaskInit_def SilogIpcInit_def SilogIpcClientInit_def
      SilogIpcDgramClientInit_def Let_def ipc_open_def logger_ok_def)
qed

section \<open>Example instances\<close>

definition ex_lenv :: logger_env where
  "ex_lenv = \<lparr>lv_malloc = (\<lambda>n. Some (replicate n 0)), lv_fopen = (\<lambda>_. True), lv_ipc = good_env, lv_pthread_create = 0,
     lv_clock = Some (100, 7), lv_pid = 42, lv_tid = 43\<rparr>"

definition ex_logger :: logger where
  "ex_logger = \<lparr>lg_mgr = \<lparr>lm_minLevel = SILOG_DEBUG, lm_initOnce = False, lm_logQueue = mq_ex, lm_initSuccess = False\<rparr>,
     lg_prelog = g_prelogMgr, lg_out = \<lparr>po_files = Map.empty, po_stdout = []\<rparr>, lg_ipc = g_silogIpcAgent, lg_sending = False\<rparr>"

definition ex_running :: logger where
  "ex_running = silogEntryMngInit ex_lenv (ex_logger\<lparr>lg_mgr := (lg_mgr ex_logger)\<lparr>lm_initOnce := True\<rparr>\<rparr>)"

lemma ex_running: "logger_ok ex_running" "log_queue ex_running = []" "log_room ex_running = 1024"
    "ia_isInit (lg_ipc ex_running)" "0 \<le> ia_sendFd (lg_ipc ex_running)" "lm_minLevel (lg_mgr ex_running) = SILOG_DEBUG" "lg_sending ex_running"
  using silogEntryMngInit_ok [of ex_lenv "ex_logger\<lparr>lg_mgr := (lg_mgr ex_logger)\<lparr>lm_initOnce := True\<rparr>\<rparr>"]
  by (simp_all add: ex_running_def ex_lenv_def ex_logger_def good_env_def setNonblock_def g_silogIpcAgent_def)

text \<open>
  The macros in order: with the minimum level at the level of one of them, the ones before it do
  nothing and it and the ones after it get past the filter.
\<close>

definition log_macros :: "(logger_env \<Rightarrow> byte list \<Rightarrow> u32 \<Rightarrow> byte list \<Rightarrow> byte list \<Rightarrow> logger \<Rightarrow> logger c_result) list" where
  "log_macros = [SILOG_D, SILOG_I, SILOG_W, SILOG_E, SILOG_F]"

lemma log_macros_level:
  assumes "k < 5"
  shows "(log_macros ! k) env FILE LINE tag fmt st = silogLog env (word_of_nat k) tag FILE LINE fmt st"
  using assms
  by (auto simp: log_macros_def less_Suc_eq numeral_eq_Suc SILOG_D_def SILOG_I_def SILOG_W_def SILOG_E_def SILOG_F_def
      SILOG_DEBUG_def SILOG_INFO_def SILOG_WARN_def SILOG_ERROR_def SILOG_FATAL_def)

lemma log_macros_filter:
  assumes "logger_ok st" and "lm_minLevel (lg_mgr st) = word_of_nat j" and "j < 5" and "k < j"
  shows "(log_macros ! k) env FILE LINE tag fmt st = Some st"
proof -
  have "\<not> (word_of_nat j :: u32) \<le> word_of_nat k" using assms(3,4) by (simp add: not_le word_less_nat_alt unat_of_nat)
  then show ?thesis
    using assms by (simp add: log_macros_level silogLog_def logger_ok_def silogCheckLevel_def)
qed

section \<open>Properties\<close>

text \<open>
  C19. A log call of a running library whose format has no conversions: below the minimum level
  nothing happens; otherwise, unless the ring is full, exactly one entry is appended to the ring,
  well formed, with the tag, the file name and the text cut to 31, 63 and 255 characters and
  terminated. \<open>msgLen\<close> is the length of the whole text modulo \<open>2 ^ 16\<close>, also when the text was cut.
\<close>

theorem silogLog_enqueues:
  assumes "logger_ok st" and "format_no_args fmt = Some t" and "0 \<notin> set tag" and "0 \<notin> set fname" and "0 \<notin> set fmt"
    and "level \<le> SILOG_FATAL"
  shows "\<exists>st' e. silogLog env level tag fname line fmt st = Some st' \<and> logger_ok st' \<and>
    log_queue st' = (if lm_minLevel (lg_mgr st) \<le> level \<and> length (log_queue st) < log_room st
      then log_queue st @ [entry_struct e] else log_queue st) \<and>
    struct_entry (entry_struct e) = e \<and> entry_ok e \<and>
    cstr (le_tag e) = take 31 tag \<and> cstr (le_file e) = take 63 fname \<and> cstr (le_msg e) = take 255 t \<and>
    le_level e = level \<and> le_line e = line \<and> le_msgLen e = word_of_nat (length t)"
proof -
  let ?e = "built_entry env level tag fname line t"
  note b = built_entry [OF assms(3,4) format_no_zero [OF assms(2,5)]]
  have r: "struct_entry (entry_struct ?e) = ?e" using b(2) by (rule struct_entry_struct)
  show ?thesis
  proof (cases "silogCheckLevel level st")
    case True
    from silogLog_push [OF assms(1) True assms(2-5), of env line] obtain st' where
      "silogLog env level tag fname line fmt st = Some st'" "logger_ok st'"
      "log_queue st' = (if length (log_queue st) < log_room st then log_queue st @ [entry_struct ?e] else log_queue st)"
      by blast
    then show ?thesis using True b r assms(6) by (auto simp: silogCheckLevel_def)
  next
    case False
    then have "silogLog env level tag fname line fmt st = Some st"
      using assms(1) by (simp add: silogLog_def logger_ok_def)
    then show ?thesis using False b r assms(1,6) by (auto simp: silogCheckLevel_def)
  qed
qed

theorem silogLog_enqueues_witness:
  "\<exists>st' e. silogLog ex_lenv SILOG_WARN (chars ''net'') (chars ''a.c'') 12 (chars ''up'') ex_running = Some st' \<and>
     log_queue st' = [entry_struct e] \<and> cstr (le_msg e) = chars ''up'' \<and> le_line e = 12"
proof -
  have "format_no_args (chars ''up'') = Some (chars ''up'')" by code_simp
  then show ?thesis
    using silogLog_enqueues [OF ex_running(1), of "chars ''up''" "chars ''up''" "chars ''net''" "chars ''a.c''" SILOG_WARN ex_lenv 12]
      ex_running(2,3,6)
    by (auto simp: chars_def SILOG_WARN_def SILOG_FATAL_def SILOG_DEBUG_def)
qed

text \<open>
  C20. The types of the entries at the component boundaries: whatever the clock, the strings and the
  outcome of the formatting, \<open>silogBuildEntry\<close> stays inside the structure and leaves an entry whose
  three arrays have their sizes; any datagram or ring element of 384 bytes read as a structure is such an entry,
  and writing it back restores every byte but the padding; any frame of 377 bytes is decoded into such an entry
  with terminated strings and a true \<open>msgLen\<close>. Every such entry fills exactly one ring element and one frame.
\<close>

theorem logEntry_t_sizes:
  assumes "length b = 384" and "377 \<le> length w" and "entry_shape e0"
  shows "(\<exists>r e. silogBuildEntry env level tag fname line fmt = Some (r, e) \<and> entry_shape e) \<and>
    entry_shape (struct_entry b) \<and> take 379 (entry_struct (struct_entry b)) = take 379 b \<and>
    (\<exists>e. SilogRemoteDeserializeEntry (Some w) (length w) (Some e0) = Some (SILOG_OK, Some e) \<and> entry_shape e \<and>
      le_tag e ! 31 = 0 \<and> le_file e ! 63 = 0 \<and> le_msg e ! 255 = 0 \<and> unat (le_msgLen e) = length (cstr (le_msg e))) \<and>
    length (entry_struct e0) = 384 \<and> struct_entry (entry_struct e0) = e0 \<and> length (entry_bytes e0) = 377"
  using BuildEntry_shape [of env level tag fname line fmt] struct_entry_bytes [OF assms(1)]
    DeserializeEntry_shape [OF assms(2,3)] length_entry_struct [OF assms(3)] struct_entry_struct [OF assms(3)]
    length_entry_bytes [OF assms(3)] by auto

theorem logEntry_t_sizes_witness:
  "take 379 (entry_struct (struct_entry (replicate 384 7))) = replicate 379 7 \<and>
   (\<exists>r e. silogBuildEntry ex_lenv 9 [] [] 0 (RenderErr [1, 2]) = Some (r, e) \<and> entry_shape e)"
proof -
  have sh: "entry_shape (blank_entry 5)" using blank_entry_ok [of 5] by (simp add: entry_ok_def)
  show ?thesis
    using logEntry_t_sizes [OF _ _ sh, of "replicate 384 7" "replicate 377 7" ex_lenv 9 "[]" "[]" 0 "RenderErr [1, 2]"] by simp
qed



end
