(* ===== verification/Silog_PQueue.thy ===== *)
theory Silog_PQueue
  imports Silog_Slots Silog_Queue_Specs
begin

text \<open>
  The array-backed priority queue of \<open>silog_comm/src/silog_pqueue.c\<close>, at the level of its bytes:
  the buffer is a block of bytes, the offset of a slot is the 32-bit product
  \<open>index * elementSize\<close>, and an access outside the block is undefined behaviour (\<open>None\<close>). A queue
  pointer is an \<open>option\<close> (\<open>None\<close> is NULL) that the operation returns updated; \<open>malloc\<close> and
  \<open>realloc\<close> are arguments. The diagnostics the functions send to the prelog are left out.

  The second half relates the byte level to the list of the slots, shows that the sift loops stay
  inside the block and end, and proves what they do to the heap order and to the contents. The
  interpretation of \<open>bounded_bag\<close> is what the file manager relies on.
\<close>

type_synonym compare_fun = "byte list \<Rightarrow> byte list \<Rightarrow> int"

record SiLogPQueue =
  pq_buffer :: "byte list option"
  pq_elementSize :: u32
  pq_capacity :: u32
  pq_size :: u32
  pq_compare :: compare_fun

section \<open>Operations\<close>

definition SilogPQueueInit ::
  "(nat \<Rightarrow> byte list option) \<Rightarrow> SiLogPQueue option \<Rightarrow> u32 \<Rightarrow> u32 \<Rightarrow> compare_fun option \<Rightarrow>
   ErrorCode \<times> SiLogPQueue option" where
  "SilogPQueueInit malloc queue elementSize capacity compare =
     (case (queue, compare) of
        (Some q, Some cmp) \<Rightarrow>
          if elementSize = 0 \<or> capacity = 0 then (SILOG_INVALID_ARG, queue)
          else (case malloc (unat (elementSize * capacity)) of
              None \<Rightarrow> (SILOG_OUT_OF_MEMORY, Some (q\<lparr>pq_buffer := None\<rparr>))
            | Some b \<Rightarrow> (SILOG_OK, Some (q\<lparr>pq_buffer := Some b, pq_elementSize := elementSize,
                pq_capacity := capacity, pq_size := 0, pq_compare := cmp\<rparr>)))
      | _ \<Rightarrow> (SILOG_INVALID_ARG, queue))"

definition SilogPQueueDestroy :: "SiLogPQueue option \<Rightarrow> SiLogPQueue option" where
  "SilogPQueueDestroy queue =
     map_option (\<lambda>q. q\<lparr>pq_buffer := None, pq_size := 0, pq_capacity := 0\<rparr>) queue"

definition SilogPQueueClear :: "SiLogPQueue option \<Rightarrow> SiLogPQueue option" where
  "SilogPQueueClear queue = map_option (\<lambda>q. q\<lparr>pq_size := 0\<rparr>) queue"

definition SilogPQueueIsEmpty :: "SiLogPQueue option \<Rightarrow> bool" where
  "SilogPQueueIsEmpty queue = (case queue of None \<Rightarrow> True | Some q \<Rightarrow> pq_size q = 0)"

definition SilogPQueueIsFull :: "SiLogPQueue option \<Rightarrow> bool" where
  "SilogPQueueIsFull queue = (case queue of None \<Rightarrow> True | Some q \<Rightarrow> pq_size q \<ge> pq_capacity q)"

definition SilogPQueueSize :: "SiLogPQueue option \<Rightarrow> u32" where
  "SilogPQueueSize queue = (case queue of None \<Rightarrow> 0 | Some q \<Rightarrow> pq_size q)"

definition SilogPQueueCapacity :: "SiLogPQueue option \<Rightarrow> u32" where
  "SilogPQueueCapacity queue = (case queue of None \<Rightarrow> 0 | Some q \<Rightarrow> pq_capacity q)"

text \<open>
  The loop of \<open>SiftUp\<close>: the element \<open>temp\<close> climbs while it has priority over the parent, which
  moves down; the result is the buffer and the final index.
\<close>

function SiftUp_loop ::
  "compare_fun \<Rightarrow> u32 \<Rightarrow> byte list \<Rightarrow> byte list \<Rightarrow> u32 \<Rightarrow> (byte list \<times> u32) c_result" where
  "SiftUp_loop cmp es temp buf index =
     (if index > 0 then
        let parent = (index - 1) div 2 in do {
          parentElem \<leftarrow> slot_get es buf parent;
          if cmp temp parentElem \<le> 0 then Some (buf, index)
          else do {
            buf' \<leftarrow> slot_set es buf index parentElem;
            SiftUp_loop cmp es temp buf' parent
          }
        }
      else Some (buf, index))"
  by pat_completeness auto
termination
proof (relation "measure (\<lambda>(cmp, es, temp, buf, index). unat index)", goal_cases)
  case 1
  show ?case by simp
next
  case (2 cmp es temp buf index parent parentElem buf')
  then have "unat ((index - 1) div 2) < unat index"
    using unat_gt_0 [of index] by (simp add: unat_parent word_neq_0_conv)
  with 2 show ?case by simp
qed

declare SiftUp_loop.simps [simp del]

definition SiftUp :: "(nat \<Rightarrow> byte list option) \<Rightarrow> SiLogPQueue \<Rightarrow> u32 \<Rightarrow> SiLogPQueue c_result" where
  "SiftUp malloc q index =
     (case malloc (unat (pq_elementSize q)) of
        None \<Rightarrow> Some q
      | Some t \<Rightarrow> do {
          buf \<leftarrow> pq_buffer q;
          temp \<leftarrow> slot_get (pq_elementSize q) buf index;
          (buf', index') \<leftarrow> SiftUp_loop (pq_compare q) (pq_elementSize q) temp buf index;
          buf'' \<leftarrow> slot_set (pq_elementSize q) buf' index' temp;
          Some (q\<lparr>pq_buffer := Some buf''\<rparr>)
        })"

text \<open>
  The \<open>while (1)\<close> loop of \<open>SiftDown\<close>. Its child indices are 32-bit and may wrap, so it is a
  partial function; \<open>SiftDown_loop_list\<close> below shows that it ends on every queue of fewer than
  \<open>2 ^ 31\<close> elements.
\<close>

partial_function (option) SiftDown_loop ::
  "compare_fun \<Rightarrow> u32 \<Rightarrow> u32 \<Rightarrow> byte list \<Rightarrow> u32 \<Rightarrow> (byte list \<times> u32) option" where
  "SiftDown_loop cmp es sz buf index =
     Option.bind
       (if 2 * index + 1 < sz then
          Option.bind (slot_get es buf (2 * index + 1)) (\<lambda>leftElem.
          Option.bind (slot_get es buf index) (\<lambda>largestElem.
          Some (if cmp leftElem largestElem > 0 then 2 * index + 1 else index)))
        else Some index)
     (\<lambda>largest. Option.bind
       (if 2 * index + 2 < sz then
          Option.bind (slot_get es buf (2 * index + 2)) (\<lambda>rightElem.
          Option.bind (slot_get es buf largest) (\<lambda>largestElem.
          Some (if cmp rightElem largestElem > 0 then 2 * index + 2 else largest)))
        else Some largest)
     (\<lambda>largest. if largest = index then Some (buf, index)
       else Option.bind (slot_get es buf largest) (\<lambda>elem.
            Option.bind (slot_set es buf index elem) (\<lambda>buf'.
            SiftDown_loop cmp es sz buf' largest))))"

declare SiftDown_loop.simps [code]

definition SiftDown :: "(nat \<Rightarrow> byte list option) \<Rightarrow> SiLogPQueue \<Rightarrow> u32 \<Rightarrow> SiLogPQueue c_result" where
  "SiftDown malloc q index =
     (case malloc (unat (pq_elementSize q)) of
        None \<Rightarrow> Some q
      | Some t \<Rightarrow> do {
          buf \<leftarrow> pq_buffer q;
          temp \<leftarrow> slot_get (pq_elementSize q) buf index;
          (buf', index') \<leftarrow> SiftDown_loop (pq_compare q) (pq_elementSize q) (pq_size q) buf index;
          buf'' \<leftarrow> slot_set (pq_elementSize q) buf' index' temp;
          Some (q\<lparr>pq_buffer := Some buf''\<rparr>)
        })"

definition SilogPQueuePush ::
  "(nat \<Rightarrow> byte list option) \<Rightarrow> SiLogPQueue option \<Rightarrow> byte list option \<Rightarrow>
   (ErrorCode \<times> SiLogPQueue option) c_result" where
  "SilogPQueuePush malloc queue element =
     (case (queue, element) of
        (Some q, Some x) \<Rightarrow>
          if pq_size q \<ge> pq_capacity q then Some (SILOG_BUSY, queue)
          else do {
            buf \<leftarrow> pq_buffer q;
            buf' \<leftarrow> slot_set (pq_elementSize q) buf (pq_size q) x;
            let q1 = q\<lparr>pq_buffer := Some buf', pq_size := pq_size q + 1\<rparr>;
            q2 \<leftarrow> SiftUp malloc q1 (pq_size q1 - 1);
            Some (SILOG_OK, Some q2)
          }
      | _ \<Rightarrow> Some (SILOG_INVALID_ARG, queue))"

text \<open>\<open>outElement\<close> is \<open>None\<close> for NULL, otherwise the caller's buffer, returned updated.\<close>

definition SilogPQueuePop ::
  "(nat \<Rightarrow> byte list option) \<Rightarrow> SiLogPQueue option \<Rightarrow> byte list option \<Rightarrow>
   (ErrorCode \<times> byte list option \<times> SiLogPQueue option) c_result" where
  "SilogPQueuePop malloc queue outElement =
     (case (queue, outElement) of
        (Some q, Some out) \<Rightarrow>
          if pq_size q = 0 then Some (SILOG_TRANS_QUEUE_EMPTY, outElement, queue)
          else do {
            buf \<leftarrow> pq_buffer q;
            top \<leftarrow> slot_get (pq_elementSize q) buf 0;
            out' \<leftarrow> store out 0 top;
            let q1 = q\<lparr>pq_size := pq_size q - 1\<rparr>;
            q2 \<leftarrow> (if pq_size q1 > 0 then do {
                last_elem \<leftarrow> slot_get (pq_elementSize q) buf (pq_size q1);
                buf' \<leftarrow> slot_set (pq_elementSize q) buf 0 last_elem;
                SiftDown malloc (q1\<lparr>pq_buffer := Some buf'\<rparr>) 0
              } else Some q1);
            Some (SILOG_OK, Some out', Some q2)
          }
      | _ \<Rightarrow> Some (SILOG_INVALID_ARG, outElement, queue))"

definition SilogPQueuePeek ::
  "SiLogPQueue option \<Rightarrow> byte list option \<Rightarrow> (ErrorCode \<times> byte list option) c_result" where
  "SilogPQueuePeek queue outElement =
     (case (queue, outElement) of
        (Some q, Some out) \<Rightarrow>
          if pq_size q = 0 then Some (SILOG_TRANS_QUEUE_EMPTY, outElement)
          else do {
            buf \<leftarrow> pq_buffer q;
            top \<leftarrow> slot_get (pq_elementSize q) buf 0;
            out' \<leftarrow> store out 0 top;
            Some (SILOG_OK, Some out')
          }
      | _ \<Rightarrow> Some (SILOG_INVALID_ARG, outElement))"

definition SilogPQueueReserve ::
  "(byte list option \<Rightarrow> nat \<Rightarrow> byte list option) \<Rightarrow> SiLogPQueue option \<Rightarrow> u32 \<Rightarrow>
   ErrorCode \<times> SiLogPQueue option" where
  "SilogPQueueReserve realloc queue newCapacity =
     (case queue of
        None \<Rightarrow> (SILOG_INVALID_ARG, None)
      | Some q \<Rightarrow>
          if newCapacity \<le> pq_capacity q then (SILOG_INVALID_ARG, queue)
          else (case realloc (pq_buffer q) (unat (pq_elementSize q * newCapacity)) of
              None \<Rightarrow> (SILOG_OUT_OF_MEMORY, queue)
            | Some b \<Rightarrow> (SILOG_OK, Some (q\<lparr>pq_buffer := Some b, pq_capacity := newCapacity\<rparr>))))"

section \<open>The sift loops on lists\<close>

function sift_up :: "('e \<Rightarrow> 'e \<Rightarrow> int) \<Rightarrow> 'e \<Rightarrow> 'e list \<Rightarrow> nat \<Rightarrow> 'e list \<times> nat" where
  "sift_up cmp t xs i =
     (if 0 < i \<and> 0 < cmp t (xs ! ((i - 1) div 2))
      then sift_up cmp t (xs[i := xs ! ((i - 1) div 2)]) ((i - 1) div 2)
      else (xs, i))"
  by pat_completeness auto
termination
  by (relation "measure (\<lambda>(cmp, t, xs, i). i)") auto

declare sift_up.simps [simp del]

definition larger_child :: "('e \<Rightarrow> 'e \<Rightarrow> int) \<Rightarrow> nat \<Rightarrow> 'e list \<Rightarrow> nat \<Rightarrow> nat" where
  "larger_child cmp n xs i =
     (let l = (if 2 * i + 1 < n \<and> 0 < cmp (xs ! (2 * i + 1)) (xs ! i) then 2 * i + 1 else i)
      in if 2 * i + 2 < n \<and> 0 < cmp (xs ! (2 * i + 2)) (xs ! l) then 2 * i + 2 else l)"

lemma larger_child_cases:
  "larger_child cmp n xs i = i \<or> (i < larger_child cmp n xs i \<and> larger_child cmp n xs i < n)"
  by (auto simp: larger_child_def Let_def)

function sift_down :: "('e \<Rightarrow> 'e \<Rightarrow> int) \<Rightarrow> nat \<Rightarrow> 'e list \<Rightarrow> nat \<Rightarrow> 'e list \<times> nat" where
  "sift_down cmp n xs i =
     (if larger_child cmp n xs i = i then (xs, i)
      else sift_down cmp n (xs[i := xs ! larger_child cmp n xs i]) (larger_child cmp n xs i))"
  by pat_completeness auto
termination
proof (relation "measure (\<lambda>(cmp, n, xs, i). n - i)", goal_cases)
  case 1
  show ?case by simp
next
  case (2 cmp n xs i)
  then show ?case using larger_child_cases [of cmp n xs i] by auto
qed

declare sift_down.simps [simp del]

lemma SiftUp_loop_list:
  assumes "buf_ok es n buf" and "unat index < n"
  shows "\<exists>buf' index'. SiftUp_loop cmp es t buf index = Some (buf', index') \<and> buf_ok es n buf' \<and>
     unat index' \<le> unat index \<and>
     sift_up cmp t (slots es n buf) (unat index) = (slots es n buf', unat index')"
  using assms
proof (induction "unat index" arbitrary: index buf rule: less_induct)
  case less
  show ?case
  proof (cases "index > 0")
    case False
    then have "index = 0" using word_gt_0 [of index] by blast
    then show ?thesis using less.prems by (simp add: SiftUp_loop.simps sift_up.simps [of cmp t _ 0])
  next
    case True
    define p where "p = (index - 1) div 2"
    have i: "0 < unat index" using True by (simp add: unat_gt_0)
    have p: "unat p = (unat index - 1) div 2" using True by (simp add: p_def unat_parent)
    then have pn: "unat p < n" "unat p < unat index" using i less.prems(2) by auto
    let ?pe = "slots es n buf ! unat p"
    have get: "slot_get es buf p = Some ?pe" using less.prems(1) pn(1) by (rule slot_get_slots)
    show ?thesis
    proof (cases "cmp t ?pe \<le> 0")
      case stop: True
      then show ?thesis
        using True get less.prems i p
        by (auto simp: SiftUp_loop.simps [of cmp es t buf index] sift_up.simps [of cmp t _ "unat index"]
            Let_def p_def [symmetric])
    next
      case go: False
      obtain buf1 where set: "slot_set es buf index ?pe = Some buf1" and ok1: "buf_ok es n buf1"
        and sl: "slots es n buf1 = (slots es n buf)[unat index := ?pe]"
        using slot_set_slots [OF less.prems] length_slot [OF less.prems(1) pn(1)] by blast
      from less.hyps [OF pn(2) ok1 pn(1)] obtain buf' index' where
        "SiftUp_loop cmp es t buf1 p = Some (buf', index')" "buf_ok es n buf'" "unat index' \<le> unat p"
        "sift_up cmp t (slots es n buf1) (unat p) = (slots es n buf', unat index')"
        by blast
      then show ?thesis
        using True go get set sl i p pn(2)
        by (auto simp: SiftUp_loop.simps [of cmp es t buf index] sift_up.simps [of cmp t _ "unat index"]
            Let_def p_def [symmetric])
    qed
  qed
qed

text \<open>One round of the loop: the larger child moves up, or the loop ends.\<close>

lemma SiftDown_loop_step:
  assumes ok: "buf_ok es n buf" and ix: "unat index < unat sz" and sz: "unat sz \<le> n" "unat sz < 2 ^ 31"
  shows "\<exists>g. unat g < unat sz \<and> unat g = larger_child cmp (unat sz) (slots es n buf) (unat index) \<and>
    SiftDown_loop cmp es sz buf index =
      (if g = index then Some (buf, index)
       else Option.bind (slot_set es buf index (slots es n buf ! unat g)) (\<lambda>b. SiftDown_loop cmp es sz b g))"
proof -
  let ?s = "slots es n buf" and ?i = "unat index" and ?z = "unat sz"
  have wl: "unat (2 * index + 1) = 2 * ?i + 1" and wr: "unat (2 * index + 2) = 2 * ?i + 2"
    using ix sz(2) by (simp_all add: unat_word_ariths)
  have lt: "2 * index + 1 < sz \<longleftrightarrow> 2 * ?i + 1 < ?z" "2 * index + 2 < sz \<longleftrightarrow> 2 * ?i + 2 < ?z"
    using wl wr by (simp_all add: word_less_nat_alt)
  have get: "slot_get es buf j = Some (?s ! unat j)" if "unat j < ?z" for j
    using that sz(1) by (intro slot_get_slots ok) simp
  define l where "l = (if 2 * index + 1 < sz \<and> 0 < cmp (?s ! (2 * ?i + 1)) (?s ! ?i)
    then 2 * index + 1 else index)"
  define g where "g = (if 2 * index + 2 < sz \<and> 0 < cmp (?s ! (2 * ?i + 2)) (?s ! unat l)
    then 2 * index + 2 else l)"
  have l: "unat l < ?z" "unat l = (if 2 * ?i + 1 < ?z \<and> 0 < cmp (?s ! (2 * ?i + 1)) (?s ! ?i)
      then 2 * ?i + 1 else ?i)"
    using ix by (auto simp: l_def lt wl)
  have g: "unat g < ?z" "unat g = larger_child cmp ?z ?s ?i"
    using l by (auto simp: g_def lt wr larger_child_def Let_def)
  have "SiftDown_loop cmp es sz buf index =
      (if g = index then Some (buf, index)
       else Option.bind (slot_set es buf index (?s ! unat g)) (\<lambda>b. SiftDown_loop cmp es sz b g))"
    using get [of "2 * index + 1"] get [of "2 * index + 2"] get [of index] get [of l] get [of g] ix l(1) g(1)
    by (subst SiftDown_loop.simps) (auto simp: l_def g_def lt wl wr split: if_splits)
  then show ?thesis using g by blast
qed

lemma SiftDown_loop_list:
  assumes "buf_ok es n buf" and "unat index < unat sz" and "unat sz \<le> n" and "unat sz < 2 ^ 31"
  shows "\<exists>buf' index'. SiftDown_loop cmp es sz buf index = Some (buf', index') \<and> buf_ok es n buf' \<and>
     unat index' < unat sz \<and>
     sift_down cmp (unat sz) (slots es n buf) (unat index) = (slots es n buf', unat index')"
  using assms(1,2)
proof (induction "unat sz - unat index" arbitrary: index buf rule: less_induct)
  case less
  let ?s = "slots es n buf" and ?i = "unat index" and ?z = "unat sz"
  obtain g where g: "unat g < ?z" "unat g = larger_child cmp ?z ?s ?i"
    and step: "SiftDown_loop cmp es sz buf index = (if g = index then Some (buf, index)
       else Option.bind (slot_set es buf index (?s ! unat g)) (\<lambda>b. SiftDown_loop cmp es sz b g))"
    using SiftDown_loop_step [OF less.prems assms(3,4)] by blast
  show ?case
  proof (cases "g = index")
    case True
    then show ?thesis
      using step less.prems g by (auto simp: sift_down.simps [of cmp ?z ?s ?i])
  next
    case False
    then have "unat g \<noteq> ?i" by (simp add: word_unat_eq_iff)
    then have gt: "?i < unat g" using g larger_child_cases [of cmp ?z ?s ?i] by auto
    obtain b where set: "slot_set es buf index (?s ! unat g) = Some b" and ok: "buf_ok es n b"
      and sl: "slots es n b = ?s[?i := ?s ! unat g]"
      using slot_set_slots [OF less.prems(1), of index "?s ! unat g"] less.prems(2) assms(3) g(1)
        length_slot [OF less.prems(1), of "unat g"] by auto
    have "?z - unat g < ?z - ?i" using gt g(1) by simp
    from less.hyps [OF this ok g(1)] obtain buf' index' where
      "SiftDown_loop cmp es sz b g = Some (buf', index')" "buf_ok es n buf'" "unat index' < ?z"
      "sift_down cmp ?z (slots es n b) (unat g) = (slots es n buf', unat index')"
      by blast
    then show ?thesis
      using step False set sl g gt by (auto simp: sift_down.simps [of cmp ?z ?s ?i])
  qed
qed

lemma sift_up_idx: "sift_up cmp t xs i = (ys, j) \<Longrightarrow> j \<le> i \<and> length ys = length xs"
  by (induction cmp t xs i rule: sift_up.induct)
    (subst (asm) (2) sift_up.simps, fastforce split: if_splits)

lemma sift_up_take:
  "i < n \<Longrightarrow> sift_up cmp t xs i = (ys, j) \<Longrightarrow> sift_up cmp t (take n xs) i = (take n ys, j)"
proof (induction cmp t xs i rule: sift_up.induct)
  case (1 cmp t xs i)
  have p: "0 < i \<Longrightarrow> (i - 1) div 2 < n" using "1.prems"(1) by simp
  show ?case
    using 1 p by (subst sift_up.simps, subst (asm) (2) sift_up.simps)
      (auto simp: take_update_swap split: if_splits)
qed

lemma mset_place:
  assumes "i < length xs" and "l < length xs"
  shows "mset ((xs[i := xs ! l])[l := t]) = mset (xs[i := t])"
proof (cases "i = l")
  case False
  have "(xs[i := xs ! l])[l := t] = (xs[i := t])[l := (xs[i := t]) ! i, i := (xs[i := t]) ! l]"
    using assms False by (intro nth_equalityI) (auto simp: nth_list_update)
  then show ?thesis using assms mset_swap [of i "xs[i := t]" l] by simp
qed simp

lemma sift_up_mset:
  "i < length xs \<Longrightarrow> sift_up cmp t xs i = (ys, j) \<Longrightarrow> mset (ys[j := t]) = mset (xs[i := t])"
proof (induction cmp t xs i rule: sift_up.induct)
  case (1 cmp t xs i)
  have p: "(i - 1) div 2 < length xs" using "1.prems"(1) by simp
  show ?case
    using 1 p mset_place [of i xs "(i - 1) div 2" t]
    by (subst (asm) (2) sift_up.simps) (auto split: if_splits)
qed

lemma larger_child_take:
  "i < n \<Longrightarrow> larger_child cmp n (take n xs) i = larger_child cmp n xs i"
  by (auto simp: larger_child_def Let_def)

lemma sift_down_take:
  "i < n \<Longrightarrow> sift_down cmp n xs i = (ys, j) \<Longrightarrow>
   sift_down cmp n (take n xs) i = (take n ys, j) \<and> j < n \<and> length ys = length xs"
proof (induction cmp n xs i rule: sift_down.induct)
  case (1 cmp n xs i)
  then show ?case
    using larger_child_cases [of cmp n xs i] larger_child_take [of i n cmp xs]
    by (subst sift_down.simps, subst (asm) (2) sift_down.simps)
      (auto simp: take_update_swap split: if_splits)
qed

lemma sift_down_mset:
  "i < n \<Longrightarrow> n \<le> length xs \<Longrightarrow> sift_down cmp n xs i = (ys, j) \<Longrightarrow>
   mset (ys[j := t]) = mset (xs[i := t])"
proof (induction cmp n xs i rule: sift_down.induct)
  case (1 cmp n xs i)
  then show ?case
    using larger_child_cases [of cmp n xs i] mset_place [of i xs "larger_child cmp n xs i" t]
    by (subst (asm) (2) sift_down.simps) (auto split: if_splits)
qed

section \<open>The heap order\<close>

definition heap :: "('e \<Rightarrow> 'e \<Rightarrow> int) \<Rightarrow> 'e list \<Rightarrow> bool" where
  "heap cmp xs \<longleftrightarrow> (\<forall>j \<in> {1..<length xs}. cmp (xs ! j) (xs ! ((j - 1) div 2)) \<le> 0)"

definition top_ok :: "('e \<Rightarrow> 'e \<Rightarrow> int) \<Rightarrow> 'e list \<Rightarrow> bool" where
  "top_ok cmp xs \<longleftrightarrow> (\<forall>x \<in> set xs. cmp x (hd xs) \<le> 0)"

text \<open>
  The contract of a comparison function: \<open>cmp a b > 0\<close> when \<open>a\<close> has priority over \<open>b\<close>, a
  total preorder.
\<close>

locale pq_order =
  fixes cmp :: "'e \<Rightarrow> 'e \<Rightarrow> int"
  assumes cmp_flip: "0 < cmp a b \<longleftrightarrow> cmp b a < 0"
    and cmp_trans: "cmp a b \<le> 0 \<Longrightarrow> cmp b c \<le> 0 \<Longrightarrow> cmp a c \<le> 0"
begin

lemma cmp_self: "cmp a a = 0"
  using cmp_flip [of a a] by linarith

lemma cmp_pos_flip: "0 < cmp a b \<Longrightarrow> cmp b a \<le> 0"
  using cmp_flip [of a b] by simp

lemma heap_root:
  assumes "heap cmp xs" and "j < length xs"
  shows "cmp (xs ! j) (xs ! 0) \<le> 0"
  using assms(2)
proof (induction j rule: less_induct)
  case (less j)
  show ?case
  proof (cases "j = 0")
    case False
    then have "cmp (xs ! j) (xs ! ((j - 1) div 2)) \<le> 0"
      using assms(1) less.prems by (simp add: heap_def)
    moreover have "cmp (xs ! ((j - 1) div 2)) (xs ! 0) \<le> 0"
      using False less.prems by (intro less.IH) auto
    ultimately show ?thesis by (rule cmp_trans)
  qed (simp add: cmp_self)
qed

lemma heap_top_ok: "heap cmp xs \<Longrightarrow> top_ok cmp xs"
  using heap_root by (cases "xs = []") (auto simp: top_ok_def in_set_conv_nth hd_conv_nth)

text \<open>The list is a heap up to the element at \<open>i\<close>, which may have to climb.\<close>

definition climbing :: "'e list \<Rightarrow> nat \<Rightarrow> bool" where
  "climbing xs i \<longleftrightarrow>
     (\<forall>j \<in> {1..<length xs}. j \<noteq> i \<longrightarrow> cmp (xs ! j) (xs ! ((j - 1) div 2)) \<le> 0) \<and>
     (\<forall>j \<in> {1..<length xs}. 0 < i \<longrightarrow> (j - 1) div 2 = i \<longrightarrow>
        cmp (xs ! j) (xs ! ((i - 1) div 2)) \<le> 0)"

lemma climbing_swap:
  assumes c: "climbing (xs[i := t]) i" and i: "i < length xs" "0 < i"
    and p: "p = (i - 1) div 2" and t: "0 < cmp t (xs ! p)" and j: "j \<in> {1..<length xs}" "j \<noteq> p"
  shows "cmp ((xs[i := xs ! p])[p := t] ! j) ((xs[i := xs ! p])[p := t] ! ((j - 1) div 2)) \<le> 0"
proof -
  let ?ys = "xs[i := t]"
  have pi: "p < i" "p < length xs" using i p by auto
  have tp: "cmp (xs ! p) t \<le> 0" using t by (rule cmp_pos_flip)
  have ord: "j \<noteq> i \<Longrightarrow> cmp (?ys ! j) (?ys ! ((j - 1) div 2)) \<le> 0" using c j by (simp add: climbing_def)
  consider "j = i" | "j \<noteq> i" "(j - 1) div 2 = i" | "j \<noteq> i" "(j - 1) div 2 = p"
    | "j \<noteq> i" "(j - 1) div 2 \<noteq> i" "(j - 1) div 2 \<noteq> p" by blast
  then show ?thesis
  proof cases
    case 1
    then show ?thesis using pi i tp p by simp
  next
    case 2
    then have "cmp (?ys ! j) (xs ! p) \<le> 0" using c j i pi p by (auto simp: climbing_def)
    then show ?thesis using 2 j pi i by auto
  next
    case 3
    then show ?thesis using j pi i ord cmp_trans [OF _ tp, of "xs ! j"] by auto
  next
    case 4
    then show ?thesis using j ord by auto
  qed
qed

lemma climbing_step:
  assumes c: "climbing (xs[i := t]) i" and i: "i < length xs" "0 < i"
    and p: "p = (i - 1) div 2" and t: "0 < cmp t (xs ! p)"
  shows "climbing ((xs[i := xs ! p])[p := t]) p"
proof -
  let ?ys = "xs[i := t]" and ?zs = "(xs[i := xs ! p])[p := t]"
  have pi: "p < i" "p < length xs" using i p by auto
  have ord: "cmp (?ys ! j) (?ys ! ((j - 1) div 2)) \<le> 0" if "j \<in> {1..<length xs}" "j \<noteq> i" for j
    using c that by (simp add: climbing_def)
  have "cmp (?zs ! j) (?zs ! ((p - 1) div 2)) \<le> 0"
    if j: "j \<in> {1..<length xs}" "0 < p" "(j - 1) div 2 = p" for j
  proof -
    have g: "(p - 1) div 2 < p" "(p - 1) div 2 \<noteq> i" using j(2) pi by auto
    have pg: "cmp (xs ! p) (xs ! ((p - 1) div 2)) \<le> 0"
      using ord [of p] j(2) pi g by auto
    show ?thesis
    proof (cases "j = i")
      case True
      then show ?thesis using pg g pi i by auto
    next
      case False
      have "j \<noteq> p" using j by auto
      have "cmp (xs ! j) (xs ! p) \<le> 0" using ord [of j] False j pi by auto
      from cmp_trans [OF this pg] show ?thesis using False \<open>j \<noteq> p\<close> g by auto
    qed
  qed
  then show ?thesis using climbing_swap [OF assms] by (simp add: climbing_def)
qed

lemma sift_up_heap:
  assumes "i < length xs" and "climbing (xs[i := t]) i" and "sift_up cmp t xs i = (ys, j)"
  shows "heap cmp (ys[j := t])"
  using assms
proof (induction i arbitrary: xs rule: less_induct)
  case (less i)
  let ?p = "(i - 1) div 2"
  show ?case
  proof (cases "0 < i \<and> 0 < cmp t (xs ! ?p)")
    case True
    then have "sift_up cmp t (xs[i := xs ! ?p]) ?p = (ys, j)"
      using less.prems(3) by (simp add: sift_up.simps [of cmp t xs i])
    moreover have "climbing ((xs[i := xs ! ?p])[?p := t]) ?p"
      using True less.prems by (intro climbing_step) auto
    ultimately show ?thesis using True less.prems(1) by (intro less.IH) auto
  next
    case False
    then have eq: "ys = xs" "j = i" using less.prems(3) by (auto simp: sift_up.simps [of cmp t xs i])
    have "i = 0 \<or> cmp t (xs ! ?p) \<le> 0 \<and> ?p \<noteq> i" using False by auto
    then show ?thesis
      using less.prems(1,2) unfolding eq heap_def climbing_def
      by (auto simp: nth_list_update)
  qed
qed

lemma climbing_append: "heap cmp xs \<Longrightarrow> climbing (xs @ [t]) (length xs)"
proof -
  assume h: "heap cmp xs"
  have "cmp ((xs @ [t]) ! j) ((xs @ [t]) ! ((j - 1) div 2)) \<le> 0" if "1 \<le> j" "j < length xs" for j
  proof -
    have "(j - 1) div 2 < length xs" using that by auto
    then show ?thesis using h that by (simp add: heap_def nth_append)
  qed
  then show ?thesis by (auto simp: climbing_def)
qed

end

context pq_order
begin

lemma larger_child_max:
  assumes "i < n" and "j \<in> {i, 2 * i + 1, 2 * i + 2}" and "j < n"
  shows "cmp (xs ! j) (xs ! larger_child cmp n xs i) \<le> 0"
proof -
  let ?l = "if 2 * i + 1 < n \<and> 0 < cmp (xs ! (2 * i + 1)) (xs ! i) then 2 * i + 1 else i"
  let ?g = "larger_child cmp n xs i"
  have l: "cmp (xs ! i) (xs ! ?l) \<le> 0" "2 * i + 1 < n \<Longrightarrow> cmp (xs ! (2 * i + 1)) (xs ! ?l) \<le> 0"
    by (auto simp: cmp_self cmp_pos_flip)
  have g: "?g = (if 2 * i + 2 < n \<and> 0 < cmp (xs ! (2 * i + 2)) (xs ! ?l) then 2 * i + 2 else ?l)"
    by (simp add: larger_child_def Let_def)
  have lg: "cmp (xs ! ?l) (xs ! ?g) \<le> 0" and rg: "2 * i + 2 < n \<Longrightarrow> cmp (xs ! (2 * i + 2)) (xs ! ?g) \<le> 0"
    unfolding g by (auto simp: cmp_self cmp_pos_flip)
  show ?thesis using assms l [THEN cmp_trans [OF _ lg]] rg by auto
qed

lemma larger_child_stay:
  assumes "2 * i + 1 < n \<Longrightarrow> cmp (xs ! (2 * i + 1)) (xs ! i) \<le> 0"
    and "2 * i + 2 < n \<Longrightarrow> cmp (xs ! (2 * i + 2)) (xs ! i) \<le> 0"
  shows "larger_child cmp n xs i = i"
  using assms by (auto simp: larger_child_def Let_def)

lemma below_larger_child:
  assumes sub: "\<forall>j \<in> {3..<n}. cmp (xs ! j) (xs ! ((j - 1) div 2)) \<le> 0" and "k < n"
  shows "cmp (xs ! k) (xs ! larger_child cmp n xs 0) \<le> 0"
  using assms(2)
proof (induction k rule: less_induct)
  case (less k)
  show ?case
  proof (cases "k < 3")
    case True
    then have "k \<in> {0, 2 * 0 + 1, 2 * 0 + 2}" by auto
    then show ?thesis using less.prems by (intro larger_child_max) auto
  next
    case False
    then have "cmp (xs ! k) (xs ! ((k - 1) div 2)) \<le> 0" using sub less.prems by simp
    moreover have "cmp (xs ! ((k - 1) div 2)) (xs ! larger_child cmp n xs 0) \<le> 0"
      using False less.prems by (intro less.IH) auto
    ultimately show ?thesis by (rule cmp_trans)
  qed
qed

text \<open>
  On a list that is a heap below its root the loop of \<open>SiftDown\<close> moves the root down by one
  level at most: it compares the children of the next level with the stale copy of the element
  that it moved up, not with the element that is sinking.
\<close>

lemma sift_down_one_level:
  assumes sub: "\<forall>j \<in> {3..<n}. cmp (xs ! j) (xs ! ((j - 1) div 2)) \<le> 0"
    and n: "n = length xs" "0 < n"
  shows "sift_down cmp n xs 0 = (xs[0 := xs ! larger_child cmp n xs 0], larger_child cmp n xs 0)"
proof -
  let ?l = "larger_child cmp n xs 0"
  let ?ys = "xs[0 := xs ! ?l]"
  show ?thesis
  proof (cases "?l = 0")
    case True
    then show ?thesis by (simp add: sift_down.simps [of cmp n xs 0])
  next
    case False
    then have l: "?l < n" using larger_child_cases [of cmp n xs 0] by auto
    have ge: "cmp (xs ! c) (xs ! ?l) \<le> 0" if "c < n" for c
      using below_larger_child [OF sub that] .
    have "larger_child cmp n ?ys ?l = ?l"
      using False l n(1) ge [of "2 * ?l + 1"] ge [of "2 * ?l + 2"]
      by (intro larger_child_stay) auto
    then show ?thesis
      using False by (simp add: sift_down.simps [of cmp n xs 0] sift_down.simps [of cmp n ?ys ?l])
  qed
qed

lemma sift_down_top_ok:
  assumes sub: "\<forall>j \<in> {3..<n}. cmp (xs ! j) (xs ! ((j - 1) div 2)) \<le> 0"
    and n: "n = length xs" "0 < n" and r: "sift_down cmp n xs 0 = (ys, j)"
  shows "top_ok cmp (ys[j := xs ! 0])" and "n \<le> 3 \<Longrightarrow> heap cmp (ys[j := xs ! 0])"
proof -
  let ?l = "larger_child cmp n xs 0" and ?zs = "ys[j := xs ! 0]"
  have eq: "ys = xs[0 := xs ! ?l]" "j = ?l" using sift_down_one_level [OF sub n] r by auto
  have l: "?l < length xs" using larger_child_cases [of cmp n xs 0] n by auto
  have zs0: "?zs ! 0 = xs ! ?l" using l n by (auto simp: eq nth_list_update)
  have top: "cmp (?zs ! k) (?zs ! 0) \<le> 0" if k: "k < n" for k
  proof -
    have "?zs ! k \<in> set xs" using k n l by (auto simp: eq nth_list_update)
    then obtain i where i: "i < n" "?zs ! k = xs ! i" using n(1) by (auto simp: in_set_conv_nth)
    show ?thesis using below_larger_child [OF sub i(1)] by (simp add: i(2) zs0)
  qed
  have len: "length ?zs = n" using n by (simp add: eq)
  show "top_ok cmp ?zs"
    using top len n(2) hd_conv_nth [of ?zs] by (auto simp: top_ok_def in_set_conv_nth)
  assume "n \<le> 3"
  have "cmp (?zs ! k) (?zs ! ((k - 1) div 2)) \<le> 0" if "k \<in> {1..<n}" for k
  proof -
    have "(k - 1) div 2 = 0" using that \<open>n \<le> 3\<close> by auto
    then show ?thesis using that top [of k] by simp
  qed
  then show "heap cmp ?zs" unfolding heap_def len by blast
qed

end

section \<open>The queue\<close>

definition pq_ok :: "SiLogPQueue \<Rightarrow> bool" where
  "pq_ok q \<longleftrightarrow> (case pq_buffer q of None \<Rightarrow> False
     | Some buf \<Rightarrow> buf_ok (pq_elementSize q) (unat (pq_capacity q)) buf) \<and>
     pq_size q \<le> pq_capacity q \<and> unat (pq_capacity q) < 2 ^ 31"

definition pq_elems :: "SiLogPQueue \<Rightarrow> byte list list" where
  "pq_elems q = (case pq_buffer q of None \<Rightarrow> []
     | Some buf \<Rightarrow> take (unat (pq_size q)) (slots (pq_elementSize q) (unat (pq_capacity q)) buf))"

definition sifted_up :: "('e \<Rightarrow> 'e \<Rightarrow> int) \<Rightarrow> 'e list \<Rightarrow> nat \<Rightarrow> 'e list" where
  "sifted_up cmp xs i = (case sift_up cmp (xs ! i) xs i of (ys, j) \<Rightarrow> ys[j := xs ! i])"

definition sifted_down :: "('e \<Rightarrow> 'e \<Rightarrow> int) \<Rightarrow> 'e list \<Rightarrow> nat \<Rightarrow> 'e list" where
  "sifted_down cmp xs i = (case sift_down cmp (length xs) xs i of (ys, j) \<Rightarrow> ys[j := xs ! i])"

lemma mset_sifted_up: "i < length xs \<Longrightarrow> mset (sifted_up cmp xs i) = mset xs"
  using sift_up_mset [of i xs cmp "xs ! i"] by (auto simp: sifted_up_def split: prod.splits)

lemma mset_sifted_down: "i < length xs \<Longrightarrow> mset (sifted_down cmp xs i) = mset xs"
  using sift_down_mset [of i "length xs" xs cmp _ _ "xs ! i"]
  by (auto simp: sifted_down_def split: prod.splits)

lemma pq_okE:
  assumes "pq_ok q"
  obtains buf where "pq_buffer q = Some buf" "buf_ok (pq_elementSize q) (unat (pq_capacity q)) buf"
    "unat (pq_size q) \<le> unat (pq_capacity q)" "unat (pq_capacity q) < 2 ^ 31"
    "pq_elems q = take (unat (pq_size q)) (slots (pq_elementSize q) (unat (pq_capacity q)) buf)"
  using assms by (auto simp: pq_ok_def pq_elems_def word_le_nat_alt split: option.splits)

lemma length_pq_elems: "pq_ok q \<Longrightarrow> length (pq_elems q) = unat (pq_size q)"
  by (elim pq_okE) simp

lemma length_pq_elem: "pq_ok q \<Longrightarrow> x \<in> set (pq_elems q) \<Longrightarrow> length x = unat (pq_elementSize q)"
  by (elim pq_okE) (auto simp: in_set_conv_nth length_slot)

lemma SiftUp_elems:
  assumes ok: "pq_ok q" and i: "unat index < unat (pq_size q)"
    and m: "malloc (unat (pq_elementSize q)) \<noteq> None"
  shows "\<exists>b. SiftUp malloc q index = Some (q\<lparr>pq_buffer := Some b\<rparr>) \<and> pq_ok (q\<lparr>pq_buffer := Some b\<rparr>) \<and>
    pq_elems (q\<lparr>pq_buffer := Some b\<rparr>) = sifted_up (pq_compare q) (pq_elems q) (unat index)"
proof -
  let ?es = "pq_elementSize q" and ?n = "unat (pq_capacity q)" and ?i = "unat index"
  obtain buf where b: "pq_buffer q = Some buf" "buf_ok ?es ?n buf" "unat (pq_size q) \<le> ?n" "?n < 2 ^ 31"
    and el: "pq_elems q = take (unat (pq_size q)) (slots ?es ?n buf)"
    using pq_okE [OF ok] by blast
  have i': "?i < ?n" using i b(3) by simp
  let ?t = "slots ?es ?n buf ! ?i"
  obtain buf1 index1 where loop: "SiftUp_loop (pq_compare q) ?es ?t buf index = Some (buf1, index1)"
    and ok1: "buf_ok ?es ?n buf1" and le: "unat index1 \<le> ?i"
    and su: "sift_up (pq_compare q) ?t (slots ?es ?n buf) ?i = (slots ?es ?n buf1, unat index1)"
    using SiftUp_loop_list [OF b(2) i'] by blast
  obtain buf2 where set: "slot_set ?es buf1 index1 ?t = Some buf2" and ok2: "buf_ok ?es ?n buf2"
    and sl: "slots ?es ?n buf2 = (slots ?es ?n buf1)[unat index1 := ?t]"
    using slot_set_slots [OF ok1, of index1 ?t] le i' length_slot [OF b(2) i'] by auto
  have "SiftUp malloc q index = Some (q\<lparr>pq_buffer := Some buf2\<rparr>)"
    using m b(1) slot_get_slots [OF b(2) i'] loop set by (auto simp: SiftUp_def)
  moreover have "pq_ok (q\<lparr>pq_buffer := Some buf2\<rparr>)" using ok ok2 by (simp add: pq_ok_def)
  moreover have "pq_elems (q\<lparr>pq_buffer := Some buf2\<rparr>) = sifted_up (pq_compare q) (pq_elems q) ?i"
    using sift_up_take [OF i su] i
    by (simp add: pq_elems_def b(1) el sifted_up_def sl take_update_swap)
  ultimately show ?thesis by blast
qed

lemma SiftDown_elems:
  assumes ok: "pq_ok q" and i: "unat index < unat (pq_size q)"
    and m: "malloc (unat (pq_elementSize q)) \<noteq> None"
  shows "\<exists>b. SiftDown malloc q index = Some (q\<lparr>pq_buffer := Some b\<rparr>) \<and> pq_ok (q\<lparr>pq_buffer := Some b\<rparr>) \<and>
    pq_elems (q\<lparr>pq_buffer := Some b\<rparr>) = sifted_down (pq_compare q) (pq_elems q) (unat index)"
proof -
  let ?es = "pq_elementSize q" and ?n = "unat (pq_capacity q)" and ?i = "unat index"
    and ?z = "unat (pq_size q)"
  obtain buf where b: "pq_buffer q = Some buf" "buf_ok ?es ?n buf" "?z \<le> ?n" "?n < 2 ^ 31"
    and el: "pq_elems q = take ?z (slots ?es ?n buf)"
    using pq_okE [OF ok] by blast
  have i': "?i < ?n" using i b(3) by simp
  let ?t = "slots ?es ?n buf ! ?i"
  have "?z < 2 ^ 31" using b(3,4) by simp
  then obtain buf1 index1 where loop: "SiftDown_loop (pq_compare q) ?es (pq_size q) buf index = Some (buf1, index1)"
    and ok1: "buf_ok ?es ?n buf1" and le: "unat index1 < ?z"
    and su: "sift_down (pq_compare q) ?z (slots ?es ?n buf) ?i = (slots ?es ?n buf1, unat index1)"
    using SiftDown_loop_list [OF b(2) i b(3)] by blast
  obtain buf2 where set: "slot_set ?es buf1 index1 ?t = Some buf2" and ok2: "buf_ok ?es ?n buf2"
    and sl: "slots ?es ?n buf2 = (slots ?es ?n buf1)[unat index1 := ?t]"
    using slot_set_slots [OF ok1, of index1 ?t] le b(3) length_slot [OF b(2) i'] by auto
  have "SiftDown malloc q index = Some (q\<lparr>pq_buffer := Some buf2\<rparr>)"
    using m b(1) slot_get_slots [OF b(2) i'] loop set by (auto simp: SiftDown_def)
  moreover have "pq_ok (q\<lparr>pq_buffer := Some buf2\<rparr>)" using ok ok2 by (simp add: pq_ok_def)
  moreover have "pq_elems (q\<lparr>pq_buffer := Some buf2\<rparr>) = sifted_down (pq_compare q) (pq_elems q) ?i"
    using sift_down_take [OF i su] i b(3)
    by (simp add: pq_elems_def b(1) el sifted_down_def sl take_update_swap min_absorb2)
  ultimately show ?thesis by blast
qed

definition same_config :: "SiLogPQueue \<Rightarrow> SiLogPQueue \<Rightarrow> bool" where
  "same_config q q' \<longleftrightarrow> pq_elementSize q' = pq_elementSize q \<and> pq_capacity q' = pq_capacity q \<and>
     pq_compare q' = pq_compare q"

definition popped :: "'e list \<Rightarrow> 'e list" where
  "popped xs = butlast (xs[0 := last xs])"

lemma mset_popped: "xs \<noteq> [] \<Longrightarrow> mset (popped xs) = mset xs - {#hd xs#}"
proof (cases xs rule: rev_cases)
  case (snoc ys y)
  then show ?thesis by (cases ys) (simp_all add: popped_def)
qed simp

lemma Push_elems:
  assumes ok: "pq_ok q" and room: "pq_size q < pq_capacity q" and x: "length x = unat (pq_elementSize q)"
  shows "\<exists>q'. SilogPQueuePush malloc (Some q) (Some x) = Some (SILOG_OK, Some q') \<and> pq_ok q' \<and>
    same_config q q' \<and> unat (pq_size q') = unat (pq_size q) + 1 \<and>
    pq_elems q' = (if malloc (unat (pq_elementSize q)) = None then pq_elems q @ [x]
                   else sifted_up (pq_compare q) (pq_elems q @ [x]) (unat (pq_size q)))"
proof -
  let ?es = "pq_elementSize q" and ?n = "unat (pq_capacity q)" and ?z = "unat (pq_size q)"
  obtain buf where b: "pq_buffer q = Some buf" "buf_ok ?es ?n buf" "?n < 2 ^ 31"
    and el: "pq_elems q = take ?z (slots ?es ?n buf)"
    using pq_okE [OF ok] by blast
  have z: "?z < ?n" using room by (simp add: word_less_nat_alt)
  obtain b1 where set: "slot_set ?es buf (pq_size q) x = Some b1" and ok1: "buf_ok ?es ?n b1"
    and sl: "slots ?es ?n b1 = (slots ?es ?n buf)[?z := x]"
    using slot_set_slots [OF b(2) z x] by blast
  let ?q1 = "q\<lparr>pq_buffer := Some b1, pq_size := pq_size q + 1\<rparr>"
  have sz: "unat (pq_size q + 1) = ?z + 1" using z b(3) by (simp add: unat_word_ariths)
  have q1: "pq_ok ?q1" using ok1 sz z b(3) by (simp add: pq_ok_def word_le_nat_alt)
  have e1: "pq_elems ?q1 = pq_elems q @ [x]"
    using z by (simp add: pq_elems_def el sl b(1) sz take_Suc_conv_app_nth)
  have push: "SilogPQueuePush malloc (Some q) (Some x) =
      Option.bind (SiftUp malloc ?q1 (pq_size q)) (\<lambda>q2. Some (SILOG_OK, Some q2))"
    using room set b(1) by (simp add: SilogPQueuePush_def Let_def not_le [symmetric])
  show ?thesis
  proof (cases "malloc (unat ?es) = None")
    case True
    then show ?thesis using push q1 e1 sz by (auto simp: SiftUp_def same_config_def)
  next
    case False
    then show ?thesis
      using SiftUp_elems [OF q1, of "pq_size q" malloc] push e1 sz by (auto simp: same_config_def)
  qed
qed

text \<open>The memory operations of a pop: reading the top and moving the last element there.\<close>

lemma pop_moves_last:
  assumes ok: "pq_ok q" and ne: "0 < pq_size q" and buf: "pq_buffer q = Some buf"
  shows "\<exists>b1. slot_get (pq_elementSize q) buf 0 = Some (hd (pq_elems q)) \<and>
    slot_get (pq_elementSize q) buf (pq_size q - 1) = Some (last (pq_elems q)) \<and>
    length (hd (pq_elems q)) = unat (pq_elementSize q) \<and>
    slot_set (pq_elementSize q) buf 0 (last (pq_elems q)) = Some b1 \<and>
    pq_ok (q\<lparr>pq_size := pq_size q - 1, pq_buffer := Some b1\<rparr>) \<and>
    pq_elems (q\<lparr>pq_size := pq_size q - 1, pq_buffer := Some b1\<rparr>) = popped (pq_elems q)"
proof -
  let ?es = "pq_elementSize q" and ?n = "unat (pq_capacity q)" and ?z = "unat (pq_size q)"
  have b: "buf_ok ?es ?n buf" "?z \<le> ?n" "?n < 2 ^ 31" and el: "pq_elems q = take ?z (slots ?es ?n buf)"
    using pq_okE [OF ok] buf by (metis option.inject)+
  have z: "0 < ?z" using ne by (simp add: unat_gt_0)
  have n: "0 < ?n" using z b(2) by simp
  have z1: "unat (pq_size q - 1) = ?z - 1" using ne by (rule unat_sub_one)
  let ?last = "slots ?es ?n buf ! (?z - 1)"
  have hd: "hd (pq_elems q) = slots ?es ?n buf ! 0" using z n
    by (simp add: el hd_conv_nth flip: length_greater_0_conv)
  have last: "last (pq_elems q) = ?last"
    using z b(2) by (simp add: el last_conv_nth flip: length_greater_0_conv)
  obtain b1 where set: "slot_set ?es buf 0 ?last = Some b1" and ok1: "buf_ok ?es ?n b1"
    and sl: "slots ?es ?n b1 = (slots ?es ?n buf)[0 := ?last]"
    using slot_set_slots [OF b(1), of 0 ?last] n length_slot [OF b(1), of "?z - 1"] z b(2) by auto
  have "popped (pq_elems q) = take (?z - 1) ((slots ?es ?n buf)[0 := ?last])"
    using b(2) last by (simp add: popped_def el butlast_conv_take take_update_swap min_absorb2)
  then have "pq_elems (q\<lparr>pq_size := pq_size q - 1, pq_buffer := Some b1\<rparr>) = popped (pq_elems q)"
    by (simp add: pq_elems_def sl z1)
  moreover have "pq_ok (q\<lparr>pq_size := pq_size q - 1, pq_buffer := Some b1\<rparr>)"
    using ok ok1 b z1 by (auto simp: pq_ok_def word_le_nat_alt)
  moreover have "slot_get ?es buf 0 = Some (hd (pq_elems q))" using slot_get_slots [OF b(1), of 0] n hd by simp
  moreover have "slot_get ?es buf (pq_size q - 1) = Some ?last"
    using slot_get_slots [OF b(1), of "pq_size q - 1"] z1 z b(2) by simp
  moreover have "length (hd (pq_elems q)) = unat ?es" using hd length_slot [OF b(1) n] by simp
  ultimately show ?thesis using set last by auto
qed

lemma Pop_elems:
  assumes ok: "pq_ok q" and ne: "0 < pq_size q" and out: "unat (pq_elementSize q) \<le> length out"
  shows "\<exists>q'. SilogPQueuePop malloc (Some q) (Some out) =
      Some (SILOG_OK, Some (overwrite 0 (hd (pq_elems q)) out), Some q') \<and> pq_ok q' \<and>
    same_config q q' \<and> unat (pq_size q') = unat (pq_size q) - 1 \<and>
    pq_elems q' = (if malloc (unat (pq_elementSize q)) = None \<or> pq_size q = 1 then popped (pq_elems q)
                   else sifted_down (pq_compare q) (popped (pq_elems q)) 0)"
proof -
  let ?es = "pq_elementSize q" and ?z = "unat (pq_size q)"
  obtain buf where b: "pq_buffer q = Some buf" "pq_elems q = take ?z (slots ?es (unat (pq_capacity q)) buf)"
    using pq_okE [OF ok] by blast
  have z1: "unat (pq_size q - 1) = ?z - 1" using ne by (rule unat_sub_one)
  obtain b1 where mv: "slot_get ?es buf 0 = Some (hd (pq_elems q))" "slot_get ?es buf (pq_size q - 1) = Some (last (pq_elems q))"
      "length (hd (pq_elems q)) = unat ?es" "slot_set ?es buf 0 (last (pq_elems q)) = Some b1"
    and q2: "pq_ok (q\<lparr>pq_size := pq_size q - 1, pq_buffer := Some b1\<rparr>)"
      "pq_elems (q\<lparr>pq_size := pq_size q - 1, pq_buffer := Some b1\<rparr>) = popped (pq_elems q)"
    using pop_moves_last [OF ok ne b(1)] by blast
  have st: "store out 0 (hd (pq_elems q)) = Some (overwrite 0 (hd (pq_elems q)) out)" using mv(3) out by (simp add: store_eq)
  show ?thesis
  proof (cases "pq_size q = 1")
    case True
    let ?q1 = "q\<lparr>pq_size := pq_size q - 1\<rparr>"
    have "pq_ok ?q1" using ok z1 b(1) by (auto simp: pq_ok_def word_le_nat_alt)
    moreover have "pq_elems ?q1 = popped (pq_elems q)" using True b by (simp add: pq_elems_def popped_def butlast_conv_take)
    ultimately show ?thesis
      using True mv(1) st b(1) z1 by (auto simp: SilogPQueuePop_def Let_def same_config_def)
  next
    case False
    let ?q2 = "q\<lparr>pq_size := pq_size q - 1, pq_buffer := Some b1\<rparr>"
    have gt: "0 < pq_size q - 1" using False ne word_gt_0 [of "pq_size q - 1"] by auto
    have pop: "SilogPQueuePop malloc (Some q) (Some out) =
        Option.bind (SiftDown malloc ?q2 0)
          (\<lambda>q'. Some (SILOG_OK, Some (overwrite 0 (hd (pq_elems q)) out), Some q'))"
      using False gt mv st b(1) ne by (auto simp: SilogPQueuePop_def Let_def)
    show ?thesis
    proof (cases "malloc (unat ?es) = None")
      case True
      then show ?thesis using pop q2 z1 by (auto simp: SiftDown_def same_config_def)
    next
      case m: False
      have "unat (0::u32) < unat (pq_size ?q2)" using gt unfolding word_less_nat_alt by simp
      then show ?thesis using SiftDown_elems [OF q2(1), of 0 malloc] pop q2(2) m z1 False by (auto simp: same_config_def)
    qed
  qed
qed

lemma Peek_elems:
  assumes ok: "pq_ok q" and ne: "0 < pq_size q" and out: "unat (pq_elementSize q) \<le> length out"
  shows "SilogPQueuePeek (Some q) (Some out) = Some (SILOG_OK, Some (overwrite 0 (hd (pq_elems q)) out))"
proof -
  let ?es = "pq_elementSize q" and ?n = "unat (pq_capacity q)" and ?z = "unat (pq_size q)"
  obtain buf where b: "pq_buffer q = Some buf" "buf_ok ?es ?n buf" "?z \<le> ?n"
    and el: "pq_elems q = take ?z (slots ?es ?n buf)"
    using pq_okE [OF ok] by blast
  have z: "0 < ?z" using ne by (simp add: unat_gt_0)
  then have n: "0 < ?n" using b(3) by simp
  have hd: "hd (pq_elems q) = slots ?es ?n buf ! 0" using z n
    by (simp add: el hd_conv_nth flip: length_greater_0_conv)
  then have "slot_get ?es buf 0 = Some (hd (pq_elems q))" "length (hd (pq_elems q)) = unat ?es"
    using slot_get_slots [OF b(2), of 0] n length_slot [OF b(2) n] by simp_all
  then show ?thesis using ne out b(1) by (auto simp: SilogPQueuePeek_def store_eq)
qed

lemma Init_ok:
  assumes "0 < elementSize" and "0 < capacity" and "unat elementSize * unat capacity < 2 ^ 32"
    and "unat capacity < 2 ^ 31" and "malloc (unat elementSize * unat capacity) = Some b"
    and "length b = unat elementSize * unat capacity"
  shows "\<exists>q'. SilogPQueueInit malloc (Some q) elementSize capacity (Some cmp) = (SILOG_OK, Some q') \<and>
     pq_ok q' \<and> pq_elems q' = [] \<and> pq_capacity q' = capacity \<and> pq_elementSize q' = elementSize \<and>
     pq_compare q' = cmp"
proof -
  have e: "unat (elementSize * capacity) = unat elementSize * unat capacity"
    using assms(3) by (simp add: unat_exact)
  have nz: "elementSize \<noteq> 0" "capacity \<noteq> 0" using assms(1,2) by auto
  let ?q = "q\<lparr>pq_buffer := Some b, pq_elementSize := elementSize, pq_capacity := capacity,
    pq_size := 0, pq_compare := cmp\<rparr>"
  have "SilogPQueueInit malloc (Some q) elementSize capacity (Some cmp) = (SILOG_OK, Some ?q)"
    using nz e assms(5) by (simp add: SilogPQueueInit_def)
  moreover have "pq_ok ?q"
    using assms nz by (simp add: pq_ok_def buf_ok_def ac_simps unat_gt_0)
  ultimately show ?thesis by (auto simp: pq_elems_def)
qed

text \<open>\<open>realloc\<close> keeps the old contents up to the smaller of the two sizes.\<close>

definition realloc_keeps :: "(byte list option \<Rightarrow> nat \<Rightarrow> byte list option) \<Rightarrow> bool" where
  "realloc_keeps realloc \<longleftrightarrow>
     (\<forall>b n b'. realloc (Some b) n = Some b' \<longrightarrow>
        length b' = n \<and> take (min n (length b)) b' = take (min n (length b)) b)"

lemma Reserve_elems:
  assumes ok: "pq_ok q" and r: "realloc_keeps realloc" and gt: "pq_capacity q < newCapacity"
    and fit: "unat (pq_elementSize q) * unat newCapacity < 2 ^ 32" "unat newCapacity < 2 ^ 31"
    and re: "realloc (pq_buffer q) (unat (pq_elementSize q) * unat newCapacity) = Some b'"
  shows "\<exists>q'. SilogPQueueReserve realloc (Some q) newCapacity = (SILOG_OK, Some q') \<and> pq_ok q' \<and>
     pq_elems q' = pq_elems q \<and> pq_capacity q' = newCapacity"
proof -
  let ?es = "pq_elementSize q" and ?n = "unat (pq_capacity q)" and ?z = "unat (pq_size q)"
    and ?c = "unat newCapacity"
  obtain buf where b: "pq_buffer q = Some buf" "buf_ok ?es ?n buf" "?z \<le> ?n"
    and el: "pq_elems q = take ?z (slots ?es ?n buf)"
    using pq_okE [OF ok] by blast
  have nc: "?n < ?c" using gt by (simp add: word_less_nat_alt)
  have e: "unat (?es * newCapacity) = unat ?es * ?c" using fit(1) by (simp add: unat_exact)
  let ?q = "q\<lparr>pq_buffer := Some b', pq_capacity := newCapacity\<rparr>"
  have r1: "length b' = unat ?es * ?c" and r2: "take (length buf) b' = buf"
  proof -
    have "length buf \<le> unat ?es * ?c" using b(2) nc by (simp add: buf_ok_def)
    then show "length b' = unat ?es * ?c" "take (length buf) b' = buf"
      using r [unfolded realloc_keeps_def, rule_format, of buf "unat ?es * ?c" b'] re b(1)
      by (auto simp: min_absorb2)
  qed
  have "SilogPQueueReserve realloc (Some q) newCapacity = (SILOG_OK, Some ?q)"
    using gt e re by (simp add: SilogPQueueReserve_def)
  moreover have "pq_ok ?q"
    using b r1 fit nc by (simp add: pq_ok_def buf_ok_def word_le_nat_alt ac_simps)
  moreover have "pq_elems ?q = pq_elems q"
  proof -
    have "slots ?es ?c b' ! i = slots ?es ?n buf ! i" if "i < ?n" for i
    proof -
      have "i * unat ?es + unat ?es \<le> length buf"
        using b(2) slot_end [OF that, of "unat ?es"] by (simp add: buf_ok_def)
      then have "seg (i * unat ?es) (unat ?es) b' = seg (i * unat ?es) (unat ?es) (take (length buf) b')"
        by (simp add: seg_def drop_take min_def)
      then show ?thesis using that nc r2 by (simp add: nth_slots)
    qed
    then have "take ?z (slots ?es ?c b') = take ?z (slots ?es ?n buf)"
      using b(3) nc by (intro nth_equalityI) auto
    then show ?thesis by (simp add: pq_elems_def b(1))
  qed
  ultimately show ?thesis by (intro exI [of _ ?q]) simp
qed

section \<open>The queue as a bounded bag\<close>

text \<open>The two operations in the form of the contract of \<open>Silog_Queue_Specs\<close>.\<close>

definition pq_push :: "(nat \<Rightarrow> byte list option) \<Rightarrow> SiLogPQueue \<Rightarrow> byte list \<Rightarrow> (ErrorCode \<times> SiLogPQueue) option" where
  "pq_push malloc q x =
     (case SilogPQueuePush malloc (Some q) (Some x) of Some (r, Some q') \<Rightarrow> Some (r, q') | _ \<Rightarrow> None)"

definition pq_pop :: "(nat \<Rightarrow> byte list option) \<Rightarrow> SiLogPQueue \<Rightarrow> (ErrorCode \<times> byte list \<times> SiLogPQueue) option" where
  "pq_pop malloc q =
     (case SilogPQueuePop malloc (Some q) (Some (replicate (unat (pq_elementSize q)) 0)) of
        Some (r, Some x, Some q') \<Rightarrow> Some (r, x, q') | _ \<Rightarrow> None)"

lemma Push_bag:
  assumes "pq_ok q" and "pq_size q < pq_capacity q" and "length x = unat (pq_elementSize q)"
  shows "\<exists>q'. SilogPQueuePush malloc (Some q) (Some x) = Some (SILOG_OK, Some q') \<and> pq_ok q' \<and>
    same_config q q' \<and> mset (pq_elems q') = add_mset x (mset (pq_elems q))"
proof -
  have "mset (sifted_up (pq_compare q) (pq_elems q @ [x]) (unat (pq_size q))) = add_mset x (mset (pq_elems q))"
    using mset_sifted_up [of "unat (pq_size q)" "pq_elems q @ [x]"] length_pq_elems [OF assms(1)] by simp
  then show ?thesis using Push_elems [OF assms, of malloc] by (auto split: if_splits)
qed

lemma Pop_bag:
  assumes "pq_ok q" and "0 < pq_size q" and "unat (pq_elementSize q) \<le> length out"
  shows "\<exists>q'. SilogPQueuePop malloc (Some q) (Some out) =
      Some (SILOG_OK, Some (overwrite 0 (hd (pq_elems q)) out), Some q') \<and> pq_ok q' \<and>
    same_config q q' \<and> mset (pq_elems q) = add_mset (hd (pq_elems q)) (mset (pq_elems q'))"
proof -
  have len: "length (pq_elems q) = unat (pq_size q)" using assms(1) by (rule length_pq_elems)
  have ne: "pq_elems q \<noteq> []" using len assms(2) unat_gt_0 [of "pq_size q"] by auto
  then have add: "mset (pq_elems q) = add_mset (hd (pq_elems q)) (mset (popped (pq_elems q)))"
    by (simp add: mset_popped insert_DiffM)
  have "mset (sifted_down (pq_compare q) (popped (pq_elems q)) 0) = mset (popped (pq_elems q))"
    if "pq_size q \<noteq> 1"
  proof -
    have "unat (pq_size q) \<noteq> 1" using that by (metis unat_1 word_unat_eq_iff)
    then have "0 < length (popped (pq_elems q))"
      using len ne by (cases "pq_elems q") (auto simp: popped_def)
    then show ?thesis by (simp add: mset_sifted_down)
  qed
  then show ?thesis using Pop_elems [OF assms, of malloc] add by (auto split: if_splits)
qed

interpretation pq_bag: bounded_bag
  "\<lambda>q. pq_ok q \<and> pq_elementSize q = es" "\<lambda>q. mset (pq_elems q)" "\<lambda>q. unat (pq_capacity q)"
  "\<lambda>x. length x = unat es" SILOG_BUSY "pq_push malloc" "pq_pop malloc"
  for malloc es
proof (unfold_locales, goal_cases)
  case (1 q x)
  then have "pq_size q < pq_capacity q" by (simp add: length_pq_elems word_less_nat_alt)
  then show ?case
    using 1 Push_bag [of q x malloc] by (auto simp: pq_push_def same_config_def)
next
  case (2 q x)
  then have "pq_capacity q \<le> pq_size q" by (simp add: length_pq_elems word_le_nat_alt)
  then show ?case by (simp add: pq_push_def SilogPQueuePush_def)
next
  case (3 q)
  then have ne: "0 < pq_size q" using length_pq_elems [of q] by (auto simp: word_gt_0)
  have hd: "length (hd (pq_elems q)) = unat (pq_elementSize q)"
    using 3 length_pq_elem [of q "hd (pq_elems q)"] by simp
  show ?case
    using 3 Pop_bag [of q "replicate (unat (pq_elementSize q)) 0" malloc] ne hd
    by (auto simp: pq_pop_def same_config_def overwrite_def)
next
  case (4 q x)
  then show ?case using length_pq_elem [of q x] by simp
next
  case (5 q)
  then show ?case using length_pq_elems [of q] by (auto elim: pq_okE)
qed

section \<open>Example instances\<close>

text \<open>Queues of one-byte elements compared by their value, for the concrete runs below.\<close>

definition cmp_head :: compare_fun where
  "cmp_head a b = uint (hd a) - uint (hd b)"

definition pq_ex :: "byte list \<Rightarrow> u32 \<Rightarrow> SiLogPQueue" where
  "pq_ex buf n = \<lparr>pq_buffer = Some buf, pq_elementSize = 1, pq_capacity = 8, pq_size = n,
     pq_compare = cmp_head\<rparr>"

lemma pq_order_cmp_head: "pq_order cmp_head"
  by unfold_locales (auto simp: cmp_head_def)

lemma pq_ok_ex: "length buf = 8 \<Longrightarrow> n \<le> 8 \<Longrightarrow> pq_ok (pq_ex buf n)"
  by (simp add: pq_ok_def pq_ex_def buf_ok_def)

definition grow_realloc :: "byte list option \<Rightarrow> nat \<Rightarrow> byte list option" where
  "grow_realloc b n = (case b of None \<Rightarrow> Some (replicate n 0)
     | Some bs \<Rightarrow> Some (take n bs @ replicate (n - length bs) 0))"

section \<open>Properties\<close>

lemma Push_heap:
  assumes "pq_order (pq_compare q)" and "heap (pq_compare q) (pq_elems q)" and "pq_ok q"
  shows "heap (pq_compare q) (sifted_up (pq_compare q) (pq_elems q @ [x]) (unat (pq_size q)))"
proof -
  have len: "length (pq_elems q) = unat (pq_size q)" using assms(3) by (rule length_pq_elems)
  obtain ys j where su: "sift_up (pq_compare q) x (pq_elems q @ [x]) (length (pq_elems q)) = (ys, j)"
    by fastforce
  have "heap (pq_compare q) (ys[j := x])"
    using su pq_order.climbing_append [OF assms(1,2), of x]
    by (intro pq_order.sift_up_heap [OF assms(1), of "length (pq_elems q)" "pq_elems q @ [x]"]) auto
  then show ?thesis using su by (simp add: sifted_up_def len [symmetric])
qed

lemma popped_below_root:
  assumes "heap cmp xs"
  shows "\<forall>j \<in> {3..<length (popped xs)}. cmp (popped xs ! j) (popped xs ! ((j - 1) div 2)) \<le> 0"
proof
  fix j assume j: "j \<in> {3..<length (popped xs)}"
  let ?p = "(j - 1) div 2"
  have "popped xs ! j = xs ! j" "popped xs ! ?p = xs ! ?p"
    using j by (auto simp: popped_def nth_butlast)
  then show "cmp (popped xs ! j) (popped xs ! ?p) \<le> 0"
    using assms j by (auto simp: heap_def popped_def)
qed

lemma Pop_heap:
  assumes "pq_order cmp" and "heap cmp xs" and "2 \<le> length xs"
  shows "top_ok cmp (sifted_down cmp (popped xs) 0)"
    and "length xs \<le> 4 \<Longrightarrow> heap cmp (sifted_down cmp (popped xs) 0)"
proof -
  have n: "0 < length (popped xs)" "length (popped xs) = length xs - 1"
    using assms(3) by (auto simp: popped_def)
  obtain ys j where sd: "sift_down cmp (length (popped xs)) (popped xs) 0 = (ys, j)" by fastforce
  note top = pq_order.sift_down_top_ok [OF assms(1) popped_below_root [OF assms(2)] refl n(1) sd]
  show "top_ok cmp (sifted_down cmp (popped xs) 0)" using top(1) sd by (simp add: sifted_down_def)
  show "length xs \<le> 4 \<Longrightarrow> heap cmp (sifted_down cmp (popped xs) 0)"
    using top(2) sd n(2) by (simp add: sifted_down_def)
qed

text \<open>
  C33. \<open>SilogPQueuePush\<close> on a queue that is a heap, with room and with memory for the temporary
  element: it returns \<open>SILOG_OK\<close>, the contents gain exactly the new element, and the queue is a heap
  again, for every comparison that is a total preorder.
\<close>

theorem SilogPQueuePush_keeps_heap:
  assumes "pq_ok q" and "pq_order (pq_compare q)" and "heap (pq_compare q) (pq_elems q)"
    and "pq_size q < pq_capacity q" and "length x = unat (pq_elementSize q)"
    and "malloc (unat (pq_elementSize q)) \<noteq> None"
  shows "\<exists>q'. SilogPQueuePush malloc (Some q) (Some x) = Some (SILOG_OK, Some q') \<and> pq_ok q' \<and>
    heap (pq_compare q') (pq_elems q') \<and> mset (pq_elems q') = add_mset x (mset (pq_elems q))"
proof -
  have "mset (sifted_up (pq_compare q) (pq_elems q @ [x]) (unat (pq_size q))) = add_mset x (mset (pq_elems q))"
    using mset_sifted_up [of "unat (pq_size q)" "pq_elems q @ [x]"] length_pq_elems [OF assms(1)] by simp
  with Push_elems [OF assms(1,4,5), of malloc] Push_heap [OF assms(2,3,1), of x] assms(6)
  show ?thesis by (auto simp: same_config_def)
qed

theorem SilogPQueuePush_keeps_heap_witness:
  "\<exists>q'. SilogPQueuePush (\<lambda>n. Some (replicate n 0)) (Some (pq_ex [5, 3, 0, 0, 0, 0, 0, 0] 2)) (Some [9]) =
     Some (SILOG_OK, Some q') \<and> heap (pq_compare q') (pq_elems q') \<and>
     mset (pq_elems q') = {#[9], [5], [3]#}"
proof -
  have el: "pq_elems (pq_ex [5, 3, 0, 0, 0, 0, 0, 0] 2) = [[5], [3]]"
    by code_simp
  have "heap cmp_head [[5], [3]]" by code_simp
  then show ?thesis
    using SilogPQueuePush_keeps_heap [of "pq_ex [5, 3, 0, 0, 0, 0, 0, 0] 2" "[9]" "\<lambda>n. Some (replicate n 0)"]
      pq_ok_ex [of "[5, 3, 0, 0, 0, 0, 0, 0]" 2] el pq_order_cmp_head
    by (auto simp: pq_ex_def)
qed

text \<open>
  C34. \<open>SilogPQueuePop\<close> on a heap returns an element that no other has priority over, removes
  exactly that element, and leaves a queue whose first element is again of the highest priority;
  the queue stays a heap when it held at most four elements.
\<close>

theorem SilogPQueuePop_returns_top:
  assumes "pq_ok q" and "pq_order (pq_compare q)" and "heap (pq_compare q) (pq_elems q)"
    and "0 < pq_size q" and "length out = unat (pq_elementSize q)"
    and "malloc (unat (pq_elementSize q)) \<noteq> None"
  shows "\<exists>x q'. SilogPQueuePop malloc (Some q) (Some out) = Some (SILOG_OK, Some x, Some q') \<and> pq_ok q' \<and>
    mset (pq_elems q) = add_mset x (mset (pq_elems q')) \<and>
    (\<forall>y \<in> set (pq_elems q). pq_compare q y x \<le> 0) \<and> top_ok (pq_compare q') (pq_elems q') \<and>
    (pq_size q \<le> 4 \<longrightarrow> heap (pq_compare q') (pq_elems q'))"
proof -
  let ?xs = "pq_elems q" and ?cmp = "pq_compare q"
  have len: "length ?xs = unat (pq_size q)" using assms(1) by (rule length_pq_elems)
  have ne: "?xs \<noteq> []" using len assms(4) unat_gt_0 [of "pq_size q"] by auto
  have top: "\<forall>y \<in> set ?xs. ?cmp y (hd ?xs) \<le> 0"
    using pq_order.heap_top_ok [OF assms(2,3)] by (simp add: top_ok_def)
  have ow: "overwrite 0 (hd ?xs) out = hd ?xs"
    using length_pq_elem [OF assms(1), of "hd ?xs"] ne assms(5) by (simp add: overwrite_def)
  obtain q' where q': "SilogPQueuePop malloc (Some q) (Some out) = Some (SILOG_OK, Some (hd ?xs), Some q')"
      "pq_ok q'" "same_config q q'" "mset ?xs = add_mset (hd ?xs) (mset (pq_elems q'))"
    using Pop_bag [OF assms(1,4), of out malloc] assms(5) ow by auto
  have el: "pq_elems q' = (if pq_size q = 1 then popped ?xs else sifted_down ?cmp (popped ?xs) 0)"
    using Pop_elems [OF assms(1,4), of out malloc] assms(5,6) q'(1) by auto
  have "top_ok ?cmp (pq_elems q') \<and> (pq_size q \<le> 4 \<longrightarrow> heap ?cmp (pq_elems q'))"
  proof (cases "pq_size q = 1")
    case True
    then have "pq_elems q' = []" using el len by (auto simp: popped_def butlast_conv_take)
    then show ?thesis by (simp add: top_ok_def heap_def)
  next
    case False
    then have "2 \<le> length ?xs" using len ne by (cases ?xs) (auto simp: word_unat_eq_iff)
    from Pop_heap [OF assms(2,3) this] show ?thesis
      using False el len by (simp add: word_le_nat_alt)
  qed
  then show ?thesis using q' top by (auto simp: same_config_def)
qed

theorem SilogPQueuePop_returns_top_witness:
  "\<exists>q'. SilogPQueuePop (\<lambda>n. Some (replicate n 0)) (Some (pq_ex [9, 3, 5, 0, 0, 0, 0, 0] 3)) (Some [0]) =
     Some (SILOG_OK, Some [9], Some q') \<and> mset (pq_elems q') = {#[5], [3]#} \<and>
     heap (pq_compare q') (pq_elems q')"
proof -
  have el: "pq_elems (pq_ex [9, 3, 5, 0, 0, 0, 0, 0] 3) = [[9], [3], [5]]"
    by code_simp
  have "heap cmp_head [[9], [3], [5]]" by code_simp
  then obtain x q' where r: "SilogPQueuePop (\<lambda>n. Some (replicate n 0))
        (Some (pq_ex [9, 3, 5, 0, 0, 0, 0, 0] 3)) (Some [0]) = Some (SILOG_OK, Some x, Some q')"
      "{#[9], [3], [5]#} = add_mset x (mset (pq_elems q'))" "\<forall>y \<in> {[9], [3], [5]}. cmp_head y x \<le> 0"
      "heap (pq_compare q') (pq_elems q')"
    using SilogPQueuePop_returns_top [of "pq_ex [9, 3, 5, 0, 0, 0, 0, 0] 3" "[0]" "\<lambda>n. Some (replicate n 0)"]
      pq_ok_ex [of "[9, 3, 5, 0, 0, 0, 0, 0]" 3] el pq_order_cmp_head
    by (auto simp: pq_ex_def)
  have "x \<in># {#[9], [3], [5]#}" unfolding r(2) by simp
  then have "x = [9]" using r(3) by (auto simp: cmp_head_def)
  then show ?thesis using r by (auto simp: add_mset_commute)
qed

text \<open>
  C35. The queue loses and invents nothing, whatever the comparison function does and whether or not
  the temporary allocations of the sift functions succeed: pushing a list that fits into an empty
  queue and popping as many elements ends, without undefined behaviour, with a permutation of the
  list, and leaves the queue empty.
\<close>

theorem SilogPQueue_permutation:
  assumes "pq_ok q" and "pq_elems q = []" and "\<forall>x \<in> set xs. length x = unat (pq_elementSize q)"
    and "length xs \<le> unat (pq_capacity q)"
  shows "\<exists>q' ys q''. push_all (pq_push malloc) q xs = Some q' \<and>
    pop_many (pq_pop malloc) (length xs) q' = Some (ys, q'') \<and> mset ys = mset xs \<and> pq_elems q'' = []"
  using pq_bag.fill_and_drain [of q "pq_elementSize q" xs malloc] assms by simp

theorem SilogPQueue_permutation_witness:
  "\<exists>q' ys q''. push_all (pq_push (\<lambda>n. None)) (pq_ex [0, 0, 0, 0, 0, 0, 0, 0] 0) [[4], [7], [5]] = Some q' \<and>
    pop_many (pq_pop (\<lambda>n. None)) 3 q' = Some (ys, q'') \<and> mset ys = {#[4], [7], [5]#} \<and> pq_elems q'' = []"
  using SilogPQueue_permutation [of "pq_ex [0, 0, 0, 0, 0, 0, 0, 0] 0" "[[4], [7], [5]]" "\<lambda>n. None"]
    pq_ok_ex [of "[0, 0, 0, 0, 0, 0, 0, 0]" 0]
  by (simp add: pq_ex_def pq_elems_def numeral_3_eq_3)

text \<open>
  \<open>SiftDown\<close> does not restore the heap on longer queues: it compares the children of the second
  level with the stale copy left in the buffer instead of the sinking element. Pushing 10, 9, 8, 7, 6,
  5, 4 and popping all of them returns 6 before 7.
\<close>

lemma SilogPQueuePop_out_of_order:
  "(case push_all (pq_push (\<lambda>n. Some (replicate n 0))) (pq_ex [0, 0, 0, 0, 0, 0, 0, 0] 0)
        [[10], [9], [8], [7], [6], [5], [4]] of
      Some q \<Rightarrow> map_option fst (pop_many (pq_pop (\<lambda>n. Some (replicate n 0))) 7 q)
    | None \<Rightarrow> None) = Some [[10], [9], [8], [6], [7], [5], [4]]"
  by code_simp

text \<open>
  \<open>SilogPQueueReserve\<close> to a larger capacity whose byte count fits 32 bits keeps every element in
  its place, so the queue stays a heap, and the queue stays well formed.
\<close>

lemma SilogPQueueReserve_keeps_elements:
  assumes "pq_ok q" and "realloc_keeps realloc" and "pq_capacity q < newCapacity"
    and "unat (pq_elementSize q) * unat newCapacity < 2 ^ 32" and "unat newCapacity < 2 ^ 31"
    and "realloc (pq_buffer q) (unat (pq_elementSize q) * unat newCapacity) = Some b'"
  shows "\<exists>q'. SilogPQueueReserve realloc (Some q) newCapacity = (SILOG_OK, Some q') \<and> pq_ok q' \<and>
     pq_elems q' = pq_elems q \<and> pq_capacity q' = newCapacity"
  using assms by (rule Reserve_elems)

text \<open>
  The byte count of the buffer is a 32-bit product. When \<open>elementSize * capacity\<close> exceeds 32
  bits, \<open>SilogPQueueInit\<close> still returns \<open>SILOG_OK\<close>, with a buffer too small for the capacity: a
  push at the first slot that is not wholly inside the buffer, well below the capacity, is an access
  outside the block.
\<close>

lemma SilogPQueueInit_overflow:
  assumes "2 ^ 32 \<le> unat elementSize * unat capacity" and "\<forall>n b. malloc n = Some b \<longrightarrow> length b = n"
    and "malloc (unat (elementSize * capacity)) \<noteq> None"
    and "unat k = unat (elementSize * capacity) div unat elementSize" and "length x = unat elementSize"
  shows "\<exists>q'. SilogPQueueInit malloc (Some q) elementSize capacity (Some cmp) = (SILOG_OK, Some q') \<and>
    k < capacity \<and> SilogPQueuePush malloc (Some (q'\<lparr>pq_size := k\<rparr>)) (Some x) = None"
proof -
  let ?p = "unat (elementSize * capacity)" and ?e = "unat elementSize"
  obtain b where b: "malloc ?p = Some b" "length b = ?p" using assms(2,3) by auto
  have nz: "elementSize \<noteq> 0" "capacity \<noteq> 0" using assms(1) by auto
  then have e: "0 < ?e" by (simp add: unat_gt_0)
  let ?q = "q\<lparr>pq_buffer := Some b, pq_elementSize := elementSize, pq_capacity := capacity,
    pq_size := 0, pq_compare := cmp\<rparr>"
  have init: "SilogPQueueInit malloc (Some q) elementSize capacity (Some cmp) = (SILOG_OK, Some ?q)"
    using nz b(1) by (simp add: SilogPQueueInit_def)
  have ke: "unat k * ?e \<le> ?p" "?p < unat k * ?e + ?e"
    using assms(4) e by (simp_all add: div_times_less_eq_dividend dividend_less_div_times add.commute)
  have p: "?p < 2 ^ 32" using unsigned_less [where 'a = nat, of "elementSize * capacity"] by simp
  then have "?p < ?e * unat capacity" using assms(1) by linarith
  then have "unat k < unat capacity" using ke(1) e by (simp add: assms(4) less_mult_imp_div_less ac_simps)
  moreover have "unat (k * elementSize) = unat k * ?e" using ke(1) p by (intro unat_mult_exact) linarith
  then have "slot_set elementSize b k x = None"
    using ke(2) b(2) by (simp add: slot_set_def slot_off_def)
  ultimately have "k < capacity" "SilogPQueuePush malloc (Some (?q\<lparr>pq_size := k\<rparr>)) (Some x) = None"
    by (simp_all add: word_less_nat_alt word_le_nat_alt SilogPQueuePush_def)
  then show ?thesis using init by blast
qed

end
