(* ===== verification/Silog_File_Manager.thy ===== *)
theory Silog_File_Manager
  imports Silog_PQueue Silog_Mpsc Silog_Time
begin

text \<open>
  The log files of the daemon (\<open>silog_dae/src/silog_file_manager.c\<close>): writing, size-based rotation
  with unique history names, compression through the MPSC ring, and removal of old files with the
  priority queue. The global \<open>g_fileManager\<close> is a record, the files are a map from paths to
  contents and modification times, and an open \<open>FILE *\<close> is its path with the bytes that stdio has
  not yet written to the file. Every public function holds the mutex from start to end, so it is one
  step. The record \<open>fm_env\<close> gives the outcomes of the system calls of one call. C strings are their
  characters; a buffer of \<open>n\<close> bytes that \<open>snprintf_s\<close> fills keeps the first \<open>n - 1\<close> of them.
\<close>

section \<open>State\<close>

type_synonym path = "byte list"

record file_data =
  f_content :: "byte list"
  f_mtime :: u64

type_synonym fs = "path \<rightharpoonup> file_data"

datatype SilogFlushMode = SILOG_FLUSH_SYNC | SILOG_FLUSH_ASYNC
datatype SilogCompressMode = SILOG_COMPRESS_SYNC | SILOG_COMPRESS_ASYNC

record SilogLogFileConfig =
  lc_logDir :: "byte list"
  lc_logFileBase :: "byte list"
  lc_maxFileSize :: u32
  lc_maxFileCount :: u32
  lc_enableCompression :: bool
  lc_compressMode :: SilogCompressMode
  lc_flushMode :: SilogFlushMode
  lc_asyncFlushIntervalMs :: u32
  lc_asyncFlushSize :: u32
  lc_rotateRetryCount :: u32
  lc_rotateRetryDelayMs :: u32

record SilogFileManager =
  fm_config :: SilogLogFileConfig
  fm_currentFd :: "(path \<times> byte list) option"
  fm_currentSize :: u32
  fm_asyncBufferSize :: u64
  fm_lastFlushTimeMs :: u64
  fm_initialized :: bool
  fm_compressQueue :: SiLogMpscQueue
  fm_compressThreadRunning :: bool

text \<open>The initial value; the fields that its initialiser does not name are zero.\<close>

definition g_fileManager :: SilogFileManager where
  "g_fileManager = \<lparr>fm_config = \<lparr>lc_logDir = [], lc_logFileBase = [], lc_maxFileSize = 0, lc_maxFileCount = 0,
       lc_enableCompression = False, lc_compressMode = SILOG_COMPRESS_SYNC, lc_flushMode = SILOG_FLUSH_SYNC,
       lc_asyncFlushIntervalMs = 0, lc_asyncFlushSize = 0, lc_rotateRetryCount = 0, lc_rotateRetryDelayMs = 0\<rparr>,
     fm_currentFd = None, fm_currentSize = 0, fm_asyncBufferSize = 0, fm_lastFlushTimeMs = 0, fm_initialized = False,
     fm_compressQueue = zero_ring, fm_compressThreadRunning = False\<rparr>"

datatype dir_stat = StatDir | StatOther | StatMissing
datatype mkdir_result = MkdirOk | MkdirExists | MkdirFail

record fm_env =
  e_malloc :: "nat \<Rightarrow> byte list option"
  e_stat_dir :: "path \<Rightarrow> dir_stat"
  e_mkdir :: "path \<Rightarrow> mkdir_result"
  e_fopen :: "path \<Rightarrow> bool"
  e_scandir :: "path \<Rightarrow> fs \<Rightarrow> byte list list option"
  e_rename :: "nat \<Rightarrow> bool"
  e_fwrite :: "nat \<Rightarrow> nat"
  e_now :: u64
  e_mtime :: u64
  e_strftime :: "u64 \<Rightarrow> byte list"
  e_system :: "byte list \<Rightarrow> fs \<Rightarrow> fs"
  e_pthread_create :: int

section \<open>stdio\<close>

definition c_fflush :: "fm_env \<Rightarrow> path \<times> byte list \<Rightarrow> fs \<Rightarrow> fs" where
  "c_fflush env stream fs = (case stream of (p, pending) \<Rightarrow>
     (case fs p of None \<Rightarrow> fs
      | Some f \<Rightarrow> if pending = [] then fs
                  else fs(p \<mapsto> \<lparr>f_content = f_content f @ pending, f_mtime = e_mtime env\<rparr>)))"

definition fopen_append :: "fm_env \<Rightarrow> path \<Rightarrow> fs \<Rightarrow> (path \<times> byte list) option \<times> fs" where
  "fopen_append env p fs =
     (if e_fopen env p
      then (Some (p, []), case fs p of None \<Rightarrow> fs(p \<mapsto> \<lparr>f_content = [], f_mtime = e_mtime env\<rparr>) | Some f \<Rightarrow> fs)
      else (None, fs))"

definition fopen_truncate :: "fm_env \<Rightarrow> path \<Rightarrow> fs \<Rightarrow> (path \<times> byte list) option \<times> fs" where
  "fopen_truncate env p fs =
     (if e_fopen env p then (Some (p, []), fs(p \<mapsto> \<lparr>f_content = [], f_mtime = e_mtime env\<rparr>)) else (None, fs))"

section \<open>Paths\<close>

definition SilogFileManagerGetCurrentPath :: "SilogLogFileConfig \<Rightarrow> nat \<Rightarrow> path" where
  "SilogFileManagerGetCurrentPath cfg len =
     take (len - 1) (lc_logDir cfg @ chars ''/'' @ lc_logFileBase cfg @ chars ''.log'')"

definition SilogFileManagerEnsureDir :: "fm_env \<Rightarrow> SilogLogFileConfig \<Rightarrow> ErrorCode" where
  "SilogFileManagerEnsureDir env cfg =
     (case e_stat_dir env (lc_logDir cfg) of
        StatDir \<Rightarrow> SILOG_OK
      | StatOther \<Rightarrow> SILOG_FILE_OPEN
      | StatMissing \<Rightarrow> (case e_mkdir env (lc_logDir cfg) of MkdirFail \<Rightarrow> SILOG_FILE_OPEN | _ \<Rightarrow> SILOG_OK))"

definition SilogFileManagerFormatTimestamp :: "fm_env \<Rightarrow> u64 \<Rightarrow> nat \<Rightarrow> byte list" where
  "SilogFileManagerFormatTimestamp env tsMs len =
     take (len - 1) (e_strftime env (tsMs div 1000) @ chars ''_'' @ dec_pad 3 (unat (tsMs mod 1000)))"

section \<open>Removing old files\<close>

text \<open>
  A \<open>FileInfo\<close> is 512 bytes of path and the 8 bytes of \<open>mtime\<close> in the machine's order (least
  significant first).
\<close>

definition file_info :: "path \<Rightarrow> u64 \<Rightarrow> byte list" where
  "file_info p mtime = p @ replicate (512 - length p) 0 @ rev (be64 mtime)"

definition info_path :: "byte list \<Rightarrow> path" where
  "info_path b = cstr (take 512 b)"

definition info_mtime :: "byte list \<Rightarrow> int" where
  "info_mtime b = sint (de64 (rev (seg 512 8 b)))"

definition OldestFileCompare :: compare_fun where
  "OldestFileCompare a b =
     (if info_mtime a < info_mtime b then -1 else if info_mtime a > info_mtime b then 1 else 0)"

text \<open>The part of a name from its last dot, as \<open>strrchr\<close> finds it.\<close>

definition last_ext :: "byte list \<Rightarrow> byte list option" where
  "last_ext name = (if 46 \<in> set name then Some (46 # rev (takeWhile (\<lambda>b. b \<noteq> 46) (rev name))) else None)"

definition is_history :: "byte list \<Rightarrow> byte list \<Rightarrow> bool" where
  "is_history prefixPattern name \<longleftrightarrow>
     take (length prefixPattern) name = prefixPattern \<and>
     (case last_ext name of None \<Rightarrow> False | Some ext \<Rightarrow> ext = chars ''.log'' \<or> ext = chars ''.gz'')"

fun collect_files ::
  "fm_env \<Rightarrow> path \<Rightarrow> byte list \<Rightarrow> fs \<Rightarrow> byte list list \<Rightarrow> SiLogPQueue \<Rightarrow> SiLogPQueue c_result" where
  "collect_files env dir pat fs [] q = Some q"
| "collect_files env dir pat fs (name # names) q =
     (if \<not> is_history pat name then collect_files env dir pat fs names q
      else
        let p = take 511 (dir @ chars ''/'' @ name)
        in (case fs p of
              None \<Rightarrow> collect_files env dir pat fs names q
            | Some f \<Rightarrow> do {
                (r, q') \<leftarrow> SilogPQueuePush (e_malloc env) (Some q) (Some (file_info p (f_mtime f)));
                q'' \<leftarrow> q';
                collect_files env dir pat fs names q''
              }))"

partial_function (option) remove_oldest ::
  "(nat \<Rightarrow> byte list option) \<Rightarrow> u32 \<Rightarrow> SiLogPQueue \<Rightarrow> fs \<Rightarrow> (SiLogPQueue \<times> fs) option" where
  "remove_oldest malloc maxFileCount q fs =
     (if SilogPQueueSize (Some q) > maxFileCount then
        Option.bind (SilogPQueuePop malloc (Some q) (Some (replicate 520 0))) (\<lambda>(r, oldest, q').
        Option.bind oldest (\<lambda>b. Option.bind q' (\<lambda>q''.
          remove_oldest malloc maxFileCount q'' (fs(info_path b := None)))))
      else Some (q, fs))"

text \<open>
  The queue is a local variable; when its initialisation fails the code goes on with an
  uninitialised structure, which is undefined.
\<close>

definition SilogFileManagerCleanOldFiles :: "fm_env \<Rightarrow> SilogLogFileConfig \<Rightarrow> fs \<Rightarrow> (ErrorCode \<times> fs) c_result" where
  "SilogFileManagerCleanOldFiles env cfg fs =
     (let prefixPattern = take 127 (lc_logFileBase cfg @ chars ''_'')
      in (case e_scandir env (lc_logDir cfg) fs of
            None \<Rightarrow> Some (SILOG_FILE_OPEN, fs)
          | Some names \<Rightarrow>
              (case SilogPQueueInit (e_malloc env)
                  (Some \<lparr>pq_buffer = None, pq_elementSize = 0, pq_capacity = 0, pq_size = 0,
                     pq_compare = OldestFileCompare\<rparr>) 520 128 (Some OldestFileCompare) of
                 (SILOG_OK, Some q) \<Rightarrow> do {
                   q1 \<leftarrow> collect_files env (lc_logDir cfg) prefixPattern fs names q;
                   (q2, fs') \<leftarrow> remove_oldest (e_malloc env) (lc_maxFileCount cfg) q1 fs;
                   let q3 = SilogPQueueDestroy (Some q2);
                   Some (SILOG_OK, fs')
                 }
               | _ \<Rightarrow> None)))"

section \<open>Compression\<close>

definition SilogFileManagerDoCompress :: "fm_env \<Rightarrow> path \<Rightarrow> fs \<Rightarrow> fs" where
  "SilogFileManagerDoCompress env filePath fs =
     e_system env (take 543 (chars ''gzip \"'' @ filePath @ chars ''\" 2>/dev/null'')) fs"

definition compress_task :: "path \<Rightarrow> byte list" where
  "compress_task filePath = take 511 filePath @ replicate (512 - length (take 511 filePath)) 0"

text \<open>One turn of the compression thread; the flag tells whether there was a task.\<close>

definition compress_turn ::
  "fm_env \<Rightarrow> SilogFileManager \<Rightarrow> fs \<Rightarrow> (bool \<times> SilogFileManager \<times> fs) c_result" where
  "compress_turn env g fs = do {
     (ret, task, q) \<leftarrow> SilogMpscQueuePop (Some (fm_compressQueue g)) (Some (replicate 512 0));
     b \<leftarrow> task; q' \<leftarrow> q;
     let g' = g\<lparr>fm_compressQueue := q'\<rparr>;
     if ret = SILOG_OK then Some (True, g', SilogFileManagerDoCompress env (cstr b) fs)
     else Some (False, g', fs)
   }"

text \<open>What the thread does once the running flag is cleared: it handles the remaining tasks.\<close>

partial_function (option) compress_drain ::
  "fm_env \<Rightarrow> SilogFileManager \<Rightarrow> fs \<Rightarrow> (SilogFileManager \<times> fs) option" where
  "compress_drain env g fs =
     Option.bind (compress_turn env g fs) (\<lambda>(more, g', fs').
       if more then compress_drain env g' fs' else Some (g', fs'))"

text \<open>
  The thread from the test of its loop on: with the flag set one turn of the loop, with the flag cleared
  the rest of the function.
\<close>

definition SilogFileManagerCompressThread ::
  "fm_env \<Rightarrow> SilogFileManager \<Rightarrow> fs \<Rightarrow> (SilogFileManager \<times> fs) c_result" where
  "SilogFileManagerCompressThread env g fs =
     (if fm_compressThreadRunning g then map_option (\<lambda>(busy, g', fs'). (g', fs')) (compress_turn env g fs)
      else compress_drain env g fs)"

definition SilogFileManagerCompressFile ::
  "fm_env \<Rightarrow> path \<Rightarrow> SilogFileManager \<Rightarrow> fs \<Rightarrow> (SilogFileManager \<times> fs) c_result" where
  "SilogFileManagerCompressFile env filePath g fs =
     (if \<not> lc_enableCompression (fm_config g) then Some (g, fs)
      else if lc_compressMode (fm_config g) = SILOG_COMPRESS_ASYNC then do {
        (pushRet, q) \<leftarrow> SilogMpscQueuePush (Some (fm_compressQueue g)) (Some (compress_task filePath));
        q' \<leftarrow> q;
        Some (g\<lparr>fm_compressQueue := q'\<rparr>, fs)
      }
      else Some (g, SilogFileManagerDoCompress env filePath fs))"

section \<open>Rotation\<close>

definition history_name :: "SilogLogFileConfig \<Rightarrow> byte list \<Rightarrow> nat \<Rightarrow> path" where
  "history_name cfg timestamp sq =
     take 511 (lc_logDir cfg @ chars ''/'' @ lc_logFileBase cfg @ chars ''_'' @ timestamp @
       (if sq = 0 then [] else chars ''_'' @ dec sq) @ chars ''.log'')"

text \<open>The loop over the sequence numbers; the path of the last turn is kept.\<close>

function history_loop :: "SilogLogFileConfig \<Rightarrow> byte list \<Rightarrow> fs \<Rightarrow> nat \<Rightarrow> path \<Rightarrow> path" where
  "history_loop cfg timestamp fs sq historyPath =
     (if sq < 10 then
        let p = history_name cfg timestamp sq
        in if fs p = None then p else history_loop cfg timestamp fs (Suc sq) p
      else historyPath)"
  by pat_completeness auto
termination
  by (relation "measure (\<lambda>(cfg, timestamp, fs, sq, p). 10 - sq)") auto

declare history_loop.simps [simp del]

text \<open>
  \<open>rename\<close> with retries: \<open>e_rename env k\<close> is the outcome of attempt \<open>k\<close>; the result is the value
  of \<open>retry\<close> after the loop and the files.
\<close>

function rename_loop :: "fm_env \<Rightarrow> path \<Rightarrow> path \<Rightarrow> nat \<Rightarrow> fs \<Rightarrow> nat \<Rightarrow> nat \<times> fs" where
  "rename_loop env cur hist cnt fs retry =
     (if retry < cnt then
        (case fs cur of
           Some f \<Rightarrow> if e_rename env retry then (retry, fs(cur := None, hist \<mapsto> f))
                     else rename_loop env cur hist cnt fs (Suc retry)
         | None \<Rightarrow> rename_loop env cur hist cnt fs (Suc retry))
      else (retry, fs))"
  by pat_completeness auto
termination
  by (relation "measure (\<lambda>(env, cur, hist, cnt, fs, retry). cnt - retry)") auto

declare rename_loop.simps [simp del]

definition SilogFileManagerRotateInternal ::
  "fm_env \<Rightarrow> SilogFileManager \<Rightarrow> fs \<Rightarrow> (ErrorCode \<times> SilogFileManager \<times> fs) c_result" where
  "SilogFileManagerRotateInternal env g fs =
     (let cfg = fm_config g;
          currentPath = SilogFileManagerGetCurrentPath cfg 512;
          timestamp = SilogFileManagerFormatTimestamp env (e_now env) 32;
          historyPath = history_loop cfg timestamp fs 0 [];
          fs1 = (case fm_currentFd g of None \<Rightarrow> fs | Some stream \<Rightarrow> c_fflush env stream fs);
          g1 = g\<lparr>fm_currentFd := None\<rparr>;
          (retry, fs2) = rename_loop env currentPath historyPath (unat (lc_rotateRetryCount cfg)) fs1 0
      in if retry \<ge> unat (lc_rotateRetryCount cfg) then
           (case fopen_append env currentPath fs2 of
              (None, fs3) \<Rightarrow> Some (SILOG_FILE_OPEN, g1, fs3)
            | (Some fd, fs3) \<Rightarrow> Some (SILOG_FILE_WRITE, g1\<lparr>fm_currentFd := Some fd\<rparr>, fs3))
         else
           (case fopen_truncate env currentPath fs2 of
              (None, fs3) \<Rightarrow> Some (SILOG_FILE_OPEN, g1, fs3)
            | (Some fd, fs3) \<Rightarrow> do {
                let g2 = g1\<lparr>fm_currentFd := Some fd, fm_currentSize := 0, fm_asyncBufferSize := 0\<rparr>;
                (g3, fs4) \<leftarrow> SilogFileManagerCompressFile env historyPath g2 fs3;
                (ignored, fs5) \<leftarrow> SilogFileManagerCleanOldFiles env cfg fs4;
                Some (SILOG_OK, g3, fs5)
              }))"

section \<open>Public operations\<close>

definition SilogFileManagerGetDefaultConfig :: "SilogLogFileConfig option \<Rightarrow> SilogLogFileConfig option" where
  "SilogFileManagerGetDefaultConfig config = map_option (\<lambda>c. \<lparr>
     lc_logDir = chars ''/tmp/silog'', lc_logFileBase = chars ''silog'', lc_maxFileSize = 10 * 1024 * 1024,
     lc_maxFileCount = 10, lc_enableCompression = True, lc_compressMode = SILOG_COMPRESS_ASYNC,
     lc_flushMode = SILOG_FLUSH_ASYNC, lc_asyncFlushIntervalMs = 1000, lc_asyncFlushSize = 4 * 1024,
     lc_rotateRetryCount = 3, lc_rotateRetryDelayMs = 100\<rparr>) config"

definition SilogFileManagerInitWithConfig ::
  "fm_env \<Rightarrow> SilogLogFileConfig option \<Rightarrow> SilogFileManager \<Rightarrow> fs \<Rightarrow> ErrorCode \<times> SilogFileManager \<times> fs" where
  "SilogFileManagerInitWithConfig env config g fs =
     (case config of
        None \<Rightarrow> (SILOG_INVALID_ARG, g, fs)
      | Some cfg \<Rightarrow>
          if fm_initialized g then (SILOG_OK, g, fs)
          else
            let g1 = g\<lparr>fm_config := cfg\<rparr>;
                ret = SilogFileManagerEnsureDir env cfg
            in if ret \<noteq> SILOG_OK then (ret, g1, fs)
               else
                 let currentPath = SilogFileManagerGetCurrentPath cfg 512
                 in (case fopen_append env currentPath fs of
                      (None, fs1) \<Rightarrow> (SILOG_FILE_OPEN, g1\<lparr>fm_currentFd := None\<rparr>, fs1)
                    | (Some fd, fs1) \<Rightarrow>
                        let g2 = g1\<lparr>fm_currentFd := Some fd,
                              fm_currentSize := (case fs1 currentPath of
                                 Some f \<Rightarrow> word_of_nat (length (f_content f)) | None \<Rightarrow> 0)\<rparr>
                        in (case SilogMpscQueueInit (e_malloc env) (e_malloc env)
                              (Some (fm_compressQueue g2)) 512 64 of
                             (SILOG_OK, Some q) \<Rightarrow>
                               let g3 = g2\<lparr>fm_compressQueue := q, fm_compressThreadRunning := True\<rparr>
                               in if e_pthread_create env \<noteq> 0
                                  then (SILOG_THREAD_CREATE, g3\<lparr>fm_currentFd := None,
                                     fm_compressQueue := the (SilogMpscQueueDestroy (Some q))\<rparr>, fs1)
                                  else (SILOG_OK, g3\<lparr>fm_asyncBufferSize := 0,
                                     fm_lastFlushTimeMs := e_now env, fm_initialized := True\<rparr>, fs1)
                           | (ret, q) \<Rightarrow> (ret, g2\<lparr>fm_currentFd := None,
                               fm_compressQueue := (case q of Some q' \<Rightarrow> q' | None \<Rightarrow> fm_compressQueue g2)\<rparr>, fs1))))"

definition SilogFileManagerInit ::
  "fm_env \<Rightarrow> SilogLogFileConfig option \<Rightarrow> SilogFileManager \<Rightarrow> fs \<Rightarrow> ErrorCode \<times> SilogFileManager \<times> fs" where
  "SilogFileManagerInit env config g fs =
     (case config of
        None \<Rightarrow> SilogFileManagerInitWithConfig env (SilogFileManagerGetDefaultConfig (Some (fm_config g))) g fs
      | Some cfg \<Rightarrow> SilogFileManagerInitWithConfig env (Some cfg) g fs)"

text \<open>
  Shutting down joins the compression thread, which first works off its queue. When
  \<open>pthread_create\<close> had failed the flag is still set and \<open>pthread_join\<close> is called on a thread that
  never was; \<open>created\<close> tells whether there is one.
\<close>

definition SilogFileManagerDeinit ::
  "fm_env \<Rightarrow> bool \<Rightarrow> SilogFileManager \<Rightarrow> fs \<Rightarrow> (SilogFileManager \<times> fs) c_result" where
  "SilogFileManagerDeinit env created g fs =
     (let fs1 = (case fm_currentFd g of None \<Rightarrow> fs | Some stream \<Rightarrow> c_fflush env stream fs);
          g1 = g\<lparr>fm_currentFd := None, fm_initialized := False\<rparr>
      in if fm_compressThreadRunning g1 then
           if created then do {
             (g2, fs2) \<leftarrow> SilogFileManagerCompressThread env (g1\<lparr>fm_compressThreadRunning := False\<rparr>) fs1;
             q \<leftarrow> SilogMpscQueueDestroy (Some (fm_compressQueue g2));
             Some (g2\<lparr>fm_compressQueue := q\<rparr>, fs2)
           }
           else None
         else Some (g1, fs1))"

definition SilogFileManagerSetLogDir :: "path option \<Rightarrow> SilogFileManager \<Rightarrow> ErrorCode \<times> SilogFileManager" where
  "SilogFileManagerSetLogDir dir g =
     (case dir of
        None \<Rightarrow> (SILOG_INVALID_ARG, g)
      | Some d \<Rightarrow> if fm_initialized g then (SILOG_BUSY, g)
                  else (SILOG_OK, g\<lparr>fm_config := (fm_config g)\<lparr>lc_logDir := take 255 d\<rparr>\<rparr>))"

definition SilogFileManagerSetLogFileBase :: "path option \<Rightarrow> SilogFileManager \<Rightarrow> ErrorCode \<times> SilogFileManager" where
  "SilogFileManagerSetLogFileBase base g =
     (case base of
        None \<Rightarrow> (SILOG_INVALID_ARG, g)
      | Some b \<Rightarrow> if fm_initialized g then (SILOG_BUSY, g)
                  else (SILOG_OK, g\<lparr>fm_config := (fm_config g)\<lparr>lc_logFileBase := take 63 b\<rparr>\<rparr>))"

definition SilogFileManagerSetMaxFileSize :: "u32 \<Rightarrow> SilogFileManager \<Rightarrow> SilogFileManager" where
  "SilogFileManagerSetMaxFileSize sz g = g\<lparr>fm_config := (fm_config g)\<lparr>lc_maxFileSize := sz\<rparr>\<rparr>"

definition SilogFileManagerSetMaxFileCount :: "u32 \<Rightarrow> SilogFileManager \<Rightarrow> SilogFileManager" where
  "SilogFileManagerSetMaxFileCount cnt g = g\<lparr>fm_config := (fm_config g)\<lparr>lc_maxFileCount := cnt\<rparr>\<rparr>"

definition SilogFileManagerSetCompression :: "bool \<Rightarrow> SilogFileManager \<Rightarrow> SilogFileManager" where
  "SilogFileManagerSetCompression enable g = g\<lparr>fm_config := (fm_config g)\<lparr>lc_enableCompression := enable\<rparr>\<rparr>"

definition SilogFileManagerSetCompressMode :: "SilogCompressMode \<Rightarrow> SilogFileManager \<Rightarrow> SilogFileManager" where
  "SilogFileManagerSetCompressMode mode g = g\<lparr>fm_config := (fm_config g)\<lparr>lc_compressMode := mode\<rparr>\<rparr>"

definition SilogFileManagerSetFlushMode :: "SilogFlushMode \<Rightarrow> SilogFileManager \<Rightarrow> SilogFileManager" where
  "SilogFileManagerSetFlushMode mode g = g\<lparr>fm_config := (fm_config g)\<lparr>lc_flushMode := mode\<rparr>\<rparr>"

definition SilogFileManagerSetAsyncFlushInterval :: "u32 \<Rightarrow> SilogFileManager \<Rightarrow> SilogFileManager" where
  "SilogFileManagerSetAsyncFlushInterval ms g = g\<lparr>fm_config := (fm_config g)\<lparr>lc_asyncFlushIntervalMs := ms\<rparr>\<rparr>"

definition SilogFileManagerSetAsyncFlushSize :: "u32 \<Rightarrow> SilogFileManager \<Rightarrow> SilogFileManager" where
  "SilogFileManagerSetAsyncFlushSize sz g = g\<lparr>fm_config := (fm_config g)\<lparr>lc_asyncFlushSize := sz\<rparr>\<rparr>"

text \<open>Writing the current stream through to its file.\<close>

definition flush_current :: "fm_env \<Rightarrow> SilogFileManager \<Rightarrow> fs \<Rightarrow> SilogFileManager \<times> fs" where
  "flush_current env g fs = (case fm_currentFd g of None \<Rightarrow> (g, fs)
     | Some (p, pending) \<Rightarrow> (g\<lparr>fm_currentFd := Some (p, [])\<rparr>, c_fflush env (p, pending) fs))"

text \<open>
  The part of \<open>SilogFileManagerWriteRaw\<close> after the rotation check: \<open>fwrite\<close> takes
  \<open>e_fwrite env n\<close> of the \<open>n\<close> bytes it is given, then the stream is flushed as the mode says.
\<close>

definition write_and_flush ::
  "fm_env \<Rightarrow> byte list \<Rightarrow> u32 \<Rightarrow> SilogFileManager \<Rightarrow> fs \<Rightarrow> (ErrorCode \<times> SilogFileManager \<times> fs) c_result" where
  "write_and_flush env d len g fs = do {
     (p, pending) \<leftarrow> fm_currentFd g;
     bs \<leftarrow> load d 0 (unat len);
     let written = e_fwrite env (unat len);
     let g1 = g\<lparr>fm_currentFd := Some (p, pending @ take written bs)\<rparr>;
     if written \<noteq> unat len then Some (SILOG_FILE_WRITE, g1, fs)
     else
       let g2 = g1\<lparr>fm_currentSize := fm_currentSize g1 + len\<rparr>
       in if lc_flushMode (fm_config g2) = SILOG_FLUSH_SYNC then
            let (g3, fs') = flush_current env g2 fs
            in Some (SILOG_OK, g3\<lparr>fm_asyncBufferSize := 0\<rparr>, fs')
          else
            let g3 = g2\<lparr>fm_asyncBufferSize := fm_asyncBufferSize g2 + ucast len\<rparr>;
                now = e_now env
            in if fm_asyncBufferSize g3 \<ge> ucast (lc_asyncFlushSize (fm_config g3)) \<or>
                  now - fm_lastFlushTimeMs g3 \<ge> ucast (lc_asyncFlushIntervalMs (fm_config g3))
               then let (g4, fs') = flush_current env g3 fs
                    in Some (SILOG_OK, g4\<lparr>fm_asyncBufferSize := 0, fm_lastFlushTimeMs := now\<rparr>, fs')
               else Some (SILOG_OK, g3, fs)
   }"

definition SilogFileManagerWriteRaw ::
  "fm_env \<Rightarrow> byte list option \<Rightarrow> u32 \<Rightarrow> SilogFileManager \<Rightarrow> fs \<Rightarrow>
   (ErrorCode \<times> SilogFileManager \<times> fs) c_result" where
  "SilogFileManagerWriteRaw env data len g fs =
     (case data of
        None \<Rightarrow> Some (SILOG_INVALID_ARG, g, fs)
      | Some d \<Rightarrow>
          if len = 0 then Some (SILOG_INVALID_ARG, g, fs)
          else if \<not> fm_initialized g \<or> fm_currentFd g = None then Some (SILOG_FILE_MANAGER_NOT_INIT, g, fs)
          else if fm_currentSize g + len \<ge> lc_maxFileSize (fm_config g) then do {
            (ret, g', fs') \<leftarrow> SilogFileManagerRotateInternal env g fs;
            if ret \<noteq> SILOG_OK then Some (ret, g', fs') else write_and_flush env d len g' fs'
          }
          else write_and_flush env d len g fs)"

definition SilogFileManagerRotate ::
  "fm_env \<Rightarrow> SilogFileManager \<Rightarrow> fs \<Rightarrow> (ErrorCode \<times> SilogFileManager \<times> fs) c_result" where
  "SilogFileManagerRotate env g fs =
     (if \<not> fm_initialized g then Some (SILOG_FILE_MANAGER_NOT_INIT, g, fs)
      else SilogFileManagerRotateInternal env g fs)"

definition SilogFileManagerFlush :: "fm_env \<Rightarrow> SilogFileManager \<Rightarrow> fs \<Rightarrow> SilogFileManager \<times> fs" where
  "SilogFileManagerFlush env g fs =
     (if fm_currentFd g = None then (g, fs)
      else case flush_current env g fs of (g', fs') \<Rightarrow>
        (g'\<lparr>fm_asyncBufferSize := 0, fm_lastFlushTimeMs := e_now env\<rparr>, fs'))"

definition SilogFileManagerGetCurrentSize :: "SilogFileManager \<Rightarrow> u32" where
  "SilogFileManagerGetCurrentSize g = fm_currentSize g"

definition SilogFileManagerGetCurrentFilePath :: "bool \<Rightarrow> u32 \<Rightarrow> SilogFileManager \<Rightarrow> ErrorCode \<times> path option" where
  "SilogFileManagerGetCurrentFilePath path len g =
     (if \<not> path \<or> len = 0 then (SILOG_INVALID_ARG, None)
      else (SILOG_OK, Some (SilogFileManagerGetCurrentPath (fm_config g) (unat len))))"

end
