(* ===== verification/Silog_Daemon.thy ===== *)
theory Silog_Daemon
  imports Silog_Logger Silog_Remote_Server Silog_File_Manager
begin

text \<open>
  The daemon (\<open>silog_dae/src/silog_daemon.c\<close>): a thread that receives entries from the socket into
  the daemon's ring, a thread that takes them from the ring, formats a line, writes it to the log file
  and sends the entry to the remote viewers, and a thread that accepts viewers. The state holds the
  daemon's globals and those of the modules it drives. A thread is where it is in its function
  (\<open>thread_pc\<close>); a turn of its loop is one step, so the steps of the threads and of starting and
  stopping interleave. The copy of every line to the console is left out: it is compiled only where
  \<open>SILOG_EXE\<close> is defined, and the build defines that for \<open>silog_exe.c\<close> alone.
\<close>

section \<open>State\<close>

datatype thread_pc = NoThread | Created | Looping | Returned

record SilogDaemon =
  da_logQueue :: SiLogMpscQueue
  da_remoteEnabled :: bool
  da_remoteThread :: thread_pc
  da_remoteRunning :: bool
  da_running :: bool
  da_recvThread :: thread_pc
  da_writeThread :: thread_pc
  da_recvEntry :: "byte list"
  da_files :: SilogFileManager
  da_fs :: fs
  da_remote :: SilogRemoteManager
  da_prelog :: SilogPrelogManager_t
  da_out :: prelog_out
  da_ipc :: SilogIpcAgent

text \<open>
  The globals of a daemon process at its start; \<open>fs\<close> and \<open>out\<close> are what is outside of the process and
  \<open>entry\<close> the receiving thread's buffer on its stack.
\<close>

definition daemon_globals :: "fs \<Rightarrow> prelog_out \<Rightarrow> byte list \<Rightarrow> SilogDaemon" where
  "daemon_globals fs out entry = \<lparr>da_logQueue = zero_ring, da_remoteEnabled = False, da_remoteThread = NoThread,
     da_remoteRunning = False, da_running = False, da_recvThread = NoThread, da_writeThread = NoThread, da_recvEntry = entry,
     da_files = g_fileManager, da_fs = fs, da_remote = g_silogRemoteMgr, da_prelog = g_prelogMgr, da_out = out,
     da_ipc = g_silogIpcAgent\<rparr>"

record SilogDaemonRemoteConfig =
  dr_listenPort :: u16
  dr_maxClients :: u32
  dr_enable :: bool

record daemon_env =
  dv_fm :: fm_env
  dv_fopen :: "byte list \<Rightarrow> bool"
  dv_ipc :: ipc_env
  dv_recv :: dgram_recv
  dv_localtime :: "u64 \<Rightarrow> tm option"
  dv_sock :: int
  dv_bind :: int
  dv_listen :: int
  dv_fcntl :: "int \<Rightarrow> fcntl_cmd \<Rightarrow> int"
  dv_accept :: accept_result
  dv_send :: "int \<Rightarrow> nat \<Rightarrow> nat \<Rightarrow> send_result"
  dv_create_recv :: int
  dv_create_write :: int
  dv_create_remote :: int
  dv_join_compress :: bool

section \<open>The receiving thread\<close>

text \<open>The part before the loop.\<close>

definition recv_start :: "daemon_env \<Rightarrow> SilogDaemon \<Rightarrow> SilogDaemon" where
  "recv_start env d =
     (case SilogIpcServerInit (dv_ipc env) (SilogIpcInit SILOG_IPC_TYPE_UNIX_DGRAM (da_ipc d)) of (ret, ipc) \<Rightarrow>
        if ret \<noteq> SILOG_OK then d\<lparr>da_ipc := ipc, da_recvThread := Returned\<rparr>
        else d\<lparr>da_ipc := ipc, da_recvThread := Looping\<rparr>)"

text \<open>One turn of the loop, with the test at its head and the code after it.\<close>

definition recv_turn :: "daemon_env \<Rightarrow> SilogDaemon \<Rightarrow> SilogDaemon c_result" where
  "recv_turn env d =
     (if \<not> da_running d then Some (d\<lparr>da_ipc := SilogIpcServerClose (da_ipc d), da_recvThread := Returned\<rparr>)
      else (case SilogIpcServerRecv (dv_recv env) (da_recvEntry d) 384 (da_ipc d) of (n, entry) \<Rightarrow>
        let d1 = d\<lparr>da_recvEntry := entry\<rparr>
        in if n > 0 then do {
             (ret, q) \<leftarrow> SilogMpscQueuePush (Some (da_logQueue d1)) (Some entry);
             q' \<leftarrow> q;
             Some (d1\<lparr>da_logQueue := q'\<rparr>)
           }
           else Some d1))"

definition SilogDaemonRecvThreadFunc :: "daemon_env \<Rightarrow> SilogDaemon \<Rightarrow> SilogDaemon c_result" where
  "SilogDaemonRecvThreadFunc env d =
     (case da_recvThread d of
        Created \<Rightarrow> Some (recv_start env d)
      | Looping \<Rightarrow> recv_turn env d
      | _ \<Rightarrow> Some d)"

definition SilogDaemonRecvThreadInit :: "daemon_env \<Rightarrow> SilogDaemon \<Rightarrow> ErrorCode \<times> SilogDaemon" where
  "SilogDaemonRecvThreadInit env d =
     (if dv_create_recv env \<noteq> 0 then (SILOG_THREAD_CREATE, d\<lparr>da_recvThread := NoThread\<rparr>)
      else (SILOG_OK, d\<lparr>da_recvThread := Created\<rparr>))"

section \<open>The writing thread\<close>

definition log_line :: "byte list \<Rightarrow> byte list \<Rightarrow> u32 \<Rightarrow> u32 \<Rightarrow> byte list \<Rightarrow> byte list \<Rightarrow> u32 \<Rightarrow> byte list \<Rightarrow> byte list" where
  "log_line time level pid tid tag fname line msg =
     chars ''['' @ time @ chars ''][''  @ level @ chars ''][pid:'' @ dec_int (sint pid) @ chars '' tid:'' @ dec_int (sint tid) @
     chars ''][''  @ tag @ chars ''][''  @ fname @ chars '':'' @ dec (unat line) @ chars ''] '' @ msg @ [10]"

text \<open>The bytes handed to the file manager: the buffer and the length.\<close>

definition format_entry :: "(u64 \<Rightarrow> tm option) \<Rightarrow> logEntry_t \<Rightarrow> (int \<times> byte list) c_result" where
  "format_entry localtime e = do {
     timebuf \<leftarrow> SilogFormatWallClockMs localtime (le_ts e) (Some (replicate 32 0)) 32;
     tb \<leftarrow> timebuf;
     time \<leftarrow> array_string tb;
     tag \<leftarrow> array_string (le_tag e);
     fname \<leftarrow> array_string (le_file e);
     msg \<leftarrow> array_string (le_msg e);
     snprintf_s (replicate 512 0) (Some 0) 512 511 (Some (Rendered
       (log_line time (SilogUtilsLevelToName (le_level e)) (le_pid e) (le_tid e) tag fname (le_line e) msg))) \<bind>
       (\<lambda>(len, logbuf). Some (if len > 512 then 512 else len, logbuf))
   }"

text \<open>One turn of the loop, with what it sends to the sockets of the viewers.\<close>

definition write_turn :: "daemon_env \<Rightarrow> SilogDaemon \<Rightarrow> ((int \<times> byte list) list \<times> SilogDaemon) c_result" where
  "write_turn env d =
     (if \<not> da_running d then Some ([], d\<lparr>da_writeThread := Returned\<rparr>)
      else do {
        (ret, entry, q) \<leftarrow> SilogMpscQueuePop (Some (da_logQueue d)) (Some (replicate 384 0));
        b \<leftarrow> entry; q' \<leftarrow> q;
        let d1 = d\<lparr>da_logQueue := q'\<rparr>;
        if ret = SILOG_OK then do {
          (len, logbuf) \<leftarrow> format_entry (dv_localtime env) (struct_entry b);
          if len < 0 then Some ([], d1)
          else do {
            (r, fm, fs) \<leftarrow> SilogFileManagerWriteRaw (dv_fm env) (Some logbuf) (word_of_int len) (da_files d1) (da_fs d1);
            let d2 = d1\<lparr>da_files := fm, da_fs := fs\<rparr>;
            if da_remoteEnabled d2 then do {
              (r2, n, wire, rm) \<leftarrow> SilogRemoteBroadcast (dv_send env) (Some (struct_entry b)) None (da_remote d2);
              Some (wire, d2\<lparr>da_remote := rm\<rparr>)
            }
            else Some ([], d2)
          }
        }
        else Some ([], d1)
      })"

definition SilogDaemonWriteThreadFunc :: "daemon_env \<Rightarrow> SilogDaemon \<Rightarrow> ((int \<times> byte list) list \<times> SilogDaemon) c_result" where
  "SilogDaemonWriteThreadFunc env d =
     (case da_writeThread d of
        Created \<Rightarrow> write_turn env (d\<lparr>da_writeThread := Looping\<rparr>)
      | Looping \<Rightarrow> write_turn env d
      | _ \<Rightarrow> Some ([], d))"

definition SilogDaemonWriteThreadInit :: "daemon_env \<Rightarrow> SilogDaemon \<Rightarrow> ErrorCode \<times> SilogDaemon" where
  "SilogDaemonWriteThreadInit env d =
     (if dv_create_write env \<noteq> 0 then (SILOG_THREAD_CREATE, d\<lparr>da_writeThread := NoThread\<rparr>)
      else (SILOG_OK, d\<lparr>da_writeThread := Created\<rparr>))"

section \<open>The remote service\<close>

definition SilogDaemonRemoteThreadFunc :: "daemon_env \<Rightarrow> SilogDaemon \<Rightarrow> SilogDaemon c_result" where
  "SilogDaemonRemoteThreadFunc env d =
     (case da_remoteThread d of
        NoThread \<Rightarrow> Some d
      | Returned \<Rightarrow> Some d
      | _ \<Rightarrow> if \<not> da_remoteRunning d then Some (d\<lparr>da_remoteThread := Returned\<rparr>)
             else do {
               (r, rm) \<leftarrow> SilogRemoteAccept (dv_accept env) (dv_fcntl env) (da_remote d);
               Some (d\<lparr>da_remote := rm, da_remoteThread := Looping\<rparr>)
             })"

definition SilogDaemonRemoteInit ::
  "daemon_env \<Rightarrow> SilogDaemonRemoteConfig option \<Rightarrow> SilogDaemon \<Rightarrow> (ErrorCode \<times> SilogDaemon) c_result" where
  "SilogDaemonRemoteInit env config d =
     (if da_remoteEnabled d then Some (SILOG_OK, d)
      else
        let remoteConfig = \<lparr>
              cf_listenPort = (case config of Some c \<Rightarrow> if dr_listenPort c \<noteq> 0 then dr_listenPort c else 9090 | None \<Rightarrow> 9090),
              cf_maxClients = (case config of Some c \<Rightarrow> if dr_maxClients c \<noteq> 0 then dr_maxClients c else 10 | None \<Rightarrow> 10),
              cf_enableAuth = False\<rparr>
        in case SilogRemoteInit (e_malloc (dv_fm env)) (dv_sock env) (dv_bind env) (dv_listen env) (dv_fcntl env)
              (Some remoteConfig) (da_remote d) of (ret, rm) \<Rightarrow>
             let d1 = d\<lparr>da_remote := rm\<rparr>
             in if ret \<noteq> SILOG_OK then Some (ret, d1)
                else
                  let d2 = d1\<lparr>da_remoteRunning := True\<rparr>
                  in if dv_create_remote env \<noteq> 0 then do {
                       rm' \<leftarrow> SilogRemoteDeinit (da_remote d2);
                       Some (SILOG_THREAD_CREATE, d2\<lparr>da_remote := rm'\<rparr>)
                     }
                     else Some (SILOG_OK, d2\<lparr>da_remoteThread := Created, da_remoteEnabled := True\<rparr>))"

text \<open>Joining the thread waits for it to return.\<close>

definition SilogDaemonRemoteDeinit :: "SilogDaemon \<Rightarrow> SilogDaemon c_result" where
  "SilogDaemonRemoteDeinit d =
     (if \<not> da_remoteEnabled d then Some d
      else do {
        rm \<leftarrow> SilogRemoteDeinit (da_remote d);
        Some (d\<lparr>da_remoteRunning := False, da_remoteThread := NoThread, da_remote := rm, da_remoteEnabled := False\<rparr>)
      })"

definition SilogDaemonRemoteIsEnabled :: "SilogDaemon \<Rightarrow> bool" where
  "SilogDaemonRemoteIsEnabled d = da_remoteEnabled d"

definition SilogDaemonRemoteGetClientCount :: "SilogDaemon \<Rightarrow> u32" where
  "SilogDaemonRemoteGetClientCount d = (if \<not> da_remoteEnabled d then 0 else SilogRemoteGetClientCount (da_remote d))"

section \<open>Starting and stopping\<close>

text \<open>
  \<open>SilogDaemonInit\<close> up to the store of \<open>g_daemonRunning\<close>; the flag tells whether that store is
  reached.
\<close>

definition daemon_init_create :: "daemon_env \<Rightarrow> SilogDaemon \<Rightarrow> (ErrorCode \<times> bool \<times> SilogDaemon) c_result" where
  "daemon_init_create env d =
     (if da_running d then Some (SILOG_OK, False, d)
      else case SilogPrelogInit (dv_fopen env)
          (Some \<lparr>pc_path = chars ''/tmp/silog_daemon.txt'', pc_minLevel = SILOG_PRELOG_LEVEL_DEBUG, pc_enableStdout = False\<rparr>)
          (da_prelog d) (da_out d) of (r0, pl, out) \<Rightarrow>
        let d1 = d\<lparr>da_prelog := pl, da_out := out\<rparr>
        in case SilogFileManagerInit (dv_fm env) None (da_files d1) (da_fs d1) of (r1, fm, fs) \<Rightarrow>
          let d2 = d1\<lparr>da_files := fm, da_fs := fs\<rparr>
          in if r1 \<noteq> SILOG_OK then Some (r1, False, d2)
             else case SilogMpscQueueInit (e_malloc (dv_fm env)) (e_malloc (dv_fm env)) (Some (da_logQueue d2)) 384 4096 of (r2, q) \<Rightarrow>
               let d3 = d2\<lparr>da_logQueue := (case q of Some q' \<Rightarrow> q' | None \<Rightarrow> da_logQueue d2)\<rparr>
               in if r2 \<noteq> SILOG_OK then do {
                    (fm', fs') \<leftarrow> SilogFileManagerDeinit (dv_fm env) (dv_join_compress env) (da_files d3) (da_fs d3);
                    Some (r2, False, d3\<lparr>da_files := fm', da_fs := fs'\<rparr>)
                  }
                  else case SilogDaemonRecvThreadInit env d3 of (r3, d4) \<Rightarrow>
                    if r3 \<noteq> SILOG_OK then Some (r3, False, d4)
                    else case SilogDaemonWriteThreadInit env d4 of (r4, d5) \<Rightarrow>
                      if r4 \<noteq> SILOG_OK then Some (r4, False, d5)
                      else do {
                        (r5, d6) \<leftarrow> SilogDaemonRemoteInit env (Some \<lparr>dr_listenPort = 0, dr_maxClients = 0, dr_enable = True\<rparr>) d5;
                        Some (SILOG_OK, True, d6)
                      })"

definition daemon_init_commit :: "SilogDaemon \<Rightarrow> SilogDaemon" where
  "daemon_init_commit d = d\<lparr>da_running := True\<rparr>"

definition SilogDaemonInit :: "daemon_env \<Rightarrow> SilogDaemon \<Rightarrow> (ErrorCode \<times> SilogDaemon) c_result" where
  "SilogDaemonInit env d = do {
     (r, reached, d1) \<leftarrow> daemon_init_create env d;
     Some (r, if reached then daemon_init_commit d1 else d1)
   }"

text \<open>
  Joining a thread: it sees the cleared flag and returns, the receiving thread closing its socket,
  which it opens first when it has not run yet.
\<close>

definition join_recv :: "daemon_env \<Rightarrow> SilogDaemon \<Rightarrow> SilogDaemon c_result" where
  "join_recv env d =
     (case da_recvThread d of
        NoThread \<Rightarrow> Some d
      | Created \<Rightarrow> do {
          let d1 = recv_start env d;
          d2 \<leftarrow> (if da_recvThread d1 = Looping then recv_turn env d1 else Some d1);
          Some (d2\<lparr>da_recvThread := NoThread\<rparr>)
        }
      | Looping \<Rightarrow> do { d1 \<leftarrow> recv_turn env d; Some (d1\<lparr>da_recvThread := NoThread\<rparr>) }
      | Returned \<Rightarrow> Some (d\<lparr>da_recvThread := NoThread\<rparr>))"

definition SilogDaemonDeinit :: "daemon_env \<Rightarrow> SilogDaemon \<Rightarrow> SilogDaemon c_result" where
  "SilogDaemonDeinit env d = do {
     d1 \<leftarrow> join_recv env (d\<lparr>da_running := False\<rparr>);
     let d2 = d1\<lparr>da_writeThread := NoThread\<rparr>;
     d3 \<leftarrow> SilogDaemonRemoteDeinit d2;
     let d4 = d3\<lparr>da_prelog := SilogPrelogDeinit (da_prelog d3)\<rparr>;
     (fm, fs) \<leftarrow> SilogFileManagerDeinit (dv_fm env) (dv_join_compress env) (da_files d4) (da_fs d4);
     q \<leftarrow> SilogMpscQueueDestroy (Some (da_logQueue d4));
     Some (d4\<lparr>da_files := fm, da_fs := fs, da_logQueue := q\<rparr>)
   }"

end
