(* ===== verification/Silog_File_Manager_Ok.thy ===== *)
theory Silog_File_Manager_Ok
  imports Silog_File_Manager
begin

text \<open>
  What the file manager does: which files the clean-up removes (from the contract of the priority
  queue), what a rotation does to the files, the invariant that every public operation and every turn
  of the compression thread keeps, and the properties of writing, rotating and cleaning up.
\<close>

section \<open>Removing old files: what the scan and the queue do\<close>

lemma length_file_info: "length p \<le> 512 \<Longrightarrow> length (file_info p t) = 520"
  by (simp add: file_info_def be64_def)

lemma info_path_file_info: "length p < 512 \<Longrightarrow> 0 \<notin> set p \<Longrightarrow> info_path (file_info p t) = p"
proof -
  assume p: "length p < 512" "0 \<notin> set p"
  then obtain k where "512 - length p = Suc k" by (cases "512 - length p") auto
  then show ?thesis
    using p by (simp add: info_path_def file_info_def cstr_append_zero)
qed

lemma info_mtime_file_info: "length p < 512 \<Longrightarrow> info_mtime (file_info p t) = sint t"
  by (simp add: info_mtime_def file_info_def seg_def be64_def de64_be64 [unfolded be64_def])

text \<open>The comparison is a total preorder, so it provides the order the queue asks for.\<close>

interpretation oldest: pq_order OldestFileCompare
  by unfold_locales (auto simp: OldestFileCompare_def split: if_splits)

definition file_path :: "SilogLogFileConfig \<Rightarrow> byte list \<Rightarrow> path" where
  "file_path cfg name = take 511 (lc_logDir cfg @ chars ''/'' @ name)"

definition prefix_pattern :: "SilogLogFileConfig \<Rightarrow> byte list" where
  "prefix_pattern cfg = take 127 (lc_logFileBase cfg @ chars ''_'')"

definition history_files :: "SilogLogFileConfig \<Rightarrow> fs \<Rightarrow> byte list list \<Rightarrow> path list" where
  "history_files cfg fs names =
     filter (\<lambda>p. fs p \<noteq> None) (map (file_path cfg) (filter (is_history (prefix_pattern cfg)) names))"

definition info_of :: "fs \<Rightarrow> path \<Rightarrow> byte list" where
  "info_of fs p = file_info p (f_mtime (the (fs p)))"

lemma collect_files_push_all:
  "collect_files env (lc_logDir cfg) (prefix_pattern cfg) fs names q =
     push_all (pq_push (e_malloc env)) q (map (info_of fs) (history_files cfg fs names))"
proof (induction names arbitrary: q)
  case Nil
  show ?case by (simp add: history_files_def)
next
  case (Cons name names)
  let ?p = "file_path cfg name" and ?cf = "collect_files env (lc_logDir cfg) (prefix_pattern cfg) fs"
  have cf: "?cf (name # names) q =
     (if \<not> is_history (prefix_pattern cfg) name then ?cf names q
      else case fs ?p of None \<Rightarrow> ?cf names q
        | Some f \<Rightarrow> Option.bind (SilogPQueuePush (e_malloc env) (Some q) (Some (file_info ?p (f_mtime f))))
            (\<lambda>(r, q'). Option.bind q' (?cf names)))"
    by (simp only: collect_files.simps file_path_def Let_def)
  show ?case
  proof (cases "is_history (prefix_pattern cfg) name \<and> fs ?p \<noteq> None")
    case True
    then obtain f where f: "fs ?p = Some f" by blast
    have "history_files cfg fs (name # names) = ?p # history_files cfg fs names"
      using True by (simp add: history_files_def)
    then show ?thesis
      unfolding cf using True f Cons.IH
      by (auto simp: info_of_def pq_push_def [abs_def] split: option.splits bind_splits)
  next
    case False
    then have "history_files cfg fs (name # names) = history_files cfg fs names"
      by (auto simp: history_files_def)
    then show ?thesis unfolding cf using False Cons.IH by auto
  qed
qed

lemma pq_pop_some:
  assumes "pq_ok q" and "pq_elementSize q = es" and "pq_elems q \<noteq> []"
  shows "\<exists>q'. pq_pop malloc q = Some (SILOG_OK, hd (pq_elems q), q') \<and> pq_ok q' \<and> same_config q q' \<and>
    mset (pq_elems q) = add_mset (hd (pq_elems q)) (mset (pq_elems q'))"
proof -
  have ne: "0 < pq_size q" using assms(1,3) length_pq_elems [of q] by (auto simp: word_gt_0)
  have "length (hd (pq_elems q)) = unat (pq_elementSize q)"
    using assms length_pq_elem [of q "hd (pq_elems q)"] by simp
  then show ?thesis
    using Pop_bag [OF assms(1) ne, of "replicate (unat (pq_elementSize q)) 0" malloc]
    by (auto simp: pq_pop_def overwrite_def)
qed

lemma remove_oldest_pop_many:
  assumes "pq_ok q" and "pq_elementSize q = 520"
  shows "remove_oldest malloc m q fs =
    Option.bind (pop_many (pq_pop malloc) (unat (pq_size q) - unat m) q)
      (\<lambda>(xs, q'). Some (q', fs |` (- info_path ` set xs)))"
  using assms
proof (induction "unat (pq_size q) - unat m" arbitrary: q fs)
  case 0
  then have "\<not> m < pq_size q" by (simp add: word_less_nat_alt)
  then show ?case using 0(1)
    by (subst remove_oldest.simps) (simp add: SilogPQueueSize_def restrict_map_def)
next
  case (Suc k)
  have m: "m < pq_size q" using Suc(2) by (simp add: word_less_nat_alt)
  have "pq_elems q \<noteq> []" using length_pq_elems [OF Suc.prems(1)] Suc(2) by auto
  from pq_pop_some [OF Suc.prems this, of malloc] obtain q' where
    q': "pq_pop malloc q = Some (SILOG_OK, hd (pq_elems q), q')" "pq_ok q'" "same_config q q'"
      "mset (pq_elems q) = add_mset (hd (pq_elems q)) (mset (pq_elems q'))"
    by blast
  have sz: "unat (pq_size q) = Suc (unat (pq_size q'))"
    using arg_cong [OF q'(4), of size] length_pq_elems [OF q'(2)] length_pq_elems [OF Suc.prems(1)] by simp
  have k: "k = unat (pq_size q') - unat m" using Suc(2) sz by simp
  have es: "pq_elementSize q' = 520" using q'(3) Suc.prems(2) by (simp add: same_config_def)
  have pop: "SilogPQueuePop malloc (Some q) (Some (replicate 520 0)) = Some (SILOG_OK, Some (hd (pq_elems q)), Some q')"
    using q'(1) Suc.prems(2) by (auto simp: pq_pop_def split: option.splits)
  have "remove_oldest malloc m q fs = remove_oldest malloc m q' (fs(info_path (hd (pq_elems q)) := None))"
    using m pop by (subst remove_oldest.simps) (simp add: SilogPQueueSize_def)
  also have "\<dots> = Option.bind (pop_many (pq_pop malloc) k q')
      (\<lambda>(xs, q'). Some (q', fs(info_path (hd (pq_elems q)) := None) |` (- info_path ` set xs)))"
    using Suc.hyps(1) [OF k q'(2) es] k by simp
  also have "\<dots> = Option.bind (pop_many (pq_pop malloc) (Suc k) q)
      (\<lambda>(xs, q'). Some (q', fs |` (- info_path ` set xs)))"
    using q'(1) by (auto simp: restrict_map_def fun_eq_iff split: bind_splits)
  finally show ?case using Suc(2) by simp
qed

lemma history_files_len: "p \<in> set (history_files cfg fs names) \<Longrightarrow> length p < 512"
  by (auto simp: history_files_def file_path_def)

lemma history_files_dom: "p \<in> set (history_files cfg fs names) \<Longrightarrow> p \<in> dom fs"
  by (auto simp: history_files_def)

text \<open>With memory for the temporary element, pushing keeps the heap order.\<close>

lemma push_all_heap:
  assumes "pq_ok q" and "pq_order (pq_compare q)" and "heap (pq_compare q) (pq_elems q)"
    and "malloc (unat (pq_elementSize q)) \<noteq> None" and "\<forall>x \<in> set xs. length x = unat (pq_elementSize q)"
    and "push_all (pq_push malloc) q xs = Some q'"
  shows "heap (pq_compare q) (pq_elems q') \<and> same_config q q'"
  using assms
proof (induction xs arbitrary: q)
  case Nil
  then show ?case by (simp add: same_config_def)
next
  case (Cons x xs)
  have x: "length x = unat (pq_elementSize q)" using Cons.prems(5) by simp
  show ?case
  proof (cases "pq_size q < pq_capacity q")
    case True
    from Push_elems [OF Cons.prems(1) True x, of malloc] Cons.prems(4) obtain q1 where
      q1: "SilogPQueuePush malloc (Some q) (Some x) = Some (SILOG_OK, Some q1)" "pq_ok q1" "same_config q q1"
        "pq_elems q1 = sifted_up (pq_compare q) (pq_elems q @ [x]) (unat (pq_size q))"
      by auto
    have c: "pq_compare q1 = pq_compare q" "pq_elementSize q1 = pq_elementSize q"
      using q1(3) by (simp_all add: same_config_def)
    have "heap (pq_compare q1) (pq_elems q1)"
      unfolding q1(4) c by (rule Push_heap [OF Cons.prems(2,3,1)])
    moreover have "pq_push malloc q x = Some (SILOG_OK, q1)" using q1(1) by (simp add: pq_push_def)
    then have "push_all (pq_push malloc) q1 xs = Some q'" using Cons.prems(6) by simp
    ultimately have "heap (pq_compare q1) (pq_elems q') \<and> same_config q1 q'"
      using Cons.IH [OF q1(2)] Cons.prems(2,4,5) c by simp
    then show ?thesis using q1(3) by (simp add: same_config_def)
  next
    case False
    then have "pq_push malloc q x = Some (SILOG_BUSY, q)"
      by (simp add: pq_push_def SilogPQueuePush_def not_less)
    then have "push_all (pq_push malloc) q xs = Some q'" using Cons.prems(6) by simp
    then show ?thesis using Cons.IH [OF Cons.prems(1-4)] Cons.prems(5) by simp
  qed
qed

definition malloc_ok :: "fm_env \<Rightarrow> bool" where
  "malloc_ok env \<longleftrightarrow> (\<forall>n. \<exists>b. e_malloc env n = Some b \<and> length b = n)"

text \<open>The queue after the history files have been collected, and the element that is popped first.\<close>

lemma collected_queue:
  assumes "malloc_ok env"
  obtains q0 q1 where
    "SilogPQueueInit (e_malloc env) (Some \<lparr>pq_buffer = None, pq_elementSize = 0, pq_capacity = 0, pq_size = 0,
       pq_compare = OldestFileCompare\<rparr>) 520 128 (Some OldestFileCompare) = (SILOG_OK, Some q0)"
    and "push_all (pq_push (e_malloc env)) q0 (map (info_of fs) (history_files cfg fs names)) = Some q1"
    and "pq_ok q1" and "pq_elementSize q1 = 520" and "heap OldestFileCompare (pq_elems q1)"
    and "mset (pq_elems q1) = mset (take 128 (map (info_of fs) (history_files cfg fs names)))"
proof -
  let ?m = "e_malloc env" and ?infos = "map (info_of fs) (history_files cfg fs names)"
  let ?z = "\<lparr>pq_buffer = None, pq_elementSize = 0, pq_capacity = 0, pq_size = 0, pq_compare = OldestFileCompare\<rparr>"
  obtain b where b: "?m 66560 = Some b" "length b = 66560" using assms(1) by (auto simp: malloc_ok_def)
  from Init_ok [of 520 128 ?m b ?z OldestFileCompare] b obtain q0 where
    q0: "SilogPQueueInit ?m (Some ?z) 520 128 (Some OldestFileCompare) = (SILOG_OK, Some q0)" "pq_ok q0"
      "pq_elems q0 = []" "pq_capacity q0 = 128" "pq_elementSize q0 = 520" "pq_compare q0 = OldestFileCompare"
    by auto
  have elem: "\<forall>x \<in> set ?infos. length x = unat (520::u32)"
    using history_files_len [of _ cfg fs names] by (fastforce simp: info_of_def length_file_info)
  obtain q1 where q1: "push_all (pq_push ?m) q0 ?infos = Some q1" "pq_ok q1" "pq_elementSize q1 = 520"
      "mset (pq_elems q1) = mset (take 128 ?infos)"
    using pq_bag.push_all_bag [of q0 520 ?infos ?m] q0(2-5) elem by auto
  have ms: "?m (unat (pq_elementSize q0)) \<noteq> None" using assms(1) by (auto simp: malloc_ok_def)
  have "heap OldestFileCompare (pq_elems q1)"
    using push_all_heap [of q0 ?m ?infos q1] q0(2,3,5,6) ms elem q1(1) oldest.pq_order_axioms
    by (simp add: heap_def)
  from that [OF q0(1) q1(1-3) this q1(4)] show thesis .
qed

lemma first_popped:
  assumes q: "pq_ok q" "pq_elementSize q = 520" "heap OldestFileCompare (pq_elems q)"
    and p: "pop_many (pq_pop malloc) n q = Some (xs, q')" "mset (pq_elems q) = mset xs + mset (pq_elems q')"
    and x: "xs \<noteq> []" "x \<in># mset xs + mset (pq_elems q')"
  shows "OldestFileCompare x (hd xs) \<le> 0"
proof -
  have ne: "pq_elems q \<noteq> []" using x(1) p(2) by auto
  have "\<exists>k. n = Suc k" using x(1) p(1) by (cases n) auto
  then have "hd xs = hd (pq_elems q)"
    using pq_pop_some [OF q(1,2) ne, of malloc] p(1) by (auto split: bind_splits)
  moreover have "x \<in> set (pq_elems q)" using x(2) p(2) by (metis set_mset_mset)
  then obtain j where "j < length (pq_elems q)" "pq_elems q ! j = x" by (auto simp: in_set_conv_nth)
  ultimately show ?thesis using oldest.heap_root [OF q(3), of j] ne by (simp add: hd_conv_nth)
qed

text \<open>What the run of \<open>SilogFileManagerCleanOldFiles\<close> does, in terms of the queue's elements.\<close>

lemma CleanOldFiles_run:
  assumes "malloc_ok env" and "e_scandir env (lc_logDir cfg) fs = Some names"
  obtains xs q where "SilogFileManagerCleanOldFiles env cfg fs = Some (SILOG_OK, fs |` (- info_path ` set xs))"
    and "mset (map (info_of fs) (take 128 (history_files cfg fs names))) = mset xs + mset (pq_elems q)"
    and "length xs = min 128 (length (history_files cfg fs names)) - unat (lc_maxFileCount cfg)"
    and "\<And>x. xs \<noteq> [] \<Longrightarrow> x \<in># mset xs + mset (pq_elems q) \<Longrightarrow> OldestFileCompare x (hd xs) \<le> 0"
proof -
  let ?m = "e_malloc env" and ?hf = "history_files cfg fs names" and ?max = "lc_maxFileCount cfg"
  obtain q0 q1 where q0: "SilogPQueueInit ?m (Some \<lparr>pq_buffer = None, pq_elementSize = 0, pq_capacity = 0, pq_size = 0,
       pq_compare = OldestFileCompare\<rparr>) 520 128 (Some OldestFileCompare) = (SILOG_OK, Some q0)"
    and c: "push_all (pq_push ?m) q0 (map (info_of fs) ?hf) = Some q1"
    and q1: "pq_ok q1" "pq_elementSize q1 = 520" "heap OldestFileCompare (pq_elems q1)"
      "mset (pq_elems q1) = mset (take 128 (map (info_of fs) ?hf))"
    using collected_queue [OF assms(1), where cfg = cfg and fs = fs and names = names] by metis
  have "length (pq_elems q1) = min 128 (length ?hf)"
    using arg_cong [OF q1(4), of size] by simp
  then have sz1: "unat (pq_size q1) = min 128 (length ?hf)" using length_pq_elems [OF q1(1)] by simp
  let ?n = "unat (pq_size q1) - unat ?max"
  obtain xs q2 where q2: "pop_many (pq_pop ?m) ?n q1 = Some (xs, q2)" "length xs = ?n"
      "mset (pq_elems q1) = mset xs + mset (pq_elems q2)"
    using pq_bag.pop_many_bag [of q1 520 ?n ?m] q1(1,2) length_pq_elems [OF q1(1)] by auto
  have run: "SilogFileManagerCleanOldFiles env cfg fs = Some (SILOG_OK, fs |` (- info_path ` set xs))"
    using assms(2) q0 c q1 q2(1) remove_oldest_pop_many [OF q1(1,2), of ?m ?max fs]
      collect_files_push_all [of env cfg fs names q0]
    by (simp add: SilogFileManagerCleanOldFiles_def prefix_pattern_def Let_def)
  have all: "mset (map (info_of fs) (take 128 ?hf)) = mset xs + mset (pq_elems q2)"
    using q1(4) q2(3) by (simp add: take_map)
  have n: "length xs = min 128 (length ?hf) - unat ?max" using q2(2) sz1 by simp
  show thesis by (rule that [OF run all n first_popped [OF q1(1-3) q2(1,3)]])
qed

text \<open>The strings of a configuration fit their arrays; the names of a directory are file names.\<close>

definition cfg_ok :: "SilogLogFileConfig \<Rightarrow> bool" where
  "cfg_ok cfg \<longleftrightarrow> length (lc_logDir cfg) \<le> 255 \<and> length (lc_logFileBase cfg) \<le> 63 \<and>
     0 \<notin> set (lc_logDir cfg) \<and> 0 \<notin> set (lc_logFileBase cfg)"

definition names_ok :: "byte list list \<Rightarrow> bool" where
  "names_ok names \<longleftrightarrow> distinct names \<and> (\<forall>n \<in> set names. length n \<le> 255 \<and> 0 \<notin> set n)"

lemma file_path_eq: "cfg_ok cfg \<Longrightarrow> length name \<le> 255 \<Longrightarrow> file_path cfg name = lc_logDir cfg @ chars ''/'' @ name"
  unfolding file_path_def by (rule take_all) (simp add: cfg_ok_def)

lemma history_files_distinct:
  assumes "cfg_ok cfg" and "names_ok names"
  shows "distinct (history_files cfg fs names)"
proof -
  have "inj_on (file_path cfg) (set names)"
    using assms by (auto simp: inj_on_def names_ok_def file_path_eq)
  then show ?thesis
    using assms(2) by (auto simp: history_files_def names_ok_def distinct_map inj_on_def)
qed

lemma history_files_no_zero:
  assumes "cfg_ok cfg" and "names_ok names" and "p \<in> set (history_files cfg fs names)"
  shows "0 \<notin> set p"
  using assms by (auto simp: history_files_def names_ok_def file_path_eq cfg_ok_def chars_def)

lemma info_path_info_of:
  assumes "cfg_ok cfg" and "names_ok names" and "p \<in> set (history_files cfg fs names)"
  shows "info_path (info_of fs p) = p"
  using history_files_no_zero [OF assms] history_files_len [OF assms(3)]
  by (simp add: info_of_def info_path_file_info)

text \<open>The effect on the files: \<open>R\<close> is the set of the removed ones.\<close>

lemma CleanOldFiles_effect:
  assumes "malloc_ok env" and "e_scandir env (lc_logDir cfg) fs = Some names"
    and "cfg_ok cfg" and "names_ok names"
  obtains R where "SilogFileManagerCleanOldFiles env cfg fs = Some (SILOG_OK, fs |` (- R))"
    and "R \<subseteq> set (take 128 (history_files cfg fs names))"
    and "card R = min 128 (length (history_files cfg fs names)) - unat (lc_maxFileCount cfg)"
    and "R \<noteq> {} \<Longrightarrow> \<exists>p \<in> R. \<forall>p' \<in> set (take 128 (history_files cfg fs names)).
           sint (f_mtime (the (fs p'))) \<le> sint (f_mtime (the (fs p)))"
proof -
  let ?hf = "take 128 (history_files cfg fs names)"
  obtain xs q where xs: "SilogFileManagerCleanOldFiles env cfg fs = Some (SILOG_OK, fs |` (- info_path ` set xs))"
      "mset (map (info_of fs) ?hf) = mset xs + mset (pq_elems q)"
      "length xs = min 128 (length (history_files cfg fs names)) - unat (lc_maxFileCount cfg)"
      "\<And>x. xs \<noteq> [] \<Longrightarrow> x \<in># mset xs + mset (pq_elems q) \<Longrightarrow> OldestFileCompare x (hd xs) \<le> 0"
    using CleanOldFiles_run [OF assms(1,2)] by blast
  have path: "info_path (info_of fs p) = p" "info_mtime (info_of fs p) = sint (f_mtime (the (fs p)))"
    if "p \<in> set ?hf" for p
    using in_set_takeD [OF that] info_path_info_of [OF assms(3,4)] history_files_len
    by (auto simp: info_of_def info_mtime_file_info)
  have "map info_path (map (info_of fs) ?hf) = ?hf"
    using path by (simp add: map_idI)
  then have "mset (map info_path xs) + mset (map info_path (pq_elems q)) = mset ?hf"
    using arg_cong [OF xs(2), of "image_mset info_path"] by (metis image_mset_union mset_map)
  then have sub: "mset (map info_path xs) \<subseteq># mset ?hf" by (metis mset_subset_eq_add_left)
  have R: "info_path ` set xs \<subseteq> set ?hf" using set_mset_mono [OF sub] by simp
  have "distinct (map info_path xs)"
    using sub history_files_distinct [OF assms(3,4), of fs]
    by (metis distinct_append distinct_take ex_mset mset_append mset_eq_imp_distinct_iff mset_subset_eq_exists_conv)
  then have c: "card (info_path ` set xs) = length xs"
    by (metis distinct_card length_map list.set_map)
  have top: "\<exists>p \<in> info_path ` set xs. \<forall>p' \<in> set ?hf. sint (f_mtime (the (fs p'))) \<le> sint (f_mtime (the (fs p)))"
    if ne: "info_path ` set xs \<noteq> {}"
  proof -
    have "xs \<noteq> []" using ne by auto
    then have "hd xs \<in># mset (map (info_of fs) ?hf)" unfolding xs(2) by simp
    then obtain p where p: "p \<in> set ?hf" "hd xs = info_of fs p" by auto
    have "sint (f_mtime (the (fs p'))) \<le> sint (f_mtime (the (fs p)))" if "p' \<in> set ?hf" for p'
    proof -
      have "info_of fs p' \<in># mset xs + mset (pq_elems q)" unfolding xs(2) [symmetric] using that by simp
      from xs(4) [OF \<open>xs \<noteq> []\<close> this] show ?thesis
        using p path that by (auto simp: OldestFileCompare_def split: if_splits)
    qed
    moreover have "p \<in> info_path ` set xs"
      using \<open>xs \<noteq> []\<close> p path(1) [OF p(1)] by (metis hd_in_set image_eqI)
    ultimately show ?thesis by blast
  qed
  show thesis by (rule that [OF xs(1) R _ top]) (use c xs(3) in simp_all)
qed

section \<open>Names\<close>

lemma current_path_eq:
  "cfg_ok cfg \<Longrightarrow> SilogFileManagerGetCurrentPath cfg 512 = lc_logDir cfg @ chars ''/'' @ lc_logFileBase cfg @ chars ''.log''"
  unfolding SilogFileManagerGetCurrentPath_def by (rule take_all) (simp add: cfg_ok_def)

lemma prefix_pattern_eq: "cfg_ok cfg \<Longrightarrow> prefix_pattern cfg = lc_logFileBase cfg @ chars ''_''"
  unfolding prefix_pattern_def by (rule take_all) (simp add: cfg_ok_def)

lemma length_dec_digit: "n < 10 \<Longrightarrow> length (dec n) = 1"
  by (subst dec.simps) simp

lemma length_timestamp: "length (SilogFileManagerFormatTimestamp env ts 32) \<le> 31"
  by (simp add: SilogFileManagerFormatTimestamp_def)

lemma history_name_eq:
  assumes "cfg_ok cfg" and "length timestamp \<le> 31" and "sq < 10"
  shows "history_name cfg timestamp sq = lc_logDir cfg @ chars ''/'' @ lc_logFileBase cfg @ chars ''_'' @
    timestamp @ (if sq = 0 then [] else chars ''_'' @ dec sq) @ chars ''.log''"
  unfolding history_name_def
  by (rule take_all) (use assms length_dec_digit [of sq] in \<open>simp add: cfg_ok_def\<close>)

text \<open>A name with the prefix of the history files is not that of the current file.\<close>

lemma history_name_current:
  assumes "cfg_ok cfg" and "length timestamp \<le> 31" and "sq < 10"
  shows "history_name cfg timestamp sq \<noteq> SilogFileManagerGetCurrentPath cfg 512"
  by (simp add: history_name_eq [OF assms] current_path_eq [OF assms(1)] chars_def)

lemma is_history_current:
  assumes "cfg_ok cfg" and "is_history (prefix_pattern cfg) name" and "length name \<le> 255"
  shows "file_path cfg name \<noteq> SilogFileManagerGetCurrentPath cfg 512"
proof
  assume "file_path cfg name = SilogFileManagerGetCurrentPath cfg 512"
  then have "name = lc_logFileBase cfg @ chars ''.log''"
    using assms by (simp add: file_path_eq current_path_eq)
  then show False using assms(2) by (simp add: is_history_def prefix_pattern_eq [OF assms(1)] chars_def)
qed

lemma current_not_history:
  assumes "cfg_ok cfg" and "names_ok names"
  shows "SilogFileManagerGetCurrentPath cfg 512 \<notin> set (history_files cfg fs names)"
  using is_history_current [OF assms(1)] assms(2) by (fastforce simp: history_files_def names_ok_def)

text \<open>The loop takes the first free name, or the tenth when all are taken.\<close>

lemma history_loop_first:
  assumes "sq < 10"
  shows "\<exists>k. sq \<le> k \<and> k < 10 \<and> history_loop cfg ts fs sq p = history_name cfg ts k \<and>
    (\<forall>j. sq \<le> j \<and> j < k \<longrightarrow> fs (history_name cfg ts j) \<noteq> None) \<and>
    (fs (history_name cfg ts k) = None \<or> k = 9)"
  using assms
proof (induction "9 - sq" arbitrary: sq p)
  case 0
  then have "sq = 9" by simp
  then show ?case by (subst history_loop.simps) (auto simp: history_loop.simps [of _ _ _ 10] Let_def)
next
  case (Suc d)
  show ?case
  proof (cases "fs (history_name cfg ts sq) = None")
    case True
    then show ?thesis using Suc.prems by (subst history_loop.simps) (auto simp: Let_def)
  next
    case False
    have "d = 9 - Suc sq" "Suc sq < 10" using Suc(2) by auto
    from Suc(1) [OF this, of "history_name cfg ts sq"] obtain k where
      k: "Suc sq \<le> k" "k < 10" "history_loop cfg ts fs (Suc sq) (history_name cfg ts sq) = history_name cfg ts k"
        "\<forall>j. Suc sq \<le> j \<and> j < k \<longrightarrow> fs (history_name cfg ts j) \<noteq> None"
        "fs (history_name cfg ts k) = None \<or> k = 9"
      by blast
    have "history_loop cfg ts fs sq p = history_name cfg ts k"
      using k(3) False Suc.prems by (subst history_loop.simps) (auto simp: Let_def)
    moreover have "\<forall>j. sq \<le> j \<and> j < k \<longrightarrow> fs (history_name cfg ts j) \<noteq> None"
      using k(4) False by (metis Suc_leI le_neq_implies_less)
    ultimately show ?thesis using k(1,2,5) by (intro exI [of _ k]) simp
  qed
qed

lemma rename_loop_missing:
  "fs cur = None \<Longrightarrow> rename_loop env cur hist cnt fs r = (max r cnt, fs)"
proof (induction "cnt - r" arbitrary: r)
  case 0
  then show ?case by (subst rename_loop.simps) simp
next
  case (Suc d)
  then have "rename_loop env cur hist cnt fs (Suc r) = (max (Suc r) cnt, fs)" by simp
  then show ?case using Suc by (subst rename_loop.simps) auto
qed

lemma rename_loop_present:
  assumes "fs cur = Some f"
  shows "(if \<exists>k. r \<le> k \<and> k < cnt \<and> e_rename env k
     then \<exists>k < cnt. rename_loop env cur hist cnt fs r = (k, fs(cur := None, hist \<mapsto> f))
     else rename_loop env cur hist cnt fs r = (max r cnt, fs))"
proof (induction "cnt - r" arbitrary: r)
  case 0
  then show ?case by (subst rename_loop.simps) auto
next
  case (Suc d)
  then have r: "r < cnt" "d = cnt - Suc r" by simp_all
  show ?case
  proof (cases "e_rename env r")
    case True
    then have "rename_loop env cur hist cnt fs r = (r, fs(cur := None, hist \<mapsto> f))"
      using r(1) assms by (subst rename_loop.simps) simp
    then show ?thesis using True r(1) by auto
  next
    case False
    then have "(\<exists>k. r \<le> k \<and> k < cnt \<and> e_rename env k) \<longleftrightarrow> (\<exists>k. Suc r \<le> k \<and> k < cnt \<and> e_rename env k)"
      by (metis Suc_leD Suc_leI le_neq_implies_less)
    moreover have "rename_loop env cur hist cnt fs r = rename_loop env cur hist cnt fs (Suc r)"
      using False r(1) assms by (subst rename_loop.simps) simp
    moreover have "max r cnt = max (Suc r) cnt" using r(1) by simp
    ultimately show ?thesis using Suc(1) [OF r(2)] by simp
  qed
qed

text \<open>Either a rename succeeds, and the loop ends below the bound, or the files are unchanged.\<close>

lemma rename_loop_cases:
  assumes "rename_loop env cur hist cnt fs 0 = (r, fs')"
  shows "(r < cnt \<and> (\<exists>f. fs cur = Some f \<and> fs' = fs(cur := None, hist \<mapsto> f))) \<or> (cnt \<le> r \<and> fs' = fs)"
proof (cases "fs cur")
  case None
  then show ?thesis using assms by (simp add: rename_loop_missing)
next
  case (Some f)
  then show ?thesis
    using rename_loop_present [of fs cur f 0 cnt env hist] assms by (auto split: if_splits)
qed

section \<open>The invariant\<close>

definition fm_current :: "SilogFileManager \<Rightarrow> path" where
  "fm_current g = SilogFileManagerGetCurrentPath (fm_config g) 512"

text \<open>The bytes of the current log, in the file or still in the stream's buffer.\<close>

definition log_text :: "SilogFileManager \<Rightarrow> fs \<Rightarrow> byte list" where
  "log_text g fs = (case fs (fm_current g) of None \<Rightarrow> [] | Some f \<Rightarrow> f_content f) @
     (case fm_currentFd g of None \<Rightarrow> [] | Some (p, pending) \<Rightarrow> pending)"

text \<open>
  An initialised manager has a usable compression queue; an open stream is on the current path and
  the log never is longer than the recorded size.
\<close>

definition fm_inv :: "SilogFileManager \<Rightarrow> fs \<Rightarrow> bool" where
  "fm_inv g fs \<longleftrightarrow>
     (if fm_initialized g
      then cfg_ok (fm_config g) \<and> mq_ok (fm_compressQueue g) \<and> mq_elementSize (fm_compressQueue g) = 512 \<and>
        (case fm_currentFd g of None \<Rightarrow> True
         | Some (p, pending) \<Rightarrow> p = fm_current g \<and> fs p \<noteq> None) \<and>
        length (log_text g fs) \<le> unat (fm_currentSize g)
      else fm_currentFd g = None)"

text \<open>
  The assumptions on the system: \<open>malloc\<close> and \<open>fwrite\<close> succeed, the shell command leaves the
  current file alone, and a directory scan gives distinct file names.
\<close>

definition env_ok :: "fm_env \<Rightarrow> SilogLogFileConfig \<Rightarrow> bool" where
  "env_ok env cfg \<longleftrightarrow> malloc_ok env \<and> (\<forall>n. e_fwrite env n = n) \<and>
     (\<forall>cmd fs. e_system env cmd fs (SilogFileManagerGetCurrentPath cfg 512) =
        fs (SilogFileManagerGetCurrentPath cfg 512)) \<and>
     (\<forall>fs names. e_scandir env (lc_logDir cfg) fs = Some names \<longrightarrow> names_ok names)"

text \<open>A rotation leaves the history file to the compression thread, or does not compress at all.\<close>

definition background :: "SilogLogFileConfig \<Rightarrow> bool" where
  "background cfg \<longleftrightarrow> \<not> lc_enableCompression cfg \<or> lc_compressMode cfg = SILOG_COMPRESS_ASYNC"

lemma CompressFile_outcome:
  assumes "mq_ok (fm_compressQueue g)" and "mq_elementSize (fm_compressQueue g) = 512"
  obtains q' fs' where "SilogFileManagerCompressFile env h g fs = Some (g\<lparr>fm_compressQueue := q'\<rparr>, fs')"
    and "mq_ok q'" and "mq_elementSize q' = 512" and "fs' = fs \<or> (\<exists>cmd. fs' = e_system env cmd fs)"
    and "background (fm_config g) \<Longrightarrow> fs' = fs"
proof (cases "lc_enableCompression (fm_config g)")
  case False
  then show thesis
    using assms by (intro that [of "fm_compressQueue g" fs]) (simp_all add: SilogFileManagerCompressFile_def)
next
  case True
  show thesis
  proof (cases "lc_compressMode (fm_config g)")
    case SILOG_COMPRESS_SYNC
    then show thesis
      using assms True
      by (intro that [of "fm_compressQueue g" "SilogFileManagerDoCompress env h fs"])
        (auto simp: SilogFileManagerCompressFile_def SilogFileManagerDoCompress_def background_def)
  next
    case SILOG_COMPRESS_ASYNC
    let ?q = "fm_compressQueue g" and ?t = "compress_task h"
    have "length ?t = unat (mq_elementSize ?q)" using assms(2) by (simp add: compress_task_def)
    then obtain r q' where "SilogMpscQueuePush (Some ?q) (Some ?t) = Some (r, Some q')" "mq_ok q'" "same_shape ?q q'"
      using ring_push [OF assms(1)] by blast
    then show thesis
      using True SILOG_COMPRESS_ASYNC assms(2)
      by (intro that [of q' fs]) (simp_all add: SilogFileManagerCompressFile_def same_shape_def)
  qed
qed

lemma CleanOldFiles_current:
  assumes "env_ok env cfg" and "cfg_ok cfg"
  obtains r fs' where "SilogFileManagerCleanOldFiles env cfg fs = Some (r, fs')"
    and "fs' (SilogFileManagerGetCurrentPath cfg 512) = fs (SilogFileManagerGetCurrentPath cfg 512)"
proof (cases "e_scandir env (lc_logDir cfg) fs")
  case None
  then show thesis by (intro that [of SILOG_FILE_OPEN fs]) (simp_all add: SilogFileManagerCleanOldFiles_def)
next
  case (Some names)
  then have n: "names_ok names" "malloc_ok env" using assms(1) by (auto simp: env_ok_def)
  obtain R where R: "SilogFileManagerCleanOldFiles env cfg fs = Some (SILOG_OK, fs |` (- R))"
      "R \<subseteq> set (take 128 (history_files cfg fs names))"
    by (rule CleanOldFiles_effect [OF n(2) Some assms(2) n(1)]) (rule that)
  then show thesis
    using current_not_history [OF assms(2) n(1), of fs] set_take_subset [of 128 "history_files cfg fs names"]
    by (intro that [OF R(1)]) (auto simp: restrict_map_def)
qed

definition rotation_history :: "fm_env \<Rightarrow> SilogFileManager \<Rightarrow> fs \<Rightarrow> path" where
  "rotation_history env g fs =
     history_loop (fm_config g) (SilogFileManagerFormatTimestamp env (e_now env) 32) fs 0 []"

lemma rotation_history_name:
  obtains k where "k < 10" and
      "rotation_history env g fs = history_name (fm_config g) (SilogFileManagerFormatTimestamp env (e_now env) 32) k"
    and "fs (rotation_history env g fs) = None \<or> k = 9"
  using history_loop_first [of 0] unfolding rotation_history_def by (metis zero_less_numeral)

lemma rotation_history_current:
  assumes "cfg_ok (fm_config g)"
  shows "rotation_history env g fs \<noteq> fm_current g"
  using rotation_history_name [of env g fs] history_name_current [OF assms length_timestamp]
  unfolding fm_current_def by metis

text \<open>The current log once the stream has been flushed and closed.\<close>

definition closed_fs :: "fm_env \<Rightarrow> SilogFileManager \<Rightarrow> fs \<Rightarrow> fs" where
  "closed_fs env g fs = (case fm_currentFd g of None \<Rightarrow> fs | Some stream \<Rightarrow> c_fflush env stream fs)"

lemma closed_fs_current:
  assumes "fm_inv g fs" and "fm_initialized g"
  shows "(case closed_fs env g fs (fm_current g) of None \<Rightarrow> [] | Some f \<Rightarrow> f_content f) = log_text g fs"
    and "fm_currentFd g \<noteq> None \<Longrightarrow> closed_fs env g fs (fm_current g) \<noteq> None"
    and "p \<noteq> fm_current g \<Longrightarrow> closed_fs env g fs p = fs p"
  using assms by (auto simp: closed_fs_def log_text_def c_fflush_def fm_inv_def split: option.splits prod.splits)

text \<open>The two ways a rotation goes after the rename loop.\<close>

lemma RotateInternal_failed:
  assumes "rename_loop env (fm_current g) (rotation_history env g fs) (unat (lc_rotateRetryCount (fm_config g)))
      (closed_fs env g fs) 0 = (r, fs2)" and "unat (lc_rotateRetryCount (fm_config g)) \<le> r"
  shows "SilogFileManagerRotateInternal env g fs =
    (case fopen_append env (fm_current g) fs2 of
       (None, fs3) \<Rightarrow> Some (SILOG_FILE_OPEN, g\<lparr>fm_currentFd := None\<rparr>, fs3)
     | (Some fd, fs3) \<Rightarrow> Some (SILOG_FILE_WRITE, g\<lparr>fm_currentFd := Some fd\<rparr>, fs3))"
  using assms unfolding fm_current_def rotation_history_def closed_fs_def
  by (simp add: SilogFileManagerRotateInternal_def Let_def split: option.splits prod.splits)

lemma RotateInternal_renamed:
  assumes "rename_loop env (fm_current g) (rotation_history env g fs) (unat (lc_rotateRetryCount (fm_config g)))
      (closed_fs env g fs) 0 = (r, fs2)" and "r < unat (lc_rotateRetryCount (fm_config g))"
  shows "SilogFileManagerRotateInternal env g fs =
    (case fopen_truncate env (fm_current g) fs2 of
       (None, fs3) \<Rightarrow> Some (SILOG_FILE_OPEN, g\<lparr>fm_currentFd := None\<rparr>, fs3)
     | (Some fd, fs3) \<Rightarrow> do {
         (g3, fs4) \<leftarrow> SilogFileManagerCompressFile env (rotation_history env g fs)
           (g\<lparr>fm_currentFd := Some fd, fm_currentSize := 0, fm_asyncBufferSize := 0\<rparr>) fs3;
         (ignored, fs5) \<leftarrow> SilogFileManagerCleanOldFiles env (fm_config g) fs4;
         Some (SILOG_OK, g3, fs5)
       })"
  using assms unfolding fm_current_def rotation_history_def closed_fs_def
  by (simp add: SilogFileManagerRotateInternal_def Let_def split: option.splits prod.splits)

lemma CompressFile_current:
  assumes "env_ok env cfg" and "fs' = fs \<or> (\<exists>cmd. fs' = e_system env cmd fs)"
  shows "fs' (SilogFileManagerGetCurrentPath cfg 512) = fs (SilogFileManagerGetCurrentPath cfg 512)"
  using assms by (auto simp: env_ok_def)

text \<open>A rotation always returns; it keeps the invariant, and success gives an empty current file.\<close>

definition rotate_post :: "SilogFileManager \<Rightarrow> ErrorCode \<Rightarrow> SilogFileManager \<Rightarrow> fs \<Rightarrow> bool" where
  "rotate_post g ret g' fs' \<longleftrightarrow> fm_inv g' fs' \<and> fm_initialized g' \<and> fm_config g' = fm_config g \<and>
     (if ret = SILOG_OK
      then fm_currentFd g' = Some (fm_current g, []) \<and> fm_currentSize g' = 0 \<and> log_text g' fs' = []
      else fm_currentSize g' = fm_currentSize g)"

lemma failed_rotation_outcome:
  assumes inv: "fm_inv g fs" and init: "fm_initialized g"
    and rl: "rename_loop env (fm_current g) (rotation_history env g fs)
      (unat (lc_rotateRetryCount (fm_config g))) (closed_fs env g fs) 0 = (r, closed_fs env g fs)"
    and r: "unat (lc_rotateRetryCount (fm_config g)) \<le> r"
  shows "\<exists>ret g' fs'. SilogFileManagerRotateInternal env g fs = Some (ret, g', fs') \<and> rotate_post g ret g' fs' \<and>
    ret \<noteq> SILOG_OK \<and> log_text g' fs' = log_text g fs"
proof -
  let ?cur = "fm_current g" and ?fs2 = "closed_fs env g fs"
  note rot = RotateInternal_failed [OF rl r] and closed = closed_fs_current(1) [OF inv init, of env]
  show ?thesis
  proof (cases "e_fopen env ?cur")
    case True
    let ?g' = "g\<lparr>fm_currentFd := Some (?cur, [])\<rparr>"
    obtain fs3 where f3: "fopen_append env ?cur ?fs2 = (Some (?cur, []), fs3)" "fs3 ?cur \<noteq> None"
        "(case fs3 ?cur of None \<Rightarrow> [] | Some f \<Rightarrow> f_content f) = log_text g fs"
      using True closed by (auto simp: fopen_append_def split: option.splits)
    have t: "log_text ?g' fs3 = log_text g fs" using f3(3) by (simp add: log_text_def fm_current_def)
    have "rotate_post g SILOG_FILE_WRITE ?g' fs3"
      using t f3(2) inv init by (simp add: rotate_post_def fm_inv_def) (simp add: fm_current_def)
    then show ?thesis using rot f3(1) t by auto
  next
    case False
    let ?g' = "g\<lparr>fm_currentFd := None\<rparr>"
    have t: "log_text ?g' ?fs2 = log_text g fs" using closed by (simp add: log_text_def fm_current_def)
    then have "rotate_post g SILOG_FILE_OPEN ?g' ?fs2" using inv init by (simp add: fm_inv_def rotate_post_def)
    then show ?thesis using rot False t by (auto simp: fopen_append_def)
  qed
qed

lemma renamed_rotation_outcome:
  assumes inv: "fm_inv g fs" and init: "fm_initialized g" and env: "env_ok env (fm_config g)"
    and rl: "rename_loop env (fm_current g) (rotation_history env g fs)
      (unat (lc_rotateRetryCount (fm_config g))) (closed_fs env g fs) 0 = (r, fs2)"
    and r: "r < unat (lc_rotateRetryCount (fm_config g))" and f2: "fs2 (fm_current g) = None"
  shows "\<exists>ret g' fs'. SilogFileManagerRotateInternal env g fs = Some (ret, g', fs') \<and> rotate_post g ret g' fs' \<and>
    (ret = SILOG_OK \<longleftrightarrow> e_fopen env (fm_current g))"
proof -
  let ?cur = "fm_current g" and ?h = "rotation_history env g fs"
  have cfg: "cfg_ok (fm_config g)" and q: "mq_ok (fm_compressQueue g)" "mq_elementSize (fm_compressQueue g) = 512"
    using inv init by (simp_all add: fm_inv_def)
  note rot = RotateInternal_renamed [OF rl r]
  show ?thesis
  proof (cases "e_fopen env ?cur")
    case False
    have "rotate_post g SILOG_FILE_OPEN (g\<lparr>fm_currentFd := None\<rparr>) fs2"
      using inv init f2 by (simp add: rotate_post_def fm_inv_def log_text_def fm_current_def)
    then show ?thesis using rot False by (auto simp: fopen_truncate_def)
  next
    case True
    let ?f = "\<lparr>f_content = [], f_mtime = e_mtime env\<rparr>"
      and ?g2 = "g\<lparr>fm_currentFd := Some (?cur, []), fm_currentSize := 0, fm_asyncBufferSize := 0\<rparr>"
    let ?fs3 = "fs2(?cur \<mapsto> ?f)"
    have f3: "fopen_truncate env ?cur fs2 = (Some (?cur, []), ?fs3)" using True by (simp add: fopen_truncate_def)
    obtain q' fs4 where c: "SilogFileManagerCompressFile env ?h ?g2 ?fs3 = Some (?g2\<lparr>fm_compressQueue := q'\<rparr>, fs4)"
        "mq_ok q'" "mq_elementSize q' = 512" "fs4 = ?fs3 \<or> (\<exists>cmd. fs4 = e_system env cmd ?fs3)"
      by (rule CompressFile_outcome [of ?g2 env ?h ?fs3]) (use q in auto)
    obtain r5 fs5 where d: "SilogFileManagerCleanOldFiles env (fm_config g) fs4 = Some (r5, fs5)" "fs5 ?cur = fs4 ?cur"
      using CleanOldFiles_current [OF env cfg, of fs4] unfolding fm_current_def by metis
    have f5: "fs5 ?cur = Some ?f"
      using CompressFile_current [OF env c(4)] d(2) by (simp add: fm_current_def)
    have "rotate_post g SILOG_OK (?g2\<lparr>fm_compressQueue := q'\<rparr>) fs5"
      using f5 c(2,3) init cfg by (simp add: rotate_post_def fm_inv_def log_text_def fm_current_def)
    then show ?thesis using rot f3 c(1) d(1) True by auto
  qed
qed

lemma RotateInternal_outcome:
  assumes inv: "fm_inv g fs" and init: "fm_initialized g" and env: "env_ok env (fm_config g)"
  shows "\<exists>ret g' fs'. SilogFileManagerRotateInternal env g fs = Some (ret, g', fs') \<and> rotate_post g ret g' fs'"
proof -
  let ?cur = "fm_current g" and ?h = "rotation_history env g fs" and ?cnt = "unat (lc_rotateRetryCount (fm_config g))"
  obtain r fs2 where rl: "rename_loop env ?cur ?h ?cnt (closed_fs env g fs) 0 = (r, fs2)" by fastforce
  have hc: "?h \<noteq> ?cur" using inv init by (intro rotation_history_current) (simp add: fm_inv_def)
  show ?thesis
  proof (cases "r < ?cnt")
    case True
    then have "fs2 ?cur = None" using rename_loop_cases [OF rl] hc by auto
    from renamed_rotation_outcome [OF inv init env rl True this] show ?thesis by blast
  next
    case False
    then have "?cnt \<le> r" "fs2 = closed_fs env g fs" using rename_loop_cases [OF rl] by auto
    with failed_rotation_outcome [OF inv init] rl show ?thesis by blast
  qed
qed

section \<open>Writing\<close>

lemma c_fflush_current:
  assumes "fs p \<noteq> None"
  shows "c_fflush env (p, pending) fs p \<noteq> None"
    and "(case c_fflush env (p, pending) fs p of None \<Rightarrow> [] | Some f \<Rightarrow> f_content f) =
      (case fs p of None \<Rightarrow> [] | Some f \<Rightarrow> f_content f) @ pending"
    and "p' \<noteq> p \<Longrightarrow> c_fflush env (p, pending) fs p' = fs p'"
  using assms by (auto simp: c_fflush_def)

lemma write_and_flush_appends:
  assumes fd: "fm_currentFd g = Some (fm_current g, pending)" and f: "fs (fm_current g) \<noteq> None"
    and d: "unat len \<le> length d" and w: "\<forall>n. e_fwrite env n = n"
  shows "\<exists>g' fs' rest. write_and_flush env d len g fs = Some (SILOG_OK, g', fs') \<and>
    fm_currentFd g' = Some (fm_current g, rest) \<and> fs' (fm_current g) \<noteq> None \<and>
    log_text g' fs' = log_text g fs @ take (unat len) d \<and> fm_currentSize g' = fm_currentSize g + len \<and>
    fm_config g' = fm_config g \<and> fm_initialized g' = fm_initialized g \<and>
    fm_compressQueue g' = fm_compressQueue g \<and> (\<forall>p. p \<noteq> fm_current g \<longrightarrow> fs' p = fs p) \<and>
    (lc_flushMode (fm_config g) = SILOG_FLUSH_SYNC \<longrightarrow> rest = [])"
proof -
  let ?bs = "take (unat len) d" and ?cur = "fm_current g"
  have ld: "load d 0 (unat len) = Some ?bs" using d by (simp add: load_eq seg_def)
  define g1 where "g1 = g\<lparr>fm_currentFd := Some (?cur, pending @ ?bs), fm_currentSize := fm_currentSize g + len\<rparr>"
  define g2 where "g2 = g1\<lparr>fm_asyncBufferSize := fm_asyncBufferSize g + ucast len\<rparr>"
  define flush where "flush \<longleftrightarrow> fm_asyncBufferSize g2 \<ge> ucast (lc_asyncFlushSize (fm_config g)) \<or>
    e_now env - fm_lastFlushTimeMs g \<ge> ucast (lc_asyncFlushIntervalMs (fm_config g))"
  have t: "log_text g2 fs = log_text g fs @ ?bs"
    using fd by (simp add: log_text_def g1_def g2_def fm_current_def)
  have run: "write_and_flush env d len g fs =
    (if lc_flushMode (fm_config g) = SILOG_FLUSH_SYNC
     then let (g3, fs') = flush_current env g1 fs in Some (SILOG_OK, g3\<lparr>fm_asyncBufferSize := 0\<rparr>, fs')
     else if flush
     then let (g4, fs') = flush_current env g2 fs
          in Some (SILOG_OK, g4\<lparr>fm_asyncBufferSize := 0, fm_lastFlushTimeMs := e_now env\<rparr>, fs')
     else Some (SILOG_OK, g2, fs))"
    using fd ld w by (simp add: write_and_flush_def Let_def g1_def g2_def flush_def)
  let ?fs = "c_fflush env (?cur, pending @ ?bs) fs"
  note fl = c_fflush_current [of fs ?cur, OF f]
  have fc: "flush_current env g1 fs = (g1\<lparr>fm_currentFd := Some (?cur, [])\<rparr>, ?fs)"
      "flush_current env g2 fs = (g2\<lparr>fm_currentFd := Some (?cur, [])\<rparr>, ?fs)"
    by (simp_all add: flush_current_def g1_def g2_def)
  have t1: "log_text h ?fs = log_text g fs @ ?bs"
    if "fm_config h = fm_config g" "fm_currentFd h = Some (?cur, [])" for h
    using that fd fl(2) [of env "pending @ ?bs"] by (simp add: log_text_def fm_current_def)
  show ?thesis
  proof (cases "lc_flushMode (fm_config g) = SILOG_FLUSH_SYNC \<or> flush")
    case True
    then show ?thesis using run fc t1 fl(1) [of env "pending @ ?bs"] fl(3) [of _ env "pending @ ?bs"] by (auto simp: g1_def g2_def)
  next
    case False
    then show ?thesis using run f t fd by (auto simp: g1_def g2_def)
  qed
qed

lemma write_and_flush_inv:
  assumes inv: "fm_inv h fs" and h: "fm_initialized h" "fm_currentFd h \<noteq> None"
      "unat (fm_currentSize h) + unat len < 2 ^ 32"
    and d: "unat len \<le> length d" and w: "\<forall>n. e_fwrite env n = n"
  shows "\<exists>g' fs'. write_and_flush env d len h fs = Some (SILOG_OK, g', fs') \<and> fm_inv g' fs' \<and>
    fm_config g' = fm_config h \<and> fm_initialized g' \<and> log_text g' fs' = log_text h fs @ take (unat len) d \<and>
    fm_currentSize g' = fm_currentSize h + len \<and> fm_currentFd g' \<noteq> None"
proof -
  obtain pending where "fm_currentFd h = Some (fm_current h, pending)" "fs (fm_current h) \<noteq> None"
    using inv h(1,2) by (auto simp: fm_inv_def)
  from write_and_flush_appends [of h pending fs len d env, OF this d w] obtain g' fs' rest where
    g': "write_and_flush env d len h fs = Some (SILOG_OK, g', fs')" "fm_currentFd g' = Some (fm_current h, rest)"
      "fs' (fm_current h) \<noteq> None" "log_text g' fs' = log_text h fs @ take (unat len) d"
      "fm_currentSize g' = fm_currentSize h + len" "fm_config g' = fm_config h"
      "fm_initialized g' = fm_initialized h" "fm_compressQueue g' = fm_compressQueue h"
    by blast
  moreover have "unat (fm_currentSize h + len) = unat (fm_currentSize h) + unat len"
    using h(3) by (rule unat_add_exact)
  moreover have "fm_current g' = fm_current h" using g'(6) by (simp add: fm_current_def)
  ultimately have "fm_inv g' fs'" using inv h(1) d by (auto simp: fm_inv_def)
  then show ?thesis using g' h(1) by auto
qed

text \<open>A write that stays below the limit.\<close>

lemma WriteRaw_below_limit:
  assumes fm: "fm_inv g fs" "fm_initialized g" "fm_currentFd g \<noteq> None" and env: "env_ok env (fm_config g)"
    and len: "0 < unat len" "unat len \<le> length d"
    and sz: "unat (fm_currentSize g) + unat len < unat (lc_maxFileSize (fm_config g))"
  shows "\<exists>g' fs'. SilogFileManagerWriteRaw env (Some d) len g fs = Some (SILOG_OK, g', fs') \<and> fm_inv g' fs' \<and>
    fm_config g' = fm_config g \<and> fm_initialized g' \<and> fm_currentFd g' \<noteq> None \<and>
    log_text g' fs' = log_text g fs @ take (unat len) d \<and>
    unat (fm_currentSize g') = unat (fm_currentSize g) + unat len"
proof -
  have "unat (lc_maxFileSize (fm_config g)) < 2 ^ 32"
    using unsigned_less [where 'a = nat, of "lc_maxFileSize (fm_config g)"] by simp
  then have s: "unat (fm_currentSize g) + unat len < 2 ^ 32" using sz by simp
  then have add: "unat (fm_currentSize g + len) = unat (fm_currentSize g) + unat len" by (rule unat_add_exact)
  then have nr: "\<not> fm_currentSize g + len \<ge> lc_maxFileSize (fm_config g)" using sz by (simp add: word_le_nat_alt)
  have w: "\<forall>n. e_fwrite env n = n" using env by (simp add: env_ok_def)
  obtain g' fs' where g': "write_and_flush env d len g fs = Some (SILOG_OK, g', fs')" "fm_inv g' fs'"
      "fm_config g' = fm_config g" "fm_initialized g'" "log_text g' fs' = log_text g fs @ take (unat len) d"
      "fm_currentSize g' = fm_currentSize g + len" "fm_currentFd g' \<noteq> None"
    using write_and_flush_inv [OF fm s len(2) w] by blast
  have "len \<noteq> 0" using len(1) by auto
  then have "SilogFileManagerWriteRaw env (Some d) len g fs = Some (SILOG_OK, g', fs')"
    using g'(1) nr fm(2,3) by (auto simp: SilogFileManagerWriteRaw_def)
  then show ?thesis using g' add by auto
qed

text \<open>
  A write in an environment in which a rotation succeeds: the data goes to the end of the log, or the
  log is closed and the data starts the next one.
\<close>

definition can_rotate :: "fm_env \<Rightarrow> SilogLogFileConfig \<Rightarrow> bool" where
  "can_rotate env cfg \<longleftrightarrow> (\<exists>k < unat (lc_rotateRetryCount cfg). e_rename env k) \<and> e_fopen env (SilogFileManagerGetCurrentPath cfg 512)"

definition log_full :: "nat \<Rightarrow> SilogFileManager \<Rightarrow> bool" where
  "log_full n g \<longleftrightarrow> unat (lc_maxFileSize (fm_config g)) \<le> unat (fm_currentSize g) + n"

lemma RotateInternal_succeeds:
  assumes inv: "fm_inv g fs" and init: "fm_initialized g" and fd: "fm_currentFd g \<noteq> None"
    and env: "env_ok env (fm_config g)" and rot: "can_rotate env (fm_config g)"
  shows "\<exists>g' fs'. SilogFileManagerRotateInternal env g fs = Some (SILOG_OK, g', fs') \<and> rotate_post g SILOG_OK g' fs'"
proof -
  let ?cur = "fm_current g" and ?h = "rotation_history env g fs" and ?cnt = "unat (lc_rotateRetryCount (fm_config g))"
  obtain f where f: "closed_fs env g fs ?cur = Some f" using closed_fs_current(2) [OF inv init fd, of env] by blast
  obtain k where k: "k < ?cnt" "e_rename env k" using rot by (auto simp: can_rotate_def)
  obtain r where r: "r < ?cnt" "rename_loop env ?cur ?h ?cnt (closed_fs env g fs) 0 = (r, (closed_fs env g fs)(?cur := None, ?h \<mapsto> f))"
    using rename_loop_present [of "closed_fs env g fs" ?cur f 0 ?cnt env ?h] f k by (auto split: if_splits)
  have "?h \<noteq> ?cur" using inv init by (intro rotation_history_current) (simp add: fm_inv_def)
  with renamed_rotation_outcome [OF inv init env r(2,1)] rot show ?thesis by (auto simp: can_rotate_def fm_current_def)
qed

lemma WriteRaw_line:
  assumes fm: "fm_inv g fs" "fm_initialized g" "fm_currentFd g \<noteq> None" and env: "env_ok env (fm_config g)"
    and rot: "can_rotate env (fm_config g)" and len: "0 < unat len" "unat len \<le> length d"
    and sz: "unat (fm_currentSize g) + unat len < 2 ^ 32"
  shows "\<exists>g' fs'. SilogFileManagerWriteRaw env (Some d) len g fs = Some (SILOG_OK, g', fs') \<and> fm_inv g' fs' \<and>
    fm_config g' = fm_config g \<and> fm_initialized g' \<and> fm_currentFd g' \<noteq> None \<and>
    log_text g' fs' = (if log_full (unat len) g then [] else log_text g fs) @ take (unat len) d \<and>
    unat (fm_currentSize g') = (if log_full (unat len) g then 0 else unat (fm_currentSize g)) + unat len"
proof (cases "log_full (unat len) g")
  case False
  then show ?thesis using WriteRaw_below_limit [OF fm env len] by (auto simp: log_full_def not_le)
next
  case True
  then have full: "lc_maxFileSize (fm_config g) \<le> fm_currentSize g + len" "len \<noteq> 0"
    using sz len(1) by (auto simp: word_le_nat_alt unat_add_exact log_full_def)
  obtain g1 fs1 where r: "SilogFileManagerRotateInternal env g fs = Some (SILOG_OK, g1, fs1)" "rotate_post g SILOG_OK g1 fs1"
    using RotateInternal_succeeds [OF fm env rot] by blast
  have p: "fm_inv g1 fs1" "fm_initialized g1" "fm_currentFd g1 \<noteq> None" "fm_config g1 = fm_config g"
      "unat (fm_currentSize g1) + unat len < 2 ^ 32" "log_text g1 fs1 = []" "fm_currentSize g1 = 0"
    using r(2) unsigned_less [where 'a = nat, of len] by (auto simp: rotate_post_def)
  have w: "\<forall>n. e_fwrite env n = n" using env by (simp add: env_ok_def)
  obtain g' fs' where "write_and_flush env d len g1 fs1 = Some (SILOG_OK, g', fs')" "fm_inv g' fs'"
      "fm_config g' = fm_config g1" "fm_initialized g'" "log_text g' fs' = log_text g1 fs1 @ take (unat len) d"
      "fm_currentSize g' = fm_currentSize g1 + len" "fm_currentFd g' \<noteq> None"
    using write_and_flush_inv [OF p(1-3,5) len(2) w] by blast
  then show ?thesis using r(1) True full fm(2,3) p(4,6,7) by (auto simp: SilogFileManagerWriteRaw_def)
qed

text \<open>
  The contract of a log that is closed and started anew when it is full, as its writer sees it: a write
  of at most \<open>limit\<close> bytes puts them, in one piece, at the end of the current log or at the start of the
  next one. \<open>ok\<close> is the state's invariant and \<open>serves\<close> what the writer expects of the environment.
\<close>

fun write_all ::
  "('env \<Rightarrow> byte list \<Rightarrow> u32 \<Rightarrow> 'st \<Rightarrow> (ErrorCode \<times> 'st) option) \<Rightarrow> (nat \<Rightarrow> 'st \<Rightarrow> bool) \<Rightarrow> ('st \<Rightarrow> byte list) \<Rightarrow>
   ('env \<times> byte list \<times> u32) list \<Rightarrow> 'st \<Rightarrow> (byte list list \<times> 'st) option" where
  "write_all put full content [] st = Some ([], st)"
| "write_all put full content ((env, d, n) # ws) st = do {
     (r, st1) \<leftarrow> put env d n st;
     (closed, st2) \<leftarrow> write_all put full content ws st1;
     Some ((if full (unat n) st then [content st] else []) @ closed, st2)
   }"

locale line_sink =
  fixes put :: "'env \<Rightarrow> byte list \<Rightarrow> u32 \<Rightarrow> 'st \<Rightarrow> (ErrorCode \<times> 'st) option"
    and full :: "nat \<Rightarrow> 'st \<Rightarrow> bool"
    and content :: "'st \<Rightarrow> byte list"
    and ok :: "'st \<Rightarrow> bool"
    and config :: "'st \<Rightarrow> 'cfg"
    and serves :: "'env \<Rightarrow> 'cfg \<Rightarrow> bool"
    and limit :: nat
  assumes put_line: "ok st \<Longrightarrow> serves env (config st) \<Longrightarrow> 0 < unat n \<Longrightarrow> unat n \<le> limit \<Longrightarrow> unat n \<le> length d \<Longrightarrow>
    \<exists>st'. put env d n st = Some (SILOG_OK, st') \<and> ok st' \<and> config st' = config st \<and>
      content st' = (if full (unat n) st then [] else content st) @ take (unat n) d"
begin

lemma write_all_keeps:
  assumes "ok st" and "\<And>env d n. (env, d, n) \<in> set ws \<Longrightarrow> serves env (config st) \<and> 0 < unat n \<and> unat n \<le> limit \<and> unat n \<le> length d"
  shows "\<exists>closed st'. write_all put full content ws st = Some (closed, st') \<and> ok st' \<and> config st' = config st \<and>
    concat closed @ content st' = content st @ concat (map (\<lambda>(env, d, n). take (unat n) d) ws)"
  using assms
proof (induction ws arbitrary: st)
  case (Cons w ws)
  obtain env d n where w: "w = (env, d, n)" by (rule prod_cases3)
  obtain st1 where 1: "put env d n st = Some (SILOG_OK, st1)" "ok st1" "config st1 = config st"
      "content st1 = (if full (unat n) st then [] else content st) @ take (unat n) d"
    using put_line [OF Cons.prems(1), of env n d] Cons.prems(2) [of env d n] w by auto
  obtain closed st' where "write_all put full content ws st1 = Some (closed, st')" "ok st'" "config st' = config st1"
      "concat closed @ content st' = content st1 @ concat (map (\<lambda>(env, d, n). take (unat n) d) ws)"
    using Cons.IH [OF 1(2)] Cons.prems(2) 1(3) by (metis list.set_intros(2))
  then show ?case using w 1 by auto
qed simp

end

text \<open>The file manager keeps that contract for writes of up to 512 bytes, the daemon's buffer.\<close>

definition sink_put ::
  "fm_env \<Rightarrow> byte list \<Rightarrow> u32 \<Rightarrow> SilogFileManager \<times> fs \<Rightarrow> (ErrorCode \<times> SilogFileManager \<times> fs) option" where
  "sink_put env d n = (\<lambda>(g, fs). SilogFileManagerWriteRaw env (Some d) n g fs)"

definition sink_ok :: "SilogFileManager \<times> fs \<Rightarrow> bool" where
  "sink_ok = (\<lambda>(g, fs). fm_inv g fs \<and> fm_initialized g \<and> fm_currentFd g \<noteq> None \<and>
     unat (fm_currentSize g) + 512 < 2 ^ 32 \<and> unat (lc_maxFileSize (fm_config g)) + 512 \<le> 2 ^ 32)"

definition sink_serves :: "fm_env \<Rightarrow> SilogLogFileConfig \<Rightarrow> bool" where
  "sink_serves env cfg \<longleftrightarrow> env_ok env cfg \<and> can_rotate env cfg"

definition sink_config :: "SilogFileManager \<times> fs \<Rightarrow> SilogLogFileConfig" where
  "sink_config = (\<lambda>(g, fs). fm_config g)"

definition sink_full :: "nat \<Rightarrow> SilogFileManager \<times> fs \<Rightarrow> bool" where
  "sink_full n = (\<lambda>(g, fs). log_full n g)"

definition sink_text :: "SilogFileManager \<times> fs \<Rightarrow> byte list" where
  "sink_text = (\<lambda>(g, fs). log_text g fs)"

lemmas sink_defs = sink_put_def sink_ok_def sink_serves_def sink_config_def sink_full_def sink_text_def

interpretation log_file: line_sink sink_put sink_full sink_text sink_ok sink_config sink_serves 512
proof
  fix st :: "SilogFileManager \<times> fs" and env and n :: u32 and d :: "byte list"
  assume a: "sink_ok st" "sink_serves env (sink_config st)" "0 < unat n" "unat n \<le> 512" "unat n \<le> length d"
  obtain g fs where st: "st = (g, fs)" by fastforce
  have u: "fm_inv g fs" "fm_initialized g" "fm_currentFd g \<noteq> None" "env_ok env (fm_config g)" "can_rotate env (fm_config g)"
      "unat (fm_currentSize g) + 512 < 2 ^ 32" "unat (lc_maxFileSize (fm_config g)) + 512 \<le> 2 ^ 32"
    using a(1,2) by (simp_all add: st sink_defs)
  have z: "unat (fm_currentSize g) + unat n < 2 ^ 32" using u(6) a(4) by linarith
  obtain g' fs' where g': "SilogFileManagerWriteRaw env (Some d) n g fs = Some (SILOG_OK, g', fs')" "fm_inv g' fs'"
      "fm_config g' = fm_config g" "fm_initialized g'" "fm_currentFd g' \<noteq> None"
      "log_text g' fs' = (if log_full (unat n) g then [] else log_text g fs) @ take (unat n) d"
      "unat (fm_currentSize g') = (if log_full (unat n) g then 0 else unat (fm_currentSize g)) + unat n"
    using WriteRaw_line [OF u(1-5) a(3,5) z] by blast
  have "unat (fm_currentSize g') + 512 < 2 ^ 32" using g'(7) u(7) a(4) by (auto simp: log_full_def split: if_splits)
  then show "\<exists>st'. sink_put env d n st = Some (SILOG_OK, st') \<and> sink_ok st' \<and> sink_config st' = sink_config st \<and>
      sink_text st' = (if sink_full (unat n) st then [] else sink_text st) @ take (unat n) d"
    using g' u(7) by (intro exI [of _ "(g', fs')"]) (simp add: st sink_defs)
qed

lemma WriteRaw_outcome:
  assumes inv: "fm_inv g fs" and env: "env_ok env (fm_config g)"
    and d: "\<And>d. data = Some d \<Longrightarrow> unat len \<le> length d"
    and sz: "unat (fm_currentSize g) + unat len < 2 ^ 32"
  shows "\<exists>ret g' fs'. SilogFileManagerWriteRaw env data len g fs = Some (ret, g', fs') \<and> fm_inv g' fs' \<and>
    fm_config g' = fm_config g \<and> fm_initialized g' = fm_initialized g \<and>
    (ret = SILOG_OK \<longrightarrow> length (log_text g' fs') \<le> max (unat (lc_maxFileSize (fm_config g)) - 1) (unat len))"
proof (cases "data = None \<or> len = 0 \<or> \<not> fm_initialized g \<or> fm_currentFd g = None")
  case True
  then show ?thesis using inv by (auto simp: SilogFileManagerWriteRaw_def split: option.splits)
next
  case False
  then obtain bs where bs: "data = Some bs" "len \<noteq> 0" "fm_initialized g" "fm_currentFd g \<noteq> None" by auto
  have w: "\<forall>n. e_fwrite env n = n" using env by (simp add: env_ok_def)
  note wf = write_and_flush_inv [where env = env and len = len, OF _ _ _ _ d [OF bs(1)] w]
  show ?thesis
  proof (cases "fm_currentSize g + len \<ge> lc_maxFileSize (fm_config g)")
    case False
    have "unat (fm_currentSize g + len) < unat (lc_maxFileSize (fm_config g))"
      using False by (simp add: word_less_nat_alt not_le)
    moreover obtain g' fs' where g': "write_and_flush env bs len g fs = Some (SILOG_OK, g', fs')" "fm_inv g' fs'"
        "fm_config g' = fm_config g" "fm_initialized g'" "fm_currentSize g' = fm_currentSize g + len"
      using wf [OF inv bs(3,4) sz] by blast
    moreover have "length (log_text g' fs') \<le> unat (fm_currentSize g')"
      using g'(2,4) by (simp add: fm_inv_def)
    ultimately show ?thesis using bs False by (auto simp: SilogFileManagerWriteRaw_def)
  next
    case True
    obtain ret g1 fs1 where r: "SilogFileManagerRotateInternal env g fs = Some (ret, g1, fs1)" "rotate_post g ret g1 fs1"
      using RotateInternal_outcome [OF inv bs(3) env] by blast
    show ?thesis
    proof (cases "ret = SILOG_OK")
      case ok: True
      have p: "fm_inv g1 fs1" "fm_initialized g1" "fm_currentFd g1 \<noteq> None" "fm_config g1 = fm_config g"
          "unat (fm_currentSize g1) + unat len < 2 ^ 32" "log_text g1 fs1 = []"
        using r(2) ok unsigned_less [where 'a = nat, of len] by (auto simp: rotate_post_def)
      obtain g' fs' where g': "write_and_flush env bs len g1 fs1 = Some (SILOG_OK, g', fs')" "fm_inv g' fs'"
          "fm_config g' = fm_config g" "fm_initialized g'" "log_text g' fs' = log_text g1 fs1 @ take (unat len) bs"
        using wf [OF p(1-3,5)] p(4) by metis
      then show ?thesis using bs True r(1) ok p(6) d [OF bs(1)] by (auto simp: SilogFileManagerWriteRaw_def)
    next
      case False
      then show ?thesis using bs True r by (auto simp: SilogFileManagerWriteRaw_def rotate_post_def)
    qed
  qed
qed

lemma compress_turn_outcome:
  assumes "mq_ok (fm_compressQueue g)" and "mq_elementSize (fm_compressQueue g) = 512"
  shows "\<exists>q' fs'. compress_turn env g fs = Some (0 < mq_count (fm_compressQueue g), g\<lparr>fm_compressQueue := q'\<rparr>, fs') \<and>
    mq_ok q' \<and> mq_elementSize q' = 512 \<and> mq_count q' = mq_count (fm_compressQueue g) - 1 \<and>
    (fs' = fs \<or> (\<exists>cmd. fs' = e_system env cmd fs))"
proof (cases "0 < mq_count (fm_compressQueue g)")
  case True
  then obtain x q' where x: "SilogMpscQueuePop (Some (fm_compressQueue g)) (Some (replicate 512 0)) =
      Some (SILOG_OK, Some (overwrite 0 x (replicate 512 0)), Some q')" "mq_ok q'"
      "same_shape (fm_compressQueue g) q'" "mq_list (fm_compressQueue g) = x # mq_list q'"
    using mpsc_pop_some [OF assms(1), of "replicate 512 0"] assms(2) by auto
  have "mq_count q' = mq_count (fm_compressQueue g) - 1"
    using arg_cong [OF x(4), of length] mq_list_length [OF x(2)] mq_list_length [OF assms(1)] by simp
  then show ?thesis
    using x assms(2) True by (auto simp: compress_turn_def same_shape_def SilogFileManagerDoCompress_def)
next
  case False
  then have "SilogMpscQueuePop (Some (fm_compressQueue g)) (Some (replicate 512 0)) =
      Some (SILOG_TRANS_QUEUE_EMPTY, Some (replicate 512 0), Some (fm_compressQueue g))"
    using mpsc_pop_empty [OF assms(1)] by simp
  then show ?thesis
    using assms False by (intro exI [of _ "fm_compressQueue g"] exI [of _ fs]) (simp add: compress_turn_def)
qed

text \<open>The thread's final loop ends: every turn takes one task from the queue.\<close>

lemma CompressThread_stopped [simp]:
  "\<not> fm_compressThreadRunning g \<Longrightarrow> SilogFileManagerCompressThread env g fs = compress_drain env g fs"
  by (simp add: SilogFileManagerCompressThread_def)

lemma compress_drain_ends:
  assumes "mq_ok (fm_compressQueue g)" and "mq_elementSize (fm_compressQueue g) = 512"
  shows "\<exists>q' fs'. compress_drain env g fs = Some (g\<lparr>fm_compressQueue := q'\<rparr>, fs') \<and> mq_ok q' \<and> mq_count q' = 0 \<and>
    (env_ok env (fm_config g) \<longrightarrow> fs' (fm_current g) = fs (fm_current g))"
  using assms
proof (induction "mq_count (fm_compressQueue g)" arbitrary: g fs)
  case 0
  have "\<exists>q' fs'. compress_turn env g fs = Some (False, g\<lparr>fm_compressQueue := q'\<rparr>, fs') \<and> mq_ok q' \<and> mq_count q' = 0 \<and>
      (fs' = fs \<or> (\<exists>cmd. fs' = e_system env cmd fs))"
    using compress_turn_outcome [OF 0(2,3), of env fs] 0(1) by auto
  then obtain q' fs' where t: "compress_turn env g fs = Some (False, g\<lparr>fm_compressQueue := q'\<rparr>, fs')" "mq_ok q'" "mq_count q' = 0"
      "fs' = fs \<or> (\<exists>cmd. fs' = e_system env cmd fs)" by blast
  have "env_ok env (fm_config g) \<longrightarrow> fs' (fm_current g) = fs (fm_current g)"
    using CompressFile_current [OF _ t(4)] by (simp add: fm_current_def)
  then show ?case using t by (subst compress_drain.simps) auto
next
  case (Suc n)
  have "0 < mq_count (fm_compressQueue g)" "mq_count (fm_compressQueue g) - 1 = n" using Suc(2) by simp_all
  with compress_turn_outcome [OF Suc.prems, of env fs]
  obtain q1 fs1 where t: "compress_turn env g fs = Some (True, g\<lparr>fm_compressQueue := q1\<rparr>, fs1)"
      "mq_ok q1" "mq_elementSize q1 = 512" "mq_count q1 = n" "fs1 = fs \<or> (\<exists>cmd. fs1 = e_system env cmd fs)"
    by (elim exE conjE) (rule that, simp_all)
  have c: "env_ok env (fm_config g) \<longrightarrow> fs1 (fm_current g) = fs (fm_current g)"
    using CompressFile_current [OF _ t(5)] by (simp add: fm_current_def)
  have "\<exists>q' fs'. compress_drain env (g\<lparr>fm_compressQueue := q1\<rparr>) fs1 =
      Some (g\<lparr>fm_compressQueue := q'\<rparr>, fs') \<and> mq_ok q' \<and> mq_count q' = 0 \<and>
      (env_ok env (fm_config g) \<longrightarrow> fs' (fm_current g) = fs1 (fm_current g))"
    using Suc(1) [of "g\<lparr>fm_compressQueue := q1\<rparr>" fs1] t(2-4) by (simp add: fm_current_def)
  then show ?case using t(1) c by (subst compress_drain.simps) auto
qed

section \<open>Reachable states\<close>

lemma EnsureDir_codes: "SilogFileManagerEnsureDir env cfg \<noteq> SILOG_OK \<Longrightarrow> SilogFileManagerEnsureDir env cfg = SILOG_FILE_OPEN"
  by (auto simp: SilogFileManagerEnsureDir_def split: dir_stat.splits mkdir_result.splits)

lemma InitWithConfig_inv:
  assumes inv: "fm_inv g fs" and cfg: "cfg_ok cfg" and m: "malloc_ok env"
    and f: "\<And>f. fs (SilogFileManagerGetCurrentPath cfg 512) = Some f \<Longrightarrow> length (f_content f) < 2 ^ 32"
    and run: "SilogFileManagerInitWithConfig env (Some cfg) g fs = (r, g', fs')"
  shows "fm_inv g' fs' \<and> (r = SILOG_OK \<longrightarrow> fm_initialized g')"
proof (cases "fm_initialized g \<or> SilogFileManagerEnsureDir env cfg \<noteq> SILOG_OK")
  case True
  then show ?thesis using run inv
    by (auto simp: SilogFileManagerInitWithConfig_def Let_def fm_inv_def split: if_splits)
next
  case False
  let ?cur = "SilogFileManagerGetCurrentPath cfg 512"
  have g: "\<not> fm_initialized g" and ens: "SilogFileManagerEnsureDir env cfg = SILOG_OK" using False by auto
  obtain b where b: "e_malloc env 32768 = Some b" "length b = 32768" using m by (auto simp: malloc_ok_def)
  obtain b2 where b2: "e_malloc env 256 = Some b2" using m by (auto simp: malloc_ok_def)
  have "\<exists>q'. SilogMpscQueueInit (e_malloc env) (e_malloc env) (Some (fm_compressQueue g)) 512 64 = (SILOG_OK, Some q') \<and>
      mq_ok q' \<and> mq_list q' = [] \<and> mq_elementSize q' = 512 \<and> mq_capacity q' = 64"
    using b b2 by (intro mpsc_init_ok [where b = b]) simp_all
  then obtain q where q: "SilogMpscQueueInit (e_malloc env) (e_malloc env) (Some (fm_compressQueue g)) 512 64 = (SILOG_OK, Some q)"
      "mq_ok q" "mq_elementSize q = 512" by blast
  show ?thesis
  proof (cases "e_fopen env ?cur \<and> e_pthread_create env = 0")
    case False
    then show ?thesis using run g ens q(1)
      by (auto simp: SilogFileManagerInitWithConfig_def Let_def fopen_append_def fm_inv_def split: if_splits)
  next
    case True
    obtain f1 fs1 where o: "fopen_append env ?cur fs = (Some (?cur, []), fs1)"
      and f1: "fs1 ?cur = Some f1" "length (f_content f1) < 2 ^ 32"
      using True f by (cases "fs ?cur") (auto simp: fopen_append_def)
    have run': "fs' = fs1" "g' = g\<lparr>fm_config := cfg, fm_currentFd := Some (?cur, []),
          fm_currentSize := word_of_nat (length (f_content f1)), fm_compressQueue := q,
          fm_compressThreadRunning := True, fm_asyncBufferSize := 0, fm_lastFlushTimeMs := e_now env,
          fm_initialized := True\<rparr>"
      using run g ens q(1) True f1(1) o by (auto simp: SilogFileManagerInitWithConfig_def Let_def)
    have "unat (word_of_nat (length (f_content f1)) :: u32) = length (f_content f1)"
      using f1(2) by (simp add: unat_of_nat)
    then show ?thesis
      unfolding run' using f1(1) q(2,3) cfg by (simp add: fm_inv_def fm_current_def log_text_def)
  qed
qed

definition default_config :: SilogLogFileConfig where
  "default_config = the (SilogFileManagerGetDefaultConfig (Some undefined))"

lemma Init_default:
  "SilogFileManagerInit env None g fs = SilogFileManagerInitWithConfig env (Some default_config) g fs"
  by (simp add: SilogFileManagerInit_def default_config_def SilogFileManagerGetDefaultConfig_def)

lemma cfg_ok_default: "cfg_ok default_config"
  by (simp add: cfg_ok_def default_config_def SilogFileManagerGetDefaultConfig_def chars_def)

lemma Flush_inv:
  assumes "fm_inv g fs" and "SilogFileManagerFlush env g fs = (g', fs')"
  shows "fm_inv g' fs'"
  using assms
  by (auto simp: SilogFileManagerFlush_def flush_current_def c_fflush_def fm_inv_def fm_current_def log_text_def
    split: if_splits option.splits prod.splits)

lemma compress_turn_keeps:
  assumes "fm_inv g fs" and "fm_initialized g" and "env_ok env (fm_config g)"
    and "compress_turn env g fs = Some (busy, g', fs')"
  shows "fm_inv g' fs'" and "\<exists>q'. g' = g\<lparr>fm_compressQueue := q'\<rparr>" and "log_text g' fs' = log_text g fs"
proof -
  have q: "mq_ok (fm_compressQueue g)" "mq_elementSize (fm_compressQueue g) = 512"
    using assms(1,2) by (simp_all add: fm_inv_def)
  obtain q' where q': "g' = g\<lparr>fm_compressQueue := q'\<rparr>" "mq_ok q'" "mq_elementSize q' = 512"
      "fs' = fs \<or> (\<exists>cmd. fs' = e_system env cmd fs)"
    using compress_turn_outcome [OF q, of env fs] assms(4) by auto
  have "fs' (fm_current g) = fs (fm_current g)"
    using CompressFile_current [OF assms(3) q'(4)] by (simp add: fm_current_def)
  then show "fm_inv g' fs'" "log_text g' fs' = log_text g fs"
    using assms(1,2) q' by (auto simp: fm_inv_def fm_current_def log_text_def split: option.splits)
  show "\<exists>q'. g' = g\<lparr>fm_compressQueue := q'\<rparr>" using q'(1) by blast
qed

lemma Deinit_outcome:
  assumes "fm_inv g fs" and "fm_initialized g \<or> \<not> fm_compressThreadRunning g"
  shows "\<exists>g' fs'. SilogFileManagerDeinit env True g fs = Some (g', fs') \<and> fm_inv g' fs' \<and>
    \<not> fm_initialized g' \<and> \<not> fm_compressThreadRunning g' \<and>
    (fm_initialized g \<longrightarrow> env_ok env (fm_config g) \<longrightarrow>
      (case fs' (fm_current g) of None \<Rightarrow> [] | Some f \<Rightarrow> f_content f) = log_text g fs)"
proof (cases "fm_compressThreadRunning g")
  case False
  then show ?thesis using closed_fs_current(1) [OF assms(1), of env]
    by (simp add: SilogFileManagerDeinit_def Let_def fm_inv_def closed_fs_def)
next
  case True
  let ?g1 = "g\<lparr>fm_currentFd := None, fm_initialized := False, fm_compressThreadRunning := False\<rparr>"
  have q: "mq_ok (fm_compressQueue ?g1)" "mq_elementSize (fm_compressQueue ?g1) = 512"
    using True assms by (simp_all add: fm_inv_def)
  obtain q' fs' where d: "compress_drain env ?g1 (closed_fs env g fs) = Some (?g1\<lparr>fm_compressQueue := q'\<rparr>, fs')"
      "env_ok env (fm_config g) \<longrightarrow> fs' (fm_current g) = closed_fs env g fs (fm_current g)"
    using compress_drain_ends [OF q, of env "closed_fs env g fs"] by (auto simp: fm_current_def)
  then have "SilogFileManagerDeinit env True g fs =
      Some (?g1\<lparr>fm_compressQueue := q'\<lparr>mq_buffer := None, mq_seq := None\<rparr>\<rparr>, fs')"
    using True by (simp add: SilogFileManagerDeinit_def Let_def closed_fs_def SilogMpscQueueDestroy_def)
  then show ?thesis using d(2) closed_fs_current(1) [OF assms(1), of env] by (simp add: fm_inv_def)
qed

text \<open>The calls an application and the compression thread can make, in any order.\<close>

inductive fm_reach :: "SilogFileManager \<Rightarrow> fs \<Rightarrow> bool" where
  start: "\<not> fm_initialized g \<Longrightarrow> fm_currentFd g = None \<Longrightarrow> fm_reach g fs"
| init: "fm_reach g fs \<Longrightarrow> malloc_ok env \<Longrightarrow> cfg_ok (case config of None \<Rightarrow> default_config | Some cfg \<Rightarrow> cfg) \<Longrightarrow>
    (\<And>f. fs (SilogFileManagerGetCurrentPath (case config of None \<Rightarrow> default_config | Some cfg \<Rightarrow> cfg) 512) = Some f \<Longrightarrow>
       length (f_content f) < 2 ^ 32) \<Longrightarrow>
    SilogFileManagerInit env config g fs = (r, g', fs') \<Longrightarrow> fm_reach g' fs'"
| wr: "fm_reach g fs \<Longrightarrow> env_ok env (fm_config g) \<Longrightarrow> unat len \<le> length d \<Longrightarrow>
    unat (fm_currentSize g) + unat len < 2 ^ 32 \<Longrightarrow>
    SilogFileManagerWriteRaw env (Some d) len g fs = Some (r, g', fs') \<Longrightarrow> fm_reach g' fs'"
| rotate: "fm_reach g fs \<Longrightarrow> env_ok env (fm_config g) \<Longrightarrow>
    SilogFileManagerRotate env g fs = Some (r, g', fs') \<Longrightarrow> fm_reach g' fs'"
| flush: "fm_reach g fs \<Longrightarrow> SilogFileManagerFlush env g fs = (g', fs') \<Longrightarrow> fm_reach g' fs'"
| compress: "fm_reach g fs \<Longrightarrow> fm_initialized g \<Longrightarrow> env_ok env (fm_config g) \<Longrightarrow>
    compress_turn env g fs = Some (busy, g', fs') \<Longrightarrow> fm_reach g' fs'"
| deinit: "fm_reach g fs \<Longrightarrow> fm_initialized g \<or> \<not> fm_compressThreadRunning g \<Longrightarrow>
    SilogFileManagerDeinit env True g fs = Some (g', fs') \<Longrightarrow> fm_reach g' fs'"
| logDir: "fm_reach g fs \<Longrightarrow> SilogFileManagerSetLogDir dir g = (r, g') \<Longrightarrow> fm_reach g' fs"
| logFileBase: "fm_reach g fs \<Longrightarrow> SilogFileManagerSetLogFileBase base g = (r, g') \<Longrightarrow> fm_reach g' fs"
| maxFileSize: "fm_reach g fs \<Longrightarrow> fm_reach (SilogFileManagerSetMaxFileSize n g) fs"
| maxFileCount: "fm_reach g fs \<Longrightarrow> fm_reach (SilogFileManagerSetMaxFileCount n g) fs"
| compression: "fm_reach g fs \<Longrightarrow> fm_reach (SilogFileManagerSetCompression b g) fs"
| compressMode: "fm_reach g fs \<Longrightarrow> fm_reach (SilogFileManagerSetCompressMode cm g) fs"
| flushMode: "fm_reach g fs \<Longrightarrow> fm_reach (SilogFileManagerSetFlushMode fm g) fs"
| flushInterval: "fm_reach g fs \<Longrightarrow> fm_reach (SilogFileManagerSetAsyncFlushInterval n g) fs"
| flushSize: "fm_reach g fs \<Longrightarrow> fm_reach (SilogFileManagerSetAsyncFlushSize n g) fs"

lemmas fm_setter_defs = SilogFileManagerSetMaxFileSize_def SilogFileManagerSetMaxFileCount_def
  SilogFileManagerSetCompression_def SilogFileManagerSetCompressMode_def SilogFileManagerSetFlushMode_def
  SilogFileManagerSetAsyncFlushInterval_def SilogFileManagerSetAsyncFlushSize_def
  SilogFileManagerSetLogDir_def SilogFileManagerSetLogFileBase_def

text \<open>A change of the configuration that keeps the directory and the base name keeps the invariant.\<close>

lemma fm_inv_config:
  assumes "fm_inv g fs" and "lc_logDir cfg = lc_logDir (fm_config g)" and "lc_logFileBase cfg = lc_logFileBase (fm_config g)"
  shows "fm_inv (g\<lparr>fm_config := cfg\<rparr>) fs"
  using assms
  by (auto simp: fm_inv_def fm_current_def log_text_def cfg_ok_def SilogFileManagerGetCurrentPath_def split: option.splits)

lemma fm_reach_inv: "fm_reach g fs \<Longrightarrow> fm_inv g fs"
proof (induction rule: fm_reach.induct)
  case (start g fs)
  then show ?case by (simp add: fm_inv_def)
next
  case (init g fs env config r g' fs')
  let ?c = "case config of None \<Rightarrow> default_config | Some cfg \<Rightarrow> cfg"
  have "SilogFileManagerInitWithConfig env (Some ?c) g fs = (r, g', fs')"
    using init.hyps(5) by (cases config) (auto simp: Init_default SilogFileManagerInit_def [of _ "Some _"])
  then show ?case using InitWithConfig_inv [OF init.IH init.hyps(3,2,4)] by blast
next
  case (wr g fs env len d r g' fs')
  then show ?case using WriteRaw_outcome [OF wr.IH wr.hyps(2), of "Some d" len] by auto
next
  case (rotate g fs env r g' fs')
  then show ?case using RotateInternal_outcome [OF rotate.IH _ rotate.hyps(2)]
    by (auto simp: SilogFileManagerRotate_def rotate_post_def split: if_splits)
next
  case (flush g fs env g' fs')
  then show ?case by (auto intro: Flush_inv)
next
  case (compress g fs env busy g' fs')
  then show ?case by (auto intro: compress_turn_keeps(1))
next
  case (deinit g fs env g' fs')
  then show ?case using Deinit_outcome [OF deinit.IH deinit.hyps(2), of env] by auto
next
  case (logDir g fs dir r g')
  then show ?case by (auto simp: fm_setter_defs fm_inv_def split: option.splits if_splits)
next
  case (logFileBase g fs base r g')
  then show ?case by (auto simp: fm_setter_defs fm_inv_def split: option.splits if_splits)
qed (auto simp: fm_setter_defs intro: fm_inv_config)

text \<open>A rotation with compression off and room for the history files: nothing is lost.\<close>

lemma RotateInternal_keeps_log:
  assumes inv: "fm_inv g fs" and init: "fm_initialized g" and fd: "fm_currentFd g \<noteq> None"
    and env: "env_ok env (fm_config g)"
    and rn: "k < unat (lc_rotateRetryCount (fm_config g))" "e_rename env k" and op: "e_fopen env (fm_current g)"
    and off: "background (fm_config g)"
    and few: "\<And>fs names. e_scandir env (lc_logDir (fm_config g)) fs = Some names \<Longrightarrow>
       length (history_files (fm_config g) fs names) \<le> unat (lc_maxFileCount (fm_config g))"
  obtains f q' where "f_content f = log_text g fs" and "SilogFileManagerRotateInternal env g fs =
    Some (SILOG_OK, g\<lparr>fm_currentFd := Some (fm_current g, []), fm_currentSize := 0, fm_asyncBufferSize := 0, fm_compressQueue := q'\<rparr>,
      fs(rotation_history env g fs \<mapsto> f, fm_current g \<mapsto> \<lparr>f_content = [], f_mtime = e_mtime env\<rparr>))"
proof -
  let ?cur = "fm_current g" and ?h = "rotation_history env g fs" and ?cnt = "unat (lc_rotateRetryCount (fm_config g))"
  note closed = closed_fs_current [OF inv init]
  obtain f where f: "closed_fs env g fs ?cur = Some f" "f_content f = log_text g fs"
    using closed(1) [of env] closed(2) [of env] fd by auto
  let ?fs2 = "(closed_fs env g fs)(?cur := None, ?h \<mapsto> f)" and ?e = "\<lparr>f_content = [], f_mtime = e_mtime env\<rparr>"
    and ?g2 = "g\<lparr>fm_currentFd := Some (?cur, []), fm_currentSize := 0, fm_asyncBufferSize := 0\<rparr>"
  obtain r where r: "r < ?cnt" "rename_loop env ?cur ?h ?cnt (closed_fs env g fs) 0 = (r, ?fs2)"
    using rename_loop_present [of "closed_fs env g fs" ?cur f 0 ?cnt env ?h] f(1) rn by (auto split: if_splits)
  have clean: "\<exists>c. SilogFileManagerCleanOldFiles env (fm_config g) fs4 = Some (c, fs4)" for fs4
  proof (cases "e_scandir env (lc_logDir (fm_config g)) fs4")
    case (Some names)
    have n: "names_ok names" "malloc_ok env" "cfg_ok (fm_config g)"
      using env Some inv init by (auto simp: env_ok_def fm_inv_def)
    obtain R where R: "SilogFileManagerCleanOldFiles env (fm_config g) fs4 = Some (SILOG_OK, fs4 |` (- R))"
        "R \<subseteq> set (take 128 (history_files (fm_config g) fs4 names))"
        "card R = min 128 (length (history_files (fm_config g) fs4 names)) - unat (lc_maxFileCount (fm_config g))"
      by (rule CleanOldFiles_effect [OF n(2) Some n(3,1)]) (rule that)
    have "R = {}" using R(3) few [OF Some] finite_subset [OF R(2)] by simp
    then show ?thesis using R(1) by (simp add: restrict_map_def)
  qed (simp add: SilogFileManagerCleanOldFiles_def)
  have "?fs2(?cur \<mapsto> ?e) = fs(?h \<mapsto> f, ?cur \<mapsto> ?e)" using closed(3) by (auto simp: fun_eq_iff)
  moreover obtain q' fs' where "SilogFileManagerCompressFile env ?h ?g2 (fs(?h \<mapsto> f, ?cur \<mapsto> ?e)) = Some (?g2\<lparr>fm_compressQueue := q'\<rparr>, fs')"
      "fs' = fs(?h \<mapsto> f, ?cur \<mapsto> ?e)"
    by (rule CompressFile_outcome [of ?g2 env ?h "fs(?h \<mapsto> f, ?cur \<mapsto> ?e)"]) (use inv init off in \<open>auto simp: fm_inv_def\<close>)
  ultimately show thesis
    using RotateInternal_renamed [OF r(2,1)] op clean [of "fs(?h \<mapsto> f, ?cur \<mapsto> ?e)"]
    by (intro that [OF f(2), of q']) (auto simp: fopen_truncate_def)
qed

section \<open>Example instances\<close>

definition ex_cfg :: SilogLogFileConfig where
  "ex_cfg = \<lparr>lc_logDir = chars ''d'', lc_logFileBase = chars ''s'', lc_maxFileSize = 8, lc_maxFileCount = 2,
     lc_enableCompression = False, lc_compressMode = SILOG_COMPRESS_ASYNC, lc_flushMode = SILOG_FLUSH_SYNC,
     lc_asyncFlushIntervalMs = 1000, lc_asyncFlushSize = 4096, lc_rotateRetryCount = 3, lc_rotateRetryDelayMs = 100\<rparr>"

definition ex_env :: "byte list list \<Rightarrow> (nat \<Rightarrow> bool) \<Rightarrow> fm_env" where
  "ex_env names rn = \<lparr>e_malloc = (\<lambda>n. Some (replicate n 0)), e_stat_dir = (\<lambda>_. StatDir),
     e_mkdir = (\<lambda>_. MkdirExists), e_fopen = (\<lambda>_. True), e_scandir = (\<lambda>_ _. Some names), e_rename = rn,
     e_fwrite = (\<lambda>n. n), e_now = 5, e_mtime = 7, e_strftime = (\<lambda>_. chars ''t''), e_system = (\<lambda>_ fs. fs),
     e_pthread_create = 0\<rparr>"

definition ex_blank :: SilogFileManager where
  "ex_blank = \<lparr>fm_config = ex_cfg, fm_currentFd = None, fm_currentSize = 0, fm_asyncBufferSize = 0,
     fm_lastFlushTimeMs = 0, fm_initialized = False,
     fm_compressQueue = mq_ex, fm_compressThreadRunning = False\<rparr>"

definition ex_fs :: fs where
  "ex_fs = [chars ''d/s.log'' \<mapsto> \<lparr>f_content = [1, 2, 3], f_mtime = 1\<rparr>]"

definition ex_g :: SilogFileManager where
  "ex_g = fst (snd (SilogFileManagerInit (ex_env [] (\<lambda>_. True)) (Some ex_cfg) ex_blank ex_fs))"

lemma ex_current: "SilogFileManagerGetCurrentPath ex_cfg 512 = chars ''d/s.log''"
  by (simp add: SilogFileManagerGetCurrentPath_def ex_cfg_def chars_def)

lemma ex_cfg_ok: "cfg_ok ex_cfg"
  by (simp add: cfg_ok_def ex_cfg_def chars_def)

lemma ex_malloc: "malloc_ok (ex_env names rn)"
  by (simp add: malloc_ok_def ex_env_def)

lemma ex_env_ok: "names_ok names \<Longrightarrow> env_ok (ex_env names rn) cfg"
  by (simp add: env_ok_def ex_malloc) (simp add: ex_env_def)

lemma ex_init: "SilogFileManagerInit (ex_env [] (\<lambda>_. True)) (Some ex_cfg) ex_blank ex_fs = (SILOG_OK, ex_g, ex_fs)"
  and ex_g_fields: "fm_config ex_g = ex_cfg" "fm_currentFd ex_g = Some (chars ''d/s.log'', [])" "fm_currentSize ex_g = 3"
    "fm_initialized ex_g"
  unfolding ex_g_def
  by (simp_all add: SilogFileManagerInit_def SilogFileManagerInitWithConfig_def SilogFileManagerEnsureDir_def ex_env_def
    ex_current ex_blank_def ex_fs_def Let_def fopen_append_def SilogMpscQueueInit_def)

lemma ex_reach: "fm_reach ex_g ex_fs"
proof (rule fm_reach.init [OF fm_reach.start ex_malloc _ _ ex_init])
  show "\<not> fm_initialized ex_blank" "fm_currentFd ex_blank = None" by (simp_all add: ex_blank_def)
qed (auto simp: ex_cfg_ok ex_current ex_fs_def)

definition ex_names :: "byte list list" where
  "ex_names = [chars ''s_1.log'', chars ''s_2.log'', chars ''s_3.gz'', chars ''other'']"

definition ex_history :: fs where
  "ex_history = [chars ''d/s_1.log'' \<mapsto> \<lparr>f_content = [], f_mtime = 1\<rparr>,
     chars ''d/s_2.log'' \<mapsto> \<lparr>f_content = [], f_mtime = 9\<rparr>, chars ''d/s_3.gz'' \<mapsto> \<lparr>f_content = [], f_mtime = 4\<rparr>,
     chars ''d/other'' \<mapsto> \<lparr>f_content = [], f_mtime = 2\<rparr>]"

lemma ex_max_count: "lc_maxFileCount ex_cfg = 2"
  by (simp add: ex_cfg_def)

lemma ex_names_ok: "names_ok ex_names"
  by (simp add: names_ok_def ex_names_def chars_def)

lemma ex_history_files:
  "history_files ex_cfg ex_history ex_names = [chars ''d/s_1.log'', chars ''d/s_2.log'', chars ''d/s_3.gz'']"
  by code_simp

section \<open>Properties\<close>

text \<open>
  Writing to an open log that stays below the size limit, in any reachable state: the call
  succeeds, the log (file and stream buffer together) grows by exactly the data, the recorded size
  grows by its length, and no other file is touched. In synchronous mode the file itself holds
  everything.
\<close>

lemma SilogFileManagerWriteRaw_appends:
  assumes "fm_reach g fs" and "fm_initialized g" and "fm_currentFd g \<noteq> None" and "env_ok env (fm_config g)"
    and "0 < len" and "unat len \<le> length d" and "unat (fm_currentSize g) + unat len < unat (lc_maxFileSize (fm_config g))"
  shows "\<exists>g' fs'. SilogFileManagerWriteRaw env (Some d) len g fs = Some (SILOG_OK, g', fs') \<and>
    log_text g' fs' = log_text g fs @ take (unat len) d \<and>
    unat (fm_currentSize g') = unat (fm_currentSize g) + unat len \<and>
    (\<forall>p. p \<noteq> fm_current g \<longrightarrow> fs' p = fs p) \<and>
    (lc_flushMode (fm_config g) = SILOG_FLUSH_SYNC \<longrightarrow>
       (\<exists>f. fs' (fm_current g) = Some f \<and> f_content f = log_text g fs @ take (unat len) d))"
proof -
  have inv: "fm_inv g fs" using assms(1) by (rule fm_reach_inv)
  then obtain pending where fd: "fm_currentFd g = Some (fm_current g, pending)" "fs (fm_current g) \<noteq> None"
    using assms(2,3) by (auto simp: fm_inv_def)
  have w: "\<forall>n. e_fwrite env n = n" using assms(4) by (simp add: env_ok_def)
  have bound: "unat (lc_maxFileSize (fm_config g)) < 2 ^ 32"
    using unsigned_less [where 'a = nat, of "lc_maxFileSize (fm_config g)"] by simp
  have sz: "unat (fm_currentSize g + len) = unat (fm_currentSize g) + unat len"
    using assms(7) bound by (intro unat_add_exact) simp
  then have nr: "\<not> fm_currentSize g + len \<ge> lc_maxFileSize (fm_config g)"
    using assms(7) by (simp add: word_le_nat_alt)
  obtain g' fs' rest where g': "write_and_flush env d len g fs = Some (SILOG_OK, g', fs')"
      "fm_currentFd g' = Some (fm_current g, rest)" "fs' (fm_current g) \<noteq> None"
      "log_text g' fs' = log_text g fs @ take (unat len) d" "fm_currentSize g' = fm_currentSize g + len"
      "fm_config g' = fm_config g" "\<forall>p. p \<noteq> fm_current g \<longrightarrow> fs' p = fs p"
      "lc_flushMode (fm_config g) = SILOG_FLUSH_SYNC \<longrightarrow> rest = []"
    using write_and_flush_appends [of g pending fs len d env, OF fd assms(6) w] by blast
  have "SilogFileManagerWriteRaw env (Some d) len g fs = Some (SILOG_OK, g', fs')"
    using g'(1) nr assms(2,3,5) by (auto simp: SilogFileManagerWriteRaw_def)
  moreover have "\<exists>f. fs' (fm_current g) = Some f \<and> f_content f = log_text g' fs'" if "rest = []"
    using g'(2,3,6) that by (auto simp: log_text_def fm_current_def)
  ultimately show ?thesis using g' sz by auto
qed





text \<open>
  C18. Writing that reaches the size limit when every rename fails: the call returns an error, the
  log and the recorded size are what they were, so the data is not written, although the current
  file was reopened for appending.
\<close>

theorem SilogFileManagerWriteRaw_rotation_fails:
  assumes "fm_reach g fs" and "fm_initialized g" and "fm_currentFd g \<noteq> None" and "env_ok env (fm_config g)"
    and "0 < len" and "unat (fm_currentSize g) + unat len < 2 ^ 32"
    and "unat (lc_maxFileSize (fm_config g)) \<le> unat (fm_currentSize g) + unat len"
    and "\<forall>k < unat (lc_rotateRetryCount (fm_config g)). \<not> e_rename env k"
  shows "\<exists>ret g' fs'. SilogFileManagerWriteRaw env (Some d) len g fs = Some (ret, g', fs') \<and> ret \<noteq> SILOG_OK \<and>
    log_text g' fs' = log_text g fs \<and> fm_currentSize g' = fm_currentSize g \<and> fm_reach g' fs'"
proof -
  let ?cnt = "unat (lc_rotateRetryCount (fm_config g))"
  have inv: "fm_inv g fs" using assms(1) by (rule fm_reach_inv)
  obtain r where r: "rename_loop env (fm_current g) (rotation_history env g fs) ?cnt (closed_fs env g fs) 0 =
      (r, closed_fs env g fs)" "?cnt \<le> r"
    using rename_loop_missing [of "closed_fs env g fs" "fm_current g"] assms(8)
      rename_loop_present [of "closed_fs env g fs" "fm_current g" _ 0 ?cnt env "rotation_history env g fs"]
    by (cases "closed_fs env g fs (fm_current g)") (auto split: if_splits)
  obtain ret g' fs' where g': "SilogFileManagerRotateInternal env g fs = Some (ret, g', fs')"
      "rotate_post g ret g' fs'" "ret \<noteq> SILOG_OK" "log_text g' fs' = log_text g fs"
    using failed_rotation_outcome [OF inv assms(2) r] by blast
  have "lc_maxFileSize (fm_config g) \<le> fm_currentSize g + len"
    using assms(6,7) by (simp add: word_le_nat_alt unat_add_exact)
  then have run: "SilogFileManagerWriteRaw env (Some d) len g fs = Some (ret, g', fs')"
    using g'(1,3) assms(2,3,5) by (auto simp: SilogFileManagerWriteRaw_def)
  have "fm_reach g' fs'"
    using fm_reach.rotate [OF assms(1,4), of ret g' fs'] g'(1) assms(2) by (simp add: SilogFileManagerRotate_def)
  then show ?thesis using run g' by (auto simp: rotate_post_def)
qed

theorem SilogFileManagerWriteRaw_rotation_fails_witness:
  "\<exists>ret g' fs'. SilogFileManagerWriteRaw (ex_env [] (\<lambda>_. False)) (Some [4, 5, 6, 7, 8]) 5 ex_g ex_fs =
      Some (ret, g', fs') \<and> ret \<noteq> SILOG_OK \<and> log_text g' fs' = [1, 2, 3]"
proof -
  have t: "log_text ex_g ex_fs = [1, 2, 3]" by (simp add: log_text_def fm_current_def ex_g_fields ex_current ex_fs_def)
  show ?thesis
    using SilogFileManagerWriteRaw_rotation_fails [OF ex_reach, of "ex_env [] (\<lambda>_. False)" 5 "[4, 5, 6, 7, 8]"]
    by (simp add: ex_g_fields ex_env_ok names_ok_def ex_cfg_def t) (auto simp: ex_env_def)
qed





text \<open>
  C17. Which files go: the comment in the code says that the oldest are removed, but the comparison
  makes the latest modification time the top of the heap. Whenever something is removed, a file that
  no other history file is newer than is among it; with one file too many it is exactly the newest
  that is lost.
\<close>

theorem SilogFileManagerCleanOldFiles_removes_newest:
  assumes "malloc_ok env" and "e_scandir env (lc_logDir cfg) fs = Some names" and "cfg_ok cfg" and "names_ok names"
    and "unat (lc_maxFileCount cfg) < length (history_files cfg fs names)" and "length (history_files cfg fs names) \<le> 128"
  shows "\<exists>fs' p f. SilogFileManagerCleanOldFiles env cfg fs = Some (SILOG_OK, fs') \<and>
    p \<in> set (history_files cfg fs names) \<and> fs p = Some f \<and> fs' p = None \<and>
    (\<forall>p' f'. p' \<in> set (history_files cfg fs names) \<and> fs p' = Some f' \<longrightarrow> sint (f_mtime f') \<le> sint (f_mtime f)) \<and>
    (length (history_files cfg fs names) = Suc (unat (lc_maxFileCount cfg)) \<longrightarrow> fs' = fs(p := None))"
proof -
  let ?hf = "history_files cfg fs names"
  obtain R where R: "SilogFileManagerCleanOldFiles env cfg fs = Some (SILOG_OK, fs |` (- R))"
      "R \<subseteq> set (take 128 ?hf)" "card R = min 128 (length ?hf) - unat (lc_maxFileCount cfg)"
    and top: "R \<noteq> {} \<Longrightarrow> \<exists>p \<in> R. \<forall>p' \<in> set (take 128 ?hf).
       sint (f_mtime (the (fs p'))) \<le> sint (f_mtime (the (fs p)))"
    by (rule CleanOldFiles_effect [OF assms(1-4)]) (rule that)
  have R': "R \<subseteq> set ?hf" "card R = length ?hf - unat (lc_maxFileCount cfg)" using R(2,3) assms(6) by simp_all
  then have "R \<noteq> {}" using assms(5) by auto
  then obtain p where p: "p \<in> R" "\<forall>p' \<in> set ?hf. sint (f_mtime (the (fs p'))) \<le> sint (f_mtime (the (fs p)))"
    using top assms(6) by auto
  obtain f where f: "fs p = Some f" using history_files_dom [of p cfg fs names] p(1) R'(1) by blast
  have one: "fs |` (- R) = fs(p := None)" if "length ?hf = Suc (unat (lc_maxFileCount cfg))"
  proof -
    have "card R = 1" using R'(2) that by simp
    then have "R = {p}" using p(1) by (metis card_1_singletonE singletonD)
    then show ?thesis by (auto simp: restrict_map_def fun_eq_iff)
  qed
  show ?thesis
    using R(1) p R'(1) f one by (intro exI [of _ "fs |` (- R)"] exI [of _ p] exI [of _ f]) (auto simp: restrict_map_def)
qed

theorem SilogFileManagerCleanOldFiles_removes_newest_witness:
  "SilogFileManagerCleanOldFiles (ex_env ex_names (\<lambda>_. True)) ex_cfg ex_history =
     Some (SILOG_OK, ex_history(chars ''d/s_2.log'' := None))"
proof -
  have "e_scandir (ex_env ex_names (\<lambda>_. True)) (lc_logDir ex_cfg) ex_history = Some ex_names"
    by (simp add: ex_env_def)
  from SilogFileManagerCleanOldFiles_removes_newest [OF ex_malloc this ex_cfg_ok ex_names_ok] obtain fs' p f where
    "SilogFileManagerCleanOldFiles (ex_env ex_names (\<lambda>_. True)) ex_cfg ex_history = Some (SILOG_OK, fs')"
    "p \<in> set (history_files ex_cfg ex_history ex_names)" "ex_history p = Some f" "fs' = ex_history(p := None)"
    "\<forall>p' f'. p' \<in> set (history_files ex_cfg ex_history ex_names) \<and> ex_history p' = Some f' \<longrightarrow>
       sint (f_mtime f') \<le> sint (f_mtime f)"
    by (auto simp: ex_history_files ex_max_count)
  moreover from this(5) [rule_format, of "chars ''d/s_2.log''" "\<lparr>f_content = [], f_mtime = 9\<rparr>"]
  have "sint (9::u64) \<le> sint (f_mtime f)"
    by (simp add: ex_history_files) (simp add: ex_history_def chars_def)
  ultimately show ?thesis by (auto simp: ex_history_files) (auto simp: ex_history_def chars_def)
qed

end
