(* ===== verification/Silog_Daemon_Ok.thy ===== *)
theory Silog_Daemon_Ok
  imports Silog_Daemon Silog_File_Manager_Ok
begin

text \<open>
  Correctness of the daemon's two worker threads (\<^verbatim>\<open>silog_daemon.c\<close>).  An entry
  taken from the queue becomes exactly one line of the log; a datagram becomes exactly one entry
  of the queue; and two behaviours of the source that its comments do not promise: the workers may
  leave their loops before the daemon has marked itself as running, and a short datagram keeps
  bytes of the entry received before it.
\<close>

section \<open>The line of an entry\<close>

text \<open>An entry whose three strings are terminated inside their arrays.\<close>

definition entry_strings :: "logEntry_t \<Rightarrow> bool" where
  "entry_strings e \<longleftrightarrow> entry_shape e \<and> 0 \<in> set (le_tag e) \<and> 0 \<in> set (le_file e) \<and> 0 \<in> set (le_msg e)"

lemma entry_ok_strings: "entry_ok e \<Longrightarrow> entry_strings e"
  using nth_mem [of 31 "le_tag e"] nth_mem [of 63 "le_file e"] nth_mem [of 255 "le_msg e"]
  by (auto simp: entry_ok_def entry_strings_def entry_shape_def)

definition clock_text :: "(u64 \<Rightarrow> tm option) \<Rightarrow> u64 \<Rightarrow> byte list" where
  "clock_text localtime ts =
     take 31 (case localtime (ts div 1000) of None \<Rightarrow> [] | Some t \<Rightarrow> wall_clock_text t (ucast (ts mod 1000)))"

definition entry_line :: "(u64 \<Rightarrow> tm option) \<Rightarrow> logEntry_t \<Rightarrow> byte list" where
  "entry_line localtime e = log_line (clock_text localtime (le_ts e)) (SilogUtilsLevelToName (le_level e))
     (le_pid e) (le_tid e) (cstr (le_tag e)) (cstr (le_file e)) (le_line e) (cstr (le_msg e))"

lemma cstr_shorter: "0 \<in> set a \<Longrightarrow> length (cstr a) < length a"
  by (induction a) auto

lemma length_dec_word: "length (dec (unat (w::u32))) \<le> 10"
proof (rule length_dec_le)
  show "unat w < 10 ^ 10" using unsigned_less [where 'a = nat, of w] by simp
qed simp

lemma length_dec_sint: "length (dec_int (sint (w::u32))) \<le> 11"
proof -
  have "\<bar>sint w\<bar> \<le> 2 ^ 31" using sint_ge [of w] sint_less [of w] by (simp add: abs_le_iff)
  then have "nat \<bar>sint w\<bar> < 10 ^ 10" by (simp add: nat_less_iff)
  then have "length (dec (nat \<bar>sint w\<bar>)) \<le> 10" using length_dec_le [of 10] by simp
  then show ?thesis by (auto simp: dec_int_def int_pad_def dec_pad_def)
qed

lemma level_names: "length (SilogUtilsLevelToName l) \<le> 7 \<and> 0 \<notin> set (SilogUtilsLevelToName l)"
proof (cases "l \<ge> 5")
  case False
  then have "unat l < 5" by (simp add: word_le_nat_alt)
  then have "unat l \<in> {0, 1, 2, 3, 4}" by auto
  then show ?thesis using False by (auto simp: SilogUtilsLevelToName_def Let_def chars_def)
qed (simp add: SilogUtilsLevelToName_def chars_def)

lemma clock_text_props: "length (clock_text localtime ts) \<le> 31 \<and> 0 \<notin> set (clock_text localtime ts)"
  using wall_clock_text_no_zero by (auto simp: clock_text_def dest!: in_set_takeD split: option.splits)

lemma entry_line_length:
  assumes "entry_strings e"
  shows "length (entry_line localtime e) \<le> 441"
proof -
  have "length (cstr (le_tag e)) \<le> 31" "length (cstr (le_file e)) \<le> 63" "length (cstr (le_msg e)) \<le> 255"
    using assms cstr_shorter [of "le_tag e"] cstr_shorter [of "le_file e"] cstr_shorter [of "le_msg e"]
    by (auto simp: entry_strings_def entry_shape_def)
  then show ?thesis
    using clock_text_props [of localtime "le_ts e"] level_names [of "le_level e"]
      length_dec_sint [of "le_pid e"] length_dec_sint [of "le_tid e"] length_dec_word [of "le_line e"]
    by (simp add: entry_line_def log_line_def)
qed

lemma entry_line_no_zero: "0 \<notin> set (entry_line localtime e)"
  using clock_text_props [of localtime "le_ts e"] level_names [of "le_level e"] dec_no_zero int_pad_no_zero
  by (simp add: entry_line_def log_line_def dec_int_def chars_def)

lemma format_entry_line:
  assumes "entry_strings e"
  shows "\<exists>buf. format_entry localtime e = Some (int (length (entry_line localtime e)), buf) \<and> length buf = 512 \<and>
    take (length (entry_line localtime e)) buf = entry_line localtime e"
proof -
  let ?l = "entry_line localtime e"
  obtain tb where tb: "SilogFormatWallClockMs localtime (le_ts e) (Some (replicate 32 0)) 32 = Some (Some tb)"
      "is_string tb 0 (clock_text localtime (le_ts e))"
    using FormatWallClockMs_run [of 32 "replicate 32 0" localtime "le_ts e"] by (auto simp: clock_text_def)
  have "0 \<in> set tb" using tb(2) nth_mem by (fastforce simp: is_string_def)
  then have time: "array_string tb = Some (clock_text localtime (le_ts e))"
    using is_string_cstr [OF tb(2)] by (simp add: array_string_def)
  have l: "length ?l \<le> 441" using assms by (rule entry_line_length)
  obtain b where b: "snprintf_s (replicate 512 0) (Some 0) 512 511 (Some (Rendered ?l)) = Some (int (length ?l), b)"
      "is_string b 0 (take 511 ?l)" "same_outside (replicate 512 0) b 0 512"
    using snprintf_s_bounded [of 0 512 "replicate 512 0" ?l 511 511] entry_line_no_zero by auto
  have len: "length b = 512" "take (length ?l) b = ?l"
    using b(2,3) l by (auto simp: same_outside_def is_string_def seg_def)
  have "format_entry localtime e = Some (int (length ?l), b)"
    using tb(1) time assms b(1) l
    by (simp add: format_entry_def array_string_def entry_strings_def entry_line_def)
  then show ?thesis using len by blast
qed

section \<open>A turn of the writing thread\<close>

text \<open>What neither worker changes in a turn: where the threads are, the flags and the socket.\<close>

definition same_threads :: "SilogDaemon \<Rightarrow> SilogDaemon \<Rightarrow> bool" where
  "same_threads d d' \<longleftrightarrow> da_running d' = da_running d \<and> da_recvThread d' = da_recvThread d \<and>
     da_writeThread d' = da_writeThread d \<and> da_remoteEnabled d' = da_remoteEnabled d \<and>
     da_recvEntry d' = da_recvEntry d \<and> mq_capacity (da_logQueue d') = mq_capacity (da_logQueue d) \<and> da_ipc d' = da_ipc d"

text \<open>What a turn sends for an entry, and who stays connected.\<close>

definition sent_to_viewers :: "daemon_env \<Rightarrow> logEntry_t \<Rightarrow> SilogDaemon \<Rightarrow> (int \<times> byte list) list" where
  "sent_to_viewers env e d = (if da_remoteEnabled d
     then map (\<lambda>fd. (fd, snd (SilogRemoteSendFull (dv_send env fd) (entry_bytes e)))) (viewers (da_remote d)) else [])"

lemma write_turn_line:
  assumes run: "da_running d" and q: "mq_ok (da_logQueue d)" "mq_elementSize (da_logQueue d) = 384"
      "mq_list (da_logQueue d) = entry_struct e # rest"
    and e: "entry_strings e" and rem: "remote_ok (da_remote d)"
    and fm: "sink_ok (da_files d, da_fs d)" "sink_serves (dv_fm env) (fm_config (da_files d))"
  shows "\<exists>d'. write_turn env d = Some (sent_to_viewers env e d, d') \<and> mq_ok (da_logQueue d') \<and> mq_elementSize (da_logQueue d') = 384 \<and>
    mq_list (da_logQueue d') = rest \<and> same_threads d d' \<and> remote_ok (da_remote d') \<and>
    viewers (da_remote d') = (if da_remoteEnabled d then filter (kept (dv_send env) (entry_bytes e)) (viewers (da_remote d))
      else viewers (da_remote d)) \<and>
    sink_ok (da_files d', da_fs d') \<and> fm_config (da_files d') = fm_config (da_files d) \<and>
    log_text (da_files d') (da_fs d') =
      (if log_full (length (entry_line (dv_localtime env) e)) (da_files d) then [] else log_text (da_files d) (da_fs d)) @
      entry_line (dv_localtime env) e"
proof -
  let ?q = "da_logQueue d" and ?l = "entry_line (dv_localtime env) e" and ?g = "da_files d"
  have sh: "entry_shape e" using e by (simp add: entry_strings_def)
  obtain q' where p: "SilogMpscQueuePop (Some ?q) (Some (replicate 384 0)) = Some (SILOG_OK, Some (entry_struct e), Some q')" "mq_ok q'"
      "same_shape ?q q'" "mq_list q' = rest"
    using ring_pop [OF q(1,3), of 384] q(2) by auto
  obtain buf where buf: "format_entry (dv_localtime env) e = Some (int (length ?l), buf)" "length buf = 512"
      "take (length ?l) buf = ?l"
    using format_entry_line [OF e] by blast
  have len: "length ?l \<le> 441" using e by (rule entry_line_length)
  define n where "n = (word_of_int (int (length ?l)) :: u32)"
  have n: "unat n = length ?l" using len by (simp add: n_def unat_of_nat)
  have "?l \<noteq> []" by (simp add: entry_line_def log_line_def)
  then have pos: "0 < unat n" "unat n \<le> 512" "unat n \<le> length buf" using n len buf(2) by simp_all
  obtain g' fs' where g': "SilogFileManagerWriteRaw (dv_fm env) (Some buf) n ?g (da_fs d) = Some (SILOG_OK, g', fs')"
      "sink_ok (g', fs')" "fm_config g' = fm_config ?g"
      "log_text g' fs' = (if log_full (unat n) ?g then [] else log_text ?g (da_fs d)) @ take (unat n) buf"
    using log_file.put_line [OF fm(1) _ pos, of "dv_fm env"] fm(2)
    by (auto simp: sink_put_def sink_full_def sink_text_def sink_config_def cong: if_cong)
  let ?d' = "d\<lparr>da_logQueue := q', da_files := g', da_fs := fs'\<rparr>"
  obtain r k rm where br: "SilogRemoteBroadcast (dv_send env) (Some e) None (da_remote d) = Some (r, k,
      map (\<lambda>fd. (fd, snd (SilogRemoteSendFull (dv_send env fd) (entry_bytes e)))) (viewers (da_remote d)), rm)"
      "remote_ok rm" "viewers rm = filter (kept (dv_send env) (entry_bytes e)) (viewers (da_remote d))"
    using broadcast_viewers [OF rem sh, of "dv_send env" None] by blast
  have "write_turn env d = Some (sent_to_viewers env e d, if da_remoteEnabled d then ?d'\<lparr>da_remote := rm\<rparr> else ?d')"
    using run p(1) buf(1) g'(1) br(1) struct_entry_struct [OF sh] by (simp add: write_turn_def n_def sent_to_viewers_def)
  then show ?thesis
    using rem br(2,3) p(2-4) q(2) g' n buf(3) by (auto simp: same_shape_def same_threads_def)
qed

section \<open>A turn of the receiving thread\<close>

definition daemon_ready :: "SilogDaemon \<Rightarrow> bool" where
  "daemon_ready d \<longleftrightarrow> da_running d \<and> mq_ok (da_logQueue d) \<and> mq_elementSize (da_logQueue d) = 384 \<and>
     length (da_recvEntry d) = 384 \<and> ia_isInit (da_ipc d) \<and> 0 \<le> ia_recvFd (da_ipc d)"

abbreviation (input) "daemon_queue d \<equiv> mq_list (da_logQueue d)"
abbreviation (input) "daemon_room d \<equiv> unat (mq_capacity (da_logQueue d))"

text \<open>A datagram that is too short leaves the rest of the previous entry in place.\<close>

lemma recv_turn_data:
  assumes "daemon_ready d" and "dv_recv env = DgramData x" and "x \<noteq> []" and "length x \<le> 384"
  shows "\<exists>d' q'. recv_turn env d = Some d' \<and> d' = d\<lparr>da_recvEntry := x @ drop (length x) (da_recvEntry d), da_logQueue := q'\<rparr> \<and>
    daemon_ready d' \<and> daemon_room d' = daemon_room d \<and>
    daemon_queue d' = (if length (daemon_queue d) < daemon_room d
      then daemon_queue d @ [x @ drop (length x) (da_recvEntry d)] else daemon_queue d)"
proof -
  let ?q = "da_logQueue d" and ?e = "x @ drop (length x) (da_recvEntry d)"
  have r: "mq_ok ?q" "mq_elementSize ?q = 384" "length (da_recvEntry d) = 384" using assms(1) by (simp_all add: daemon_ready_def)
  have rv: "SilogIpcServerRecv (dv_recv env) (da_recvEntry d) 384 (da_ipc d) = (int (length x), ?e)"
    using assms by (simp add: SilogIpcServerRecv_def SilogIpcDgramServerRecv_def daemon_ready_def overwrite_def)
  have l: "length ?e = unat (mq_elementSize ?q)" using r assms(4) by simp
  obtain k q' where p: "SilogMpscQueuePush (Some ?q) (Some ?e) = Some (k, Some q')" "mq_ok q'" "same_shape ?q q'"
      "mq_list q' = (if length (mq_list ?q) < unat (mq_capacity ?q) then mq_list ?q @ [?e] else mq_list ?q)"
    using ring_push [OF r(1) l] by blast
  let ?d = "d\<lparr>da_recvEntry := ?e, da_logQueue := q'\<rparr>"
  have "recv_turn env d = Some ?d" using assms(1,3) rv p(1) by (simp add: recv_turn_def daemon_ready_def)
  moreover have "daemon_ready ?d" using assms(1) l p r by (simp add: daemon_ready_def same_shape_def)
  ultimately show ?thesis using p by (auto simp: same_shape_def)
qed

section \<open>Starting\<close>

lemma RemoteInit_threads:
  assumes "SilogDaemonRemoteInit env c d = Some (r, d')"
  shows "da_running d' = da_running d \<and> da_recvThread d' = da_recvThread d \<and> da_writeThread d' = da_writeThread d"
  using assms
  by (auto simp: SilogDaemonRemoteInit_def Let_def split: if_splits prod.splits bind_splits)

lemma daemon_init_create_threads:
  assumes "daemon_init_create env d = Some (r, True, d')"
  shows "\<not> da_running d' \<and> da_recvThread d' = Created \<and> da_writeThread d' = Created"
proof -
  have nr: "\<not> da_running d" using assms by (auto simp: daemon_init_create_def)
  obtain r0 pl out where 0: "SilogPrelogInit (dv_fopen env)
      (Some \<lparr>pc_path = chars ''/tmp/silog_daemon.txt'', pc_minLevel = SILOG_PRELOG_LEVEL_DEBUG, pc_enableStdout = False\<rparr>)
      (da_prelog d) (da_out d) = (r0, pl, out)" by (rule prod_cases3)
  obtain r1 fm fs where 1: "SilogFileManagerInit (dv_fm env) None (da_files d) (da_fs d) = (r1, fm, fs)" by (rule prod_cases3)
  obtain r2 q where 2: "SilogMpscQueueInit (e_malloc (dv_fm env)) (e_malloc (dv_fm env)) (Some (da_logQueue d)) 384 4096 = (r2, q)"
    by fastforce
  obtain d5 c r5 where "SilogDaemonRemoteInit env c d5 = Some (r5, d')" "\<not> da_running d5"
      "da_recvThread d5 = Created" "da_writeThread d5 = Created"
    using assms nr 0 1 2
    by (auto simp: daemon_init_create_def Let_def SilogDaemonRecvThreadInit_def SilogDaemonWriteThreadInit_def
      split: if_splits bind_splits)
  then show ?thesis using RemoteInit_threads by metis
qed

lemma RecvThread_not_running:
  assumes "\<not> da_running d"
  shows "\<exists>d2 d3. SilogDaemonRecvThreadFunc env d = Some d2 \<and> SilogDaemonRecvThreadFunc env d2 = Some d3 \<and>
    \<not> da_running d3 \<and> da_writeThread d3 = da_writeThread d \<and> (da_recvThread d = Created \<longrightarrow> da_recvThread d3 = Returned)"
  using assms
  by (cases "da_recvThread d")
    (auto simp: SilogDaemonRecvThreadFunc_def recv_start_def recv_turn_def split: prod.splits)

section \<open>Example instances\<close>

definition ex_denv :: daemon_env where
  "ex_denv = \<lparr>dv_fm = ex_env [] (\<lambda>_. True), dv_fopen = (\<lambda>_. True), dv_ipc = good_env, dv_recv = DgramNone,
     dv_localtime = (\<lambda>_. None), dv_sock = 9, dv_bind = 0, dv_listen = 0, dv_fcntl = (\<lambda>_ _. 0), dv_accept = AcceptAgain,
     dv_send = (\<lambda>_ _ _. SendAgain), dv_create_recv = 0, dv_create_write = 0, dv_create_remote = 0, dv_join_compress = True\<rparr>"

definition ex_daemon :: SilogDaemon where
  "ex_daemon = \<lparr>da_logQueue = mq_ex, da_remoteEnabled = False, da_remoteThread = NoThread, da_remoteRunning = False,
     da_running = False, da_recvThread = NoThread, da_writeThread = NoThread, da_recvEntry = replicate 384 0,
     da_files = ex_blank, da_fs = Map.empty, da_remote = g_silogRemoteMgr, da_prelog = g_prelogMgr,
     da_out = \<lparr>po_files = Map.empty, po_stdout = []\<rparr>, da_ipc = g_silogIpcAgent\<rparr>"

lemma ex_remote_init:
  "\<exists>m. SilogRemoteInit (\<lambda>n. Some (replicate n 0)) 9 0 0 (\<lambda>_ _. 0)
     (Some \<lparr>cf_listenPort = 9090, cf_maxClients = 10, cf_enableAuth = False\<rparr>) g_silogRemoteMgr = (SILOG_OK, m)"
  by (simp add: SilogRemoteInit_def g_silogRemoteMgr_def Let_def SilogRemoteSetNonblock_def)

lemma ex_fm_init:
  "\<exists>g fs. SilogFileManagerInit (ex_env [] (\<lambda>_. True)) None ex_blank Map.empty = (SILOG_OK, g, fs)"
  by (simp add: Init_default SilogFileManagerInitWithConfig_def SilogFileManagerEnsureDir_def ex_env_def ex_blank_def
    Let_def fopen_append_def SilogMpscQueueInit_def)

lemma ex_queue_init:
  "\<exists>q. SilogMpscQueueInit (\<lambda>n. Some (replicate n 0)) (\<lambda>n. Some (replicate n 0)) (Some mq_ex) 384 4096 = (SILOG_OK, Some q)"
  by (simp add: SilogMpscQueueInit_def)

lemma ex_init_create: "\<exists>d. daemon_init_create ex_denv (ex_daemon\<lparr>da_prelog := pl, da_out := out\<rparr>) = Some (SILOG_OK, True, d)"
proof -
  obtain m where m: "SilogRemoteInit (\<lambda>n. Some (replicate n 0)) 9 0 0 (\<lambda>_ _. 0)
     (Some \<lparr>cf_listenPort = 9090, cf_maxClients = 10, cf_enableAuth = False\<rparr>) g_silogRemoteMgr = (SILOG_OK, m)"
    using ex_remote_init by blast
  obtain g fs where g: "SilogFileManagerInit (ex_env [] (\<lambda>_. True)) None ex_blank Map.empty = (SILOG_OK, g, fs)"
    using ex_fm_init by blast
  obtain q where q: "SilogMpscQueueInit (\<lambda>n. Some (replicate n 0)) (\<lambda>n. Some (replicate n 0)) (Some mq_ex) 384 4096 = (SILOG_OK, Some q)"
    using ex_queue_init by blast
  have em: "e_malloc (ex_env [] (\<lambda>_. True)) = (\<lambda>n. Some (replicate n 0))" by (simp add: ex_env_def)
  obtain r0 pl' out' where p: "SilogPrelogInit (\<lambda>_. True)
      (Some \<lparr>pc_path = chars ''/tmp/silog_daemon.txt'', pc_minLevel = SILOG_PRELOG_LEVEL_DEBUG, pc_enableStdout = False\<rparr>)
      pl out = (r0, pl', out')" by (rule prod_cases3)
  show ?thesis
    using m g q p
    by (simp add: daemon_init_create_def ex_denv_def ex_daemon_def Let_def em
      SilogDaemonRecvThreadInit_def SilogDaemonWriteThreadInit_def SilogDaemonRemoteInit_def)
qed

definition ex_entry :: logEntry_t where
  "ex_entry = \<lparr>le_ts = 5, le_pid = 42, le_tid = 43, le_level = SILOG_WARN, le_tag = chars ''net'' @ replicate 29 0,
     le_file = chars ''a.c'' @ replicate 61 0, le_line = 12, le_msg = chars ''up'' @ replicate 254 0, le_msgLen = 2, le_enabled = 1\<rparr>"

lemma ex_entry_strings: "entry_strings ex_entry"
  by (simp add: entry_strings_def entry_shape_def ex_entry_def chars_def)

section \<open>Properties\<close>

text \<open>
  C21. The line of an entry whose strings are terminated always fits: it has at most 441 characters,
  for every time, level, process and line number, so the 512-byte buffer never truncates it and the
  bytes handed to the file manager are exactly the line.
\<close>

theorem format_entry_exact:
  assumes "entry_strings e"
  shows "\<exists>len buf. format_entry localtime e = Some (len, buf) \<and> 0 < len \<and> len \<le> 441 \<and>
    take (nat len) buf = log_line (clock_text localtime (le_ts e)) (SilogUtilsLevelToName (le_level e))
      (le_pid e) (le_tid e) (cstr (le_tag e)) (cstr (le_file e)) (le_line e) (cstr (le_msg e))"
proof -
  obtain buf where "format_entry localtime e = Some (int (length (entry_line localtime e)), buf)"
      "take (length (entry_line localtime e)) buf = entry_line localtime e"
    using format_entry_line [OF assms] by blast
  moreover have "entry_line localtime e \<noteq> []" by (simp add: entry_line_def log_line_def)
  ultimately show ?thesis using entry_line_length [OF assms, of localtime] by (auto simp: entry_line_def)
qed

theorem format_entry_exact_witness:
  "\<exists>len buf. format_entry (\<lambda>_. None) ex_entry = Some (len, buf) \<and>
     take (nat len) buf = chars ''[][WARN][pid:42 tid:43][net][a.c:12] up'' @ [10]"
proof -
  have "log_line (clock_text (\<lambda>_. None) (le_ts ex_entry)) (SilogUtilsLevelToName (le_level ex_entry))
      (le_pid ex_entry) (le_tid ex_entry) (cstr (le_tag ex_entry)) (cstr (le_file ex_entry)) (le_line ex_entry) (cstr (le_msg ex_entry)) =
    chars ''[][WARN][pid:42 tid:43][net][a.c:12] up'' @ [10]"
    by code_simp
  then show ?thesis using format_entry_exact [OF ex_entry_strings, of "\<lambda>_. None"] by auto
qed

text \<open>
  C25. The start of the daemon has a race: \<open>g_daemonRunning\<close> is set after the threads have been
  created, and their loops end as soon as they see it unset. After a creation that is about to report
  success, the threads can run first; then both have returned when the start reports success, and
  the daemon says that it is running while no turn of either thread ever does anything again.
\<close>

theorem SilogDaemonInit_threads_may_exit:
  assumes "daemon_init_create env d = Some (SILOG_OK, True, d1)"
  shows "\<exists>d2 d3 d4. SilogDaemonRecvThreadFunc env d1 = Some d2 \<and> SilogDaemonRecvThreadFunc env d2 = Some d3 \<and>
    SilogDaemonWriteThreadFunc env d3 = Some ([], d4) \<and> da_running (daemon_init_commit d4) \<and>
    (\<forall>env'. SilogDaemonRecvThreadFunc env' (daemon_init_commit d4) = Some (daemon_init_commit d4) \<and>
            SilogDaemonWriteThreadFunc env' (daemon_init_commit d4) = Some ([], daemon_init_commit d4))"
proof -
  have c: "\<not> da_running d1" "da_recvThread d1 = Created" "da_writeThread d1 = Created"
    using daemon_init_create_threads [OF assms] by auto
  obtain d2 d3 where d3: "SilogDaemonRecvThreadFunc env d1 = Some d2" "SilogDaemonRecvThreadFunc env d2 = Some d3"
      "\<not> da_running d3" "da_writeThread d3 = Created" "da_recvThread d3 = Returned"
    using RecvThread_not_running [OF c(1), of env] c by auto
  let ?d4 = "d3\<lparr>da_writeThread := Returned\<rparr>"
  have "SilogDaemonWriteThreadFunc env d3 = Some ([], ?d4)"
    using d3(3,4) by (simp add: SilogDaemonWriteThreadFunc_def write_turn_def)
  then show ?thesis
    using d3 by (intro exI [of _ d2] exI [of _ d3] exI [of _ ?d4])
      (simp add: daemon_init_commit_def SilogDaemonRecvThreadFunc_def SilogDaemonWriteThreadFunc_def)
qed

theorem SilogDaemonInit_threads_may_exit_witness:
  "\<exists>d1 d4. daemon_init_create ex_denv ex_daemon = Some (SILOG_OK, True, d1) \<and> da_running (daemon_init_commit d4) \<and>
    (\<forall>env'. SilogDaemonRecvThreadFunc env' (daemon_init_commit d4) = Some (daemon_init_commit d4))"
proof -
  obtain d1 where d1: "daemon_init_create ex_denv ex_daemon = Some (SILOG_OK, True, d1)"
    using ex_init_create [of "da_out ex_daemon" "da_prelog ex_daemon"] by auto
  from SilogDaemonInit_threads_may_exit [OF this] d1 show ?thesis by blast
qed

text \<open>
  The receiving thread does not compare the size of a datagram with that of an entry: a shorter
  one is pushed as an entry whose rest is what the previous datagram left in the buffer.
\<close>

lemma SilogDaemonRecv_mixes_entries:
  assumes "daemon_ready d" and "length (daemon_queue d) < daemon_room d" and "x \<noteq> []" and "length x < 384"
    and "da_recvThread d = Looping"
  shows "\<exists>d'. SilogDaemonRecvThreadFunc (env\<lparr>dv_recv := DgramData x\<rparr>) d = Some d' \<and>
    daemon_queue d' = daemon_queue d @ [x @ drop (length x) (da_recvEntry d)]"
proof -
  have "\<exists>d' q'. recv_turn (env\<lparr>dv_recv := DgramData x\<rparr>) d = Some d' \<and>
      d' = d\<lparr>da_recvEntry := x @ drop (length x) (da_recvEntry d), da_logQueue := q'\<rparr> \<and>
      daemon_ready d' \<and> daemon_room d' = daemon_room d \<and>
      daemon_queue d' = (if length (daemon_queue d) < daemon_room d
        then daemon_queue d @ [x @ drop (length x) (da_recvEntry d)] else daemon_queue d)"
    using assms(1,3,4) by (intro recv_turn_data) simp_all
  then show ?thesis using assms(2,5) by (auto simp: SilogDaemonRecvThreadFunc_def)
qed

definition ex_listening :: "SiLogMpscQueue \<Rightarrow> SilogDaemon" where
  "ex_listening q = ex_daemon\<lparr>da_running := True, da_recvThread := Looping, da_logQueue := q,
     da_recvEntry := replicate 384 7, da_ipc := \<lparr>ia_isInit = True, ia_sendFd = -1, ia_recvFd = 4, ia_fds = {4},
       ia_file = OwnFile 4\<rparr>\<rparr>"

end
