(* ===== verification/Silog_Pipeline.thy ===== *)
theory Silog_Pipeline
  imports Silog_Daemon_Ok "HOL-Library.Sublist"
begin

text \<open>
  The whole path of a log call: the application's library (\<open>Silog_Logger\<close>), the socket, the daemon
  (\<open>Silog_Daemon\<close>) and the connections of its viewers composed into one system. Its steps are one log
  call by any thread of the application, a change of the minimum level, one turn of the library's
  sending thread, of each of the daemon's three threads and of the compression thread, in any order. A
  run is recorded with the state in which each action was taken, so that what was called, lost, written
  and closed can be read off it. The properties hold for every interleaving, however many calls there
  are, however often the log is rotated, and also when a ring is full.
\<close>

section \<open>The system\<close>

text \<open>The datagrams that wait in the socket, and what each viewer's connection has been given.\<close>

record system =
  sy_logger :: logger
  sy_wire :: "byte list list"
  sy_daemon :: SilogDaemon
  sy_streams :: "int \<Rightarrow> byte list"

text \<open>
  A log call carries its arguments, what the clock shows and the id of the thread that makes it; a turn
  of the writing thread the outcomes of the file system and what the sockets of the viewers accept; a
  turn of the accepting thread what \<open>accept\<close> and \<open>fcntl\<close> return; a turn of the compression thread what
  \<open>system\<close> does.
\<close>

datatype sys_action =
    ALog "(u64 \<times> u64) option" u64 u32 "byte list" "byte list" u32 "byte list"
  | ASetLevel u32
  | ASend
  | ARecv
  | AWrite fm_env "int \<Rightarrow> nat \<Rightarrow> nat \<Rightarrow> send_result"
  | AViewer accept_result "int \<Rightarrow> fcntl_cmd \<Rightarrow> int"
  | ACompress fm_env

text \<open>What is sent to a connection is appended to its stream; a new connection starts with nothing.\<close>

definition feed :: "(int \<times> byte list) list \<Rightarrow> (int \<Rightarrow> byte list) \<Rightarrow> int \<Rightarrow> byte list" where
  "feed wire st fd = st fd @ concat (map snd (filter (\<lambda>(fd', out). fd' = fd) wire))"

definition connect :: "accept_result \<Rightarrow> (int \<Rightarrow> byte list) \<Rightarrow> int \<Rightarrow> byte list" where
  "connect acc st = (case acc of Accepted fd ad \<Rightarrow> st(fd := []) | _ \<Rightarrow> st)"

definition receiving :: "SilogDaemon \<Rightarrow> bool" where
  "receiving d \<longleftrightarrow> da_recvThread d = Looping \<and> da_running d"

inductive sys_step :: "logger_env \<Rightarrow> daemon_env \<Rightarrow> sys_action \<Rightarrow> system \<Rightarrow> system \<Rightarrow> bool"
  for lenv :: logger_env and denv :: daemon_env where
  log: "silogLog (lenv\<lparr>lv_clock := clock, lv_tid := tid\<rparr>) level tag fname line fmt (sy_logger s) = Some lg \<Longrightarrow>
    sys_step lenv denv (ALog clock tid level tag fname line fmt) s (s\<lparr>sy_logger := lg\<rparr>)"
| level: "sys_step lenv denv (ASetLevel level) s (s\<lparr>sy_logger := silogSetLevel level (sy_logger s)\<rparr>)"
| send: "lg_sending (sy_logger s) \<Longrightarrow> silogEntrySendHandle lenv (sy_logger s) = Some (out, lg) \<Longrightarrow>
    sys_step lenv denv ASend s (s\<lparr>sy_logger := lg, sy_wire := sy_wire s @ out\<rparr>)"
| recv: "receiving (sy_daemon s) \<Longrightarrow> sy_wire s = x # w \<Longrightarrow>
    SilogDaemonRecvThreadFunc (denv\<lparr>dv_recv := DgramData x\<rparr>) (sy_daemon s) = Some d \<Longrightarrow>
    sys_step lenv denv ARecv s (s\<lparr>sy_wire := w, sy_daemon := d\<rparr>)"
| recv_none: "\<not> receiving (sy_daemon s) \<or> sy_wire s = [] \<Longrightarrow>
    SilogDaemonRecvThreadFunc (denv\<lparr>dv_recv := DgramNone\<rparr>) (sy_daemon s) = Some d \<Longrightarrow>
    sys_step lenv denv ARecv s (s\<lparr>sy_daemon := d\<rparr>)"
| writes: "SilogDaemonWriteThreadFunc (denv\<lparr>dv_fm := env, dv_send := socks\<rparr>) (sy_daemon s) = Some (wire, d) \<Longrightarrow>
    sys_step lenv denv (AWrite env socks) s (s\<lparr>sy_daemon := d, sy_streams := feed wire (sy_streams s)\<rparr>)"
| viewer: "accept_fresh acc (da_remote (sy_daemon s)) \<Longrightarrow>
    SilogDaemonRemoteThreadFunc (denv\<lparr>dv_accept := acc, dv_fcntl := fcntl\<rparr>) (sy_daemon s) = Some d \<Longrightarrow>
    sys_step lenv denv (AViewer acc fcntl) s (s\<lparr>sy_daemon := d, sy_streams := connect acc (sy_streams s)\<rparr>)"
| compress: "fm_compressThreadRunning (da_files (sy_daemon s)) \<Longrightarrow>
    compress_turn env (da_files (sy_daemon s)) (da_fs (sy_daemon s)) = Some (busy, fm, fs) \<Longrightarrow>
    sys_step lenv denv (ACompress env) s (s\<lparr>sy_daemon := (sy_daemon s)\<lparr>da_files := fm, da_fs := fs\<rparr>\<rparr>)"

inductive sys_run :: "logger_env \<Rightarrow> daemon_env \<Rightarrow> (sys_action \<times> system) list \<Rightarrow> system \<Rightarrow> system \<Rightarrow> bool"
  for lenv :: logger_env and denv :: daemon_env where
  stop: "sys_run lenv denv [] s s"
| step: "sys_step lenv denv a s s' \<Longrightarrow> sys_run lenv denv tr s' s'' \<Longrightarrow> sys_run lenv denv ((a, s) # tr) s s''"

inductive_cases sys_step_logE: "sys_step lenv denv (ALog clock tid level tag fname line fmt) s s'"
inductive_cases sys_step_levelE: "sys_step lenv denv (ASetLevel level) s s'"
inductive_cases sys_step_sendE: "sys_step lenv denv ASend s s'"
inductive_cases sys_step_recvE: "sys_step lenv denv ARecv s s'"
inductive_cases sys_step_writeE: "sys_step lenv denv (AWrite env socks) s s'"
inductive_cases sys_step_viewerE: "sys_step lenv denv (AViewer acc fcntl) s s'"
inductive_cases sys_step_compressE: "sys_step lenv denv (ACompress env) s s'"

section \<open>The specification\<close>

text \<open>The entries on their way to the file, oldest first, and their lines.\<close>

definition on_the_way :: "system \<Rightarrow> byte list list" where
  "on_the_way s = daemon_queue (sy_daemon s) @ sy_wire s @ log_queue (sy_logger s)"

definition line_of :: "daemon_env \<Rightarrow> byte list \<Rightarrow> byte list" where
  "line_of denv b = entry_line (dv_localtime denv) (struct_entry b)"

definition lines_of :: "daemon_env \<Rightarrow> byte list list \<Rightarrow> byte list" where
  "lines_of denv bs = concat (map (line_of denv) bs)"

definition written :: "system \<Rightarrow> byte list" where
  "written s = log_text (da_files (sy_daemon s)) (da_fs (sy_daemon s))"

text \<open>
  What an action in a state does: the entry a log call stands for, the line of that call, the entry a
  full ring drops, the entry that is written, and the log that is closed because it is full.
\<close>

fun called :: "logger_env \<Rightarrow> sys_action \<times> system \<Rightarrow> byte list list" where
  "called lenv (ALog clock tid level tag fname line fmt, s) =
     (case format_no_args fmt of
        None \<Rightarrow> []
      | Some t \<Rightarrow> if lm_minLevel (lg_mgr (sy_logger s)) \<le> level
                  then [entry_struct (built_entry (lenv\<lparr>lv_clock := clock, lv_tid := tid\<rparr>) level tag fname line t)] else [])"
| "called lenv _ = []"

fun logged :: "logger_env \<Rightarrow> daemon_env \<Rightarrow> sys_action \<times> system \<Rightarrow> byte list" where
  "logged lenv denv (ALog clock tid level tag fname line fmt, s) =
     (case format_no_args fmt of
        None \<Rightarrow> []
      | Some t \<Rightarrow> if lm_minLevel (lg_mgr (sy_logger s)) \<le> level
          then log_line (clock_text (dv_localtime denv) (SilogGetNowMs clock)) (SilogUtilsLevelToName level)
            (lv_pid lenv) (SilogUtilsGetTid tid) (take 31 tag) (take 63 fname) line (take 255 t)
          else [])"
| "logged lenv denv _ = []"

fun lost :: "logger_env \<Rightarrow> sys_action \<times> system \<Rightarrow> byte list list" where
  "lost lenv (ALog clock tid level tag fname line fmt, s) =
     (if length (log_queue (sy_logger s)) < 1024 then [] else called lenv (ALog clock tid level tag fname line fmt, s))"
| "lost lenv (ARecv, s) = (if length (daemon_queue (sy_daemon s)) < 4096 then [] else take 1 (sy_wire s))"
| "lost lenv _ = []"

fun stored :: "sys_action \<times> system \<Rightarrow> byte list list" where
  "stored (AWrite env v, s) = take 1 (daemon_queue (sy_daemon s))"
| "stored _ = []"

fun closed :: "daemon_env \<Rightarrow> sys_action \<times> system \<Rightarrow> byte list list" where
  "closed denv (AWrite env v, s) =
     (case daemon_queue (sy_daemon s) of
        [] \<Rightarrow> []
      | x # xs \<Rightarrow> if log_full (length (line_of denv x)) (da_files (sy_daemon s)) then [written s] else [])"
| "closed denv _ = []"

abbreviation (input) "over f tr \<equiv> concat (map f tr)"

text \<open>What the run relies on: the strings of a call are terminated, its format has no conversions, and its
  level is one of the enumeration; a rotation of the log succeeds.\<close>

fun action_ok :: "SilogLogFileConfig \<Rightarrow> sys_action \<Rightarrow> bool" where
  "action_ok cfg (ALog clock tid level tag fname line fmt) \<longleftrightarrow>
     0 \<notin> set tag \<and> 0 \<notin> set fname \<and> 0 \<notin> set fmt \<and> format_no_args fmt \<noteq> None \<and> level \<le> SILOG_FATAL"
| "action_ok cfg (AWrite env v) \<longleftrightarrow> sink_serves env cfg"
| "action_ok cfg (ACompress env) \<longleftrightarrow> env_ok env cfg"
| "action_ok cfg _ \<longleftrightarrow> True"

abbreviation (input) "file_config s \<equiv> fm_config (da_files (sy_daemon s))"

text \<open>A system that runs.\<close>

definition entry_bytes_ok :: "byte list \<Rightarrow> bool" where
  "entry_bytes_ok b \<longleftrightarrow> (\<exists>e. b = entry_struct e \<and> entry_ok e)"

definition logger_up :: "logger \<Rightarrow> bool" where
  "logger_up lg \<longleftrightarrow> logger_ok lg \<and> log_room lg = 1024 \<and> ia_isInit (lg_ipc lg) \<and> 0 \<le> ia_sendFd (lg_ipc lg) \<and> lg_sending lg"

definition daemon_up :: "SilogDaemon \<Rightarrow> bool" where
  "daemon_up d \<longleftrightarrow> daemon_ready d \<and> daemon_room d = 4096 \<and> da_recvThread d = Looping \<and> da_writeThread d = Looping \<and>
     remote_ok (da_remote d) \<and> sink_ok (da_files d, da_fs d)"

definition system_up :: "system \<Rightarrow> bool" where
  "system_up s \<longleftrightarrow> logger_up (sy_logger s) \<and> daemon_up (sy_daemon s) \<and> (\<forall>b \<in> set (on_the_way s). entry_bytes_ok b)"

section \<open>One turn of each part\<close>

lemma lines_of_simps [simp]:
  "lines_of denv [] = []" "lines_of denv (b # bs) = line_of denv b @ lines_of denv bs"
  "lines_of denv (xs @ ys) = lines_of denv xs @ lines_of denv ys"
  by (simp_all add: lines_of_def)

lemma entry_bytes_okD:
  assumes "entry_bytes_ok b"
  shows "length b = 384" and "b = entry_struct (struct_entry b)" and "entry_ok (struct_entry b)"
  using assms length_entry_struct struct_entry_struct by (auto simp: entry_bytes_ok_def entry_ok_def)

lemma called_entry:
  assumes "action_ok cfg a"
  shows "\<forall>b \<in> set (called lenv (a, s)). entry_bytes_ok b" and "lines_of denv (called lenv (a, s)) = logged lenv denv (a, s)"
proof -
  have "(\<forall>b \<in> set (called lenv (a, s)). entry_bytes_ok b) \<and> lines_of denv (called lenv (a, s)) = logged lenv denv (a, s)"
  proof (cases a)
    case (ALog c tid l tag fname line fmt)
    then obtain t where t: "format_no_args fmt = Some t" using assms by auto
    have z: "0 \<notin> set tag" "0 \<notin> set fname" "0 \<notin> set fmt" "l \<le> SILOG_FATAL" using assms ALog by auto
    note b = built_entry [OF z(1,2) format_no_zero [OF t z(3)]]
    show ?thesis
      using ALog t b(3) z(4) struct_entry_struct [OF b(2)] by (auto simp: entry_bytes_ok_def line_of_def entry_line_def b)
  qed simp_all
  then show "\<forall>b \<in> set (called lenv (a, s)). entry_bytes_ok b" "lines_of denv (called lenv (a, s)) = logged lenv denv (a, s)"
    by blast+
qed

lemma log_call:
  assumes up: "logger_up (sy_logger s)" and ok: "action_ok cfg (ALog c tid l tag fname line fmt)"
  shows "\<exists>lg. silogLog (lenv\<lparr>lv_clock := c, lv_tid := tid\<rparr>) l tag fname line fmt (sy_logger s) = Some lg \<and> logger_up lg \<and>
    log_queue lg = (if length (log_queue (sy_logger s)) < 1024
      then log_queue (sy_logger s) @ called lenv (ALog c tid l tag fname line fmt, s) else log_queue (sy_logger s))"
proof -
  obtain t where t: "format_no_args fmt = Some t" using ok by auto
  have z: "0 \<notin> set tag" "0 \<notin> set fname" "0 \<notin> set fmt" using ok by auto
  have lok: "logger_ok (sy_logger s)" using up by (simp add: logger_up_def)
  show ?thesis
  proof (cases "silogCheckLevel l (sy_logger s)")
    case True
    then show ?thesis
      using silogLog_push [OF lok True t z, of "lenv\<lparr>lv_clock := c, lv_tid := tid\<rparr>" line] up t
      by (auto simp: logger_up_def silogCheckLevel_def)
  next
    case False
    then have "silogLog (lenv\<lparr>lv_clock := c, lv_tid := tid\<rparr>) l tag fname line fmt (sy_logger s) = Some (sy_logger s)"
      using lok by (simp add: silogLog_def logger_ok_def)
    then show ?thesis using False up t by (simp add: silogCheckLevel_def)
  qed
qed

lemma send_turn:
  assumes up: "logger_up lg" and ok: "\<forall>b \<in> set (log_queue lg). entry_bytes_ok b" and s: "ie_send (lv_ipc lenv) = DgramSent"
  shows "\<exists>lg'. silogEntrySendHandle lenv lg = Some (take 1 (log_queue lg), lg') \<and> logger_up lg' \<and> log_queue lg' = drop 1 (log_queue lg)"
proof (cases "log_queue lg")
  case Nil
  have q: "mq_ok (lm_logQueue (lg_mgr lg))" using up by (simp add: logger_up_def logger_ok_def)
  then have "silogEntrySendHandle lenv lg = Some ([], lg)"
    using ring_pop_empty [OF q Nil] by (simp add: silogEntrySendHandle_def)
  then show ?thesis using Nil up by auto
next
  case (Cons x xs)
  have l: "length x = 384" using ok Cons entry_bytes_okD(1) by auto
  have u: "logger_ok lg" "ia_isInit (lg_ipc lg)" "0 \<le> ia_sendFd (lg_ipc lg)" using up by (simp_all add: logger_up_def)
  from SendHandle_turn [OF u(1) Cons l u(2,3) s] show ?thesis using Cons up by (auto simp: logger_up_def)
qed

lemma recv_entry:
  assumes up: "daemon_up d" and ok: "entry_bytes_ok x"
  shows "\<exists>d'. SilogDaemonRecvThreadFunc (denv\<lparr>dv_recv := DgramData x\<rparr>) d = Some d' \<and> daemon_up d' \<and>
    daemon_queue d' = (if length (daemon_queue d) < 4096 then daemon_queue d @ [x] else daemon_queue d) \<and>
    da_files d' = da_files d \<and> da_fs d' = da_fs d \<and> da_remote d' = da_remote d \<and> da_remoteEnabled d' = da_remoteEnabled d"
proof -
  have l: "length x = 384" using ok by (rule entry_bytes_okD)
  then have ne: "x \<noteq> []" by auto
  have r: "daemon_ready d" "length (da_recvEntry d) = 384" using up by (simp_all add: daemon_up_def daemon_ready_def)
  obtain d' q' where "recv_turn (denv\<lparr>dv_recv := DgramData x\<rparr>) d = Some d'"
      "d' = d\<lparr>da_recvEntry := x @ drop (length x) (da_recvEntry d), da_logQueue := q'\<rparr>" "daemon_ready d'"
      "daemon_room d' = daemon_room d"
      "daemon_queue d' = (if length (daemon_queue d) < daemon_room d then daemon_queue d @ [x] else daemon_queue d)"
    using recv_turn_data [OF r(1), of "denv\<lparr>dv_recv := DgramData x\<rparr>" x] l ne r(2) by auto
  then show ?thesis using up by (auto simp: daemon_up_def SilogDaemonRecvThreadFunc_def)
qed

lemma recv_nothing:
  assumes "daemon_up d"
  shows "SilogDaemonRecvThreadFunc (denv\<lparr>dv_recv := DgramNone\<rparr>) d = Some d"
  using assms
  by (simp add: SilogDaemonRecvThreadFunc_def daemon_up_def daemon_ready_def recv_turn_def SilogIpcServerRecv_def
    SilogIpcDgramServerRecv_def)

lemma write_nothing:
  assumes "daemon_up d" and "daemon_queue d = []"
  shows "SilogDaemonWriteThreadFunc env d = Some ([], d)"
proof -
  have q: "mq_ok (da_logQueue d)" "da_running d" "da_writeThread d = Looping" using assms(1) by (simp_all add: daemon_up_def daemon_ready_def)
  then show ?thesis using ring_pop_empty [OF q(1) assms(2)] by (simp add: SilogDaemonWriteThreadFunc_def write_turn_def)
qed

lemma write_entry:
  assumes up: "daemon_up d" and q: "daemon_queue d = x # xs" and x: "entry_bytes_ok x"
    and env: "sink_serves (dv_fm env) (fm_config (da_files d))"
  shows "\<exists>d'. SilogDaemonWriteThreadFunc env d = Some (sent_to_viewers env (struct_entry x) d, d') \<and> daemon_up d' \<and>
    daemon_queue d' = xs \<and> fm_config (da_files d') = fm_config (da_files d) \<and> da_remoteEnabled d' = da_remoteEnabled d \<and>
    viewers (da_remote d') = (if da_remoteEnabled d
      then filter (kept (dv_send env) (entry_bytes (struct_entry x))) (viewers (da_remote d)) else viewers (da_remote d)) \<and>
    log_text (da_files d') (da_fs d') =
      (if log_full (length (line_of env x)) (da_files d) then [] else log_text (da_files d) (da_fs d)) @ line_of env x"
proof -
  have e: "daemon_queue d = entry_struct (struct_entry x) # xs" using q entry_bytes_okD(2) [OF x] by simp
  have s: "entry_strings (struct_entry x)" using entry_bytes_okD(3) [OF x] by (rule entry_ok_strings)
  have u: "da_running d" "mq_ok (da_logQueue d)" "mq_elementSize (da_logQueue d) = 384" "remote_ok (da_remote d)"
      "sink_ok (da_files d, da_fs d)" "da_writeThread d = Looping"
    using up by (simp_all add: daemon_up_def daemon_ready_def)
  from write_turn_line [OF u(1-3) e s u(4,5) env] obtain d' where d': "write_turn env d = Some (sent_to_viewers env (struct_entry x) d, d')"
      "mq_ok (da_logQueue d')" "mq_elementSize (da_logQueue d') = 384"
      "daemon_queue d' = xs" "same_threads d d'" "remote_ok (da_remote d')"
      "viewers (da_remote d') = (if da_remoteEnabled d
        then filter (kept (dv_send env) (entry_bytes (struct_entry x))) (viewers (da_remote d)) else viewers (da_remote d))"
      "sink_ok (da_files d', da_fs d')" "fm_config (da_files d') = fm_config (da_files d)"
      "log_text (da_files d') (da_fs d') =
        (if log_full (length (entry_line (dv_localtime env) (struct_entry x))) (da_files d) then [] else log_text (da_files d) (da_fs d)) @
        entry_line (dv_localtime env) (struct_entry x)"
    by blast
  then show ?thesis
    using up u(6) by (intro exI [of _ d']) (simp add: daemon_up_def daemon_ready_def same_threads_def SilogDaemonWriteThreadFunc_def line_of_def)
qed

lemma viewer_turn:
  assumes up: "daemon_up d" and fresh: "accept_fresh acc (da_remote d)"
  shows "\<exists>d'. SilogDaemonRemoteThreadFunc (denv\<lparr>dv_accept := acc, dv_fcntl := fcntl\<rparr>) d = Some d' \<and> daemon_up d' \<and>
    daemon_queue d' = daemon_queue d \<and> da_files d' = da_files d \<and> da_fs d' = da_fs d \<and>
    da_remoteEnabled d' = da_remoteEnabled d \<and> set (viewers (da_remote d)) \<subseteq> set (viewers (da_remote d'))"
proof -
  have ok: "remote_ok (da_remote d)" using up by (simp add: daemon_up_def)
  obtain r m where "SilogRemoteAccept acc fcntl (da_remote d) = Some (r, m)" "remote_ok m" "set (viewers (da_remote d)) \<subseteq> set (viewers m)"
    using accept_viewers [OF ok fresh, of fcntl] by blast
  then show ?thesis
    using up by (cases "da_remoteThread d") (simp_all add: SilogDaemonRemoteThreadFunc_def daemon_up_def daemon_ready_def)
qed

section \<open>The account of a step\<close>

text \<open>What is left of a list when some of its elements are dropped.\<close>

definition remains :: "'a list \<Rightarrow> 'a list \<Rightarrow> 'a list \<Rightarrow> bool" where
  "remains xs dropped ys \<longleftrightarrow> subseq ys xs \<and> mset xs = mset ys + mset dropped"

lemma remains_refl [simp]: "remains xs [] xs"
  by (simp add: remains_def)

lemma remains_none: "remains xs [] ys \<longleftrightarrow> ys = xs"
  unfolding remains_def by (metis add_0_right mset.simps(1) mset_eq_length subseq_order.order_refl subseq_same_length)

lemma remains_set: "remains xs dropped ys \<Longrightarrow> set ys \<subseteq> set xs"
  unfolding remains_def by (metis set_mset_mset set_mset_union sup_ge1)

lemma remains_append: "remains xs ds ys \<Longrightarrow> remains (as @ xs @ bs) ds (as @ ys @ bs)"
  by (auto simp: remains_def intro!: list_emb_append_mono)

lemma remains_trans: "remains xs ds ys \<Longrightarrow> remains ys es zs \<Longrightarrow> remains xs (ds @ es) zs"
  by (auto simp: remains_def)

lemma remains_drop1: "remains (as @ bs) (take 1 bs) (as @ drop 1 bs)"
  by (cases bs) (auto simp: remains_def intro!: list_emb_append_mono)

lemma remains_drop_end: "remains (as @ bs) bs as"
  by (auto simp: remains_def)

text \<open>A viewer that is connected, and one whose socket takes every frame.\<close>

definition following :: "int \<Rightarrow> system \<Rightarrow> bool" where
  "following fd s \<longleftrightarrow> da_remoteEnabled (sy_daemon s) \<and> fd \<in> set (viewers (da_remote (sy_daemon s)))"

fun attentive :: "int \<Rightarrow> sys_action \<Rightarrow> bool" where
  "attentive fd (AWrite env socks) \<longleftrightarrow> (\<forall>buf. fst (SilogRemoteSendFull (socks fd) buf) = SILOG_OK)"
| "attentive fd _ \<longleftrightarrow> True"

definition frames_of :: "byte list list \<Rightarrow> byte list" where
  "frames_of bs = concat (map (\<lambda>b. entry_bytes (struct_entry b)) bs)"

definition accounted :: "logger_env \<Rightarrow> daemon_env \<Rightarrow> sys_action \<Rightarrow> system \<Rightarrow> system \<Rightarrow> bool" where
  "accounted lenv denv a s s' \<longleftrightarrow> system_up s' \<and> file_config s' = file_config s \<and>
     remains (on_the_way s @ called lenv (a, s)) (lost lenv (a, s)) (stored (a, s) @ on_the_way s') \<and>
     concat (closed denv (a, s)) @ written s' = written s @ lines_of denv (stored (a, s)) \<and>
     (\<forall>fd. following fd s \<and> attentive fd a \<longrightarrow> following fd s' \<and> sy_streams s' fd = sy_streams s fd @ frames_of (stored (a, s)))"

lemmas system_defs = system_up_def on_the_way_def written_def following_def

lemma log_step:
  assumes "system_up s" and "action_ok cfg (ALog c tid l tag fname line fmt)"
  shows "\<exists>s'. sys_step lenv denv (ALog c tid l tag fname line fmt) s s' \<and> accounted lenv denv (ALog c tid l tag fname line fmt) s s'"
proof -
  let ?a = "ALog c tid l tag fname line fmt"
  have up: "logger_up (sy_logger s)" using assms(1) by (simp add: system_up_def)
  obtain lg where lg: "silogLog (lenv\<lparr>lv_clock := c, lv_tid := tid\<rparr>) l tag fname line fmt (sy_logger s) = Some lg" "logger_up lg"
      "log_queue lg = (if length (log_queue (sy_logger s)) < 1024
        then log_queue (sy_logger s) @ called lenv (?a, s) else log_queue (sy_logger s))"
    using log_call [OF up assms(2), of lenv] by blast
  let ?s = "s\<lparr>sy_logger := lg\<rparr>"
  have w: "on_the_way ?s = on_the_way s @ (if length (log_queue (sy_logger s)) < 1024 then called lenv (?a, s) else [])"
    using lg(3) by (auto simp: on_the_way_def simp del: called.simps)
  have "remains (on_the_way s @ called lenv (?a, s)) (lost lenv (?a, s)) (stored (?a, s) @ on_the_way ?s)"
    using w by (simp add: remains_drop_end del: called.simps)
  moreover have "system_up ?s"
    using assms(1) lg(2) called_entry(1) [OF assms(2), of lenv s] w by (auto simp: system_up_def simp del: called.simps)
  ultimately have "accounted lenv denv ?a s ?s"
    by (simp add: accounted_def written_def following_def frames_of_def del: called.simps lost.simps)
  then show ?thesis using sys_step.log [OF lg(1)] by blast
qed

lemma level_step:
  assumes "system_up s"
  shows "\<exists>s'. sys_step lenv denv (ASetLevel l) s s' \<and> accounted lenv denv (ASetLevel l) s s'"
  using assms sys_step.level [of lenv denv l s]
  by (intro exI [of _ "s\<lparr>sy_logger := silogSetLevel l (sy_logger s)\<rparr>"])
    (simp add: accounted_def system_defs silogSetLevel_def logger_up_def logger_ok_def frames_of_def)

lemma send_step:
  assumes up: "system_up s" and s: "ie_send (lv_ipc lenv) = DgramSent"
  shows "\<exists>s'. sys_step lenv denv ASend s s' \<and> accounted lenv denv ASend s s' \<and> sy_daemon s' = sy_daemon s \<and>
    log_queue (sy_logger s') = drop 1 (log_queue (sy_logger s)) \<and> on_the_way s' = on_the_way s"
proof -
  let ?q = "log_queue (sy_logger s)"
  have u: "logger_up (sy_logger s)" "\<forall>b \<in> set ?q. entry_bytes_ok b" "lg_sending (sy_logger s)"
    using up by (auto simp: system_up_def on_the_way_def logger_up_def)
  obtain lg' where lg': "silogEntrySendHandle lenv (sy_logger s) = Some (take 1 ?q, lg')" "logger_up lg'" "log_queue lg' = drop 1 ?q"
    using send_turn [OF u(1,2) s] by blast
  let ?s = "s\<lparr>sy_logger := lg', sy_wire := sy_wire s @ take 1 ?q\<rparr>"
  have w: "on_the_way ?s = on_the_way s" unfolding on_the_way_def using lg'(3) by (simp add: append_take_drop_id)
  then have "accounted lenv denv ASend s ?s"
    using up lg'(2) by (simp add: accounted_def system_up_def written_def following_def frames_of_def)
  then show ?thesis using sys_step.send [OF u(3) lg'(1), of denv] lg'(3) w by (intro exI [of _ ?s]) simp
qed

lemma recv_step:
  assumes up: "system_up s"
  shows "\<exists>s'. sys_step lenv denv ARecv s s' \<and> accounted lenv denv ARecv s s' \<and> sy_wire s' = drop 1 (sy_wire s) \<and>
    sy_logger s' = sy_logger s \<and> (length (daemon_queue (sy_daemon s)) < 4096 \<longrightarrow>
      daemon_queue (sy_daemon s') = daemon_queue (sy_daemon s) @ take 1 (sy_wire s))"
proof -
  let ?d = "sy_daemon s"
  have d: "daemon_up ?d" using up by (simp add: system_up_def)
  then have rc: "receiving ?d" by (simp add: daemon_up_def daemon_ready_def receiving_def)
  show ?thesis
  proof (cases "sy_wire s")
    case Nil
    have "accounted lenv denv ARecv s s" using up Nil by (simp add: accounted_def frames_of_def)
    then show ?thesis using sys_step.recv_none [OF disjI2 [OF Nil] recv_nothing [OF d], of lenv] Nil by (intro exI [of _ s]) simp
  next
    case (Cons x w)
    have x: "entry_bytes_ok x" using up Cons by (simp add: system_up_def on_the_way_def)
    obtain d' where d': "SilogDaemonRecvThreadFunc (denv\<lparr>dv_recv := DgramData x\<rparr>) ?d = Some d'" "daemon_up d'"
        "daemon_queue d' = (if length (daemon_queue ?d) < 4096 then daemon_queue ?d @ [x] else daemon_queue ?d)"
        "da_files d' = da_files ?d" "da_fs d' = da_fs ?d" "da_remote d' = da_remote ?d" "da_remoteEnabled d' = da_remoteEnabled ?d"
      using recv_entry [OF d x] by blast
    let ?s = "s\<lparr>sy_wire := w, sy_daemon := d'\<rparr>"
    have w: "remains (on_the_way s) (lost lenv (ARecv, s)) (on_the_way ?s)"
      using remains_append [OF remains_drop1 [of "[]" "[x]"], of "daemon_queue ?d" "w @ log_queue (sy_logger s)"] Cons d'(3)
      by (simp add: on_the_way_def)
    moreover have "\<forall>b \<in> set (on_the_way ?s). entry_bytes_ok b" using up Cons d'(3) by (auto simp: system_up_def on_the_way_def)
    ultimately have "accounted lenv denv ARecv s ?s"
      using up d' by (simp add: accounted_def system_up_def written_def following_def frames_of_def del: lost.simps)
    then show ?thesis using sys_step.recv [OF rc Cons d'(1), of lenv] Cons d'(3) by (intro exI [of _ ?s]) simp
  qed
qed

text \<open>A turn that broadcasts one entry, as a connection sees it.\<close>

lemma filter_fd:
  assumes "distinct vs"
  shows "filter (\<lambda>(fd', out). fd' = fd) (map (\<lambda>f. (f, g f)) vs) = (if fd \<in> set vs then [(fd, g fd)] else [])"
  using assms by (induction vs) auto

lemma viewers_distinct: "remote_ok m \<Longrightarrow> distinct (viewers m)"
  by (cases "rm_isInit m") (force elim: remote_okE simp: viewers_def table_ok_def)+

lemma feed_attentive:
  assumes ok: "remote_ok (da_remote d)" and fd: "fd \<in> set (viewers (da_remote d))" "da_remoteEnabled d"
    and at: "\<forall>buf. fst (SilogRemoteSendFull (dv_send env fd) buf) = SILOG_OK"
  shows "feed (sent_to_viewers env e d) st fd = st fd @ entry_bytes e" and "kept (dv_send env) (entry_bytes e) fd"
proof -
  obtain r out where ro: "SilogRemoteSendFull (dv_send env fd) (entry_bytes e) = (r, out)" by fastforce
  then have r: "r = SILOG_OK" using at by (metis fst_conv)
  then have "out = entry_bytes e" using SendFull_prefix(2) [OF ro] by simp
  then show "feed (sent_to_viewers env e d) st fd = st fd @ entry_bytes e"
    using fd ro filter_fd [OF viewers_distinct [OF ok], of fd "\<lambda>fd. snd (SilogRemoteSendFull (dv_send env fd) (entry_bytes e))"]
    by (simp add: feed_def sent_to_viewers_def)
  show "kept (dv_send env) (entry_bytes e) fd" using ro r by (simp add: kept_def)
qed

lemma write_step:
  assumes up: "system_up s" and env: "sink_serves env (file_config s)"
  shows "\<exists>s'. sys_step lenv denv (AWrite env socks) s s' \<and> accounted lenv denv (AWrite env socks) s s' \<and>
    daemon_queue (sy_daemon s') = drop 1 (daemon_queue (sy_daemon s)) \<and> sy_wire s' = sy_wire s \<and> sy_logger s' = sy_logger s"
proof -
  let ?d = "sy_daemon s" and ?env = "denv\<lparr>dv_fm := env, dv_send := socks\<rparr>"
  have d: "daemon_up ?d" "remote_ok (da_remote ?d)" using up by (simp_all add: system_up_def daemon_up_def)
  show ?thesis
  proof (cases "daemon_queue ?d")
    case Nil
    have "feed [] (sy_streams s) = sy_streams s" by (simp add: feed_def fun_eq_iff)
    then have "sys_step lenv denv (AWrite env socks) s s"
      using sys_step.writes [OF write_nothing [OF d(1) Nil], of lenv denv env socks] by simp
    moreover have "accounted lenv denv (AWrite env socks) s s" using up Nil by (simp add: accounted_def frames_of_def)
    ultimately show ?thesis using Nil by auto
  next
    case (Cons x xs)
    have x: "entry_bytes_ok x" using up Cons by (simp add: system_up_def on_the_way_def)
    have l: "line_of ?env x = line_of denv x" by (simp add: line_of_def)
    obtain d' where d': "SilogDaemonWriteThreadFunc ?env ?d = Some (sent_to_viewers ?env (struct_entry x) ?d, d')" "daemon_up d'"
        "daemon_queue d' = xs" "fm_config (da_files d') = fm_config (da_files ?d)" "da_remoteEnabled d' = da_remoteEnabled ?d"
        "viewers (da_remote d') = (if da_remoteEnabled ?d
          then filter (kept socks (entry_bytes (struct_entry x))) (viewers (da_remote ?d)) else viewers (da_remote ?d))"
        "log_text (da_files d') (da_fs d') =
          (if log_full (length (line_of denv x)) (da_files ?d) then [] else log_text (da_files ?d) (da_fs ?d)) @ line_of denv x"
      using write_entry [OF d(1) Cons x, of ?env] env unfolding l by auto
    let ?s = "s\<lparr>sy_daemon := d', sy_streams := feed (sent_to_viewers ?env (struct_entry x) ?d) (sy_streams s)\<rparr>"
    have "following fd ?s \<and> sy_streams ?s fd = sy_streams s fd @ frames_of [x]"
      if "following fd s" "attentive fd (AWrite env socks)" for fd
      using that feed_attentive [OF d(2), where env = ?env and e = "struct_entry x"] d'(5,6)
      by (simp add: following_def frames_of_def)
    moreover have "system_up ?s" using up Cons d'(2,3) by (simp add: system_up_def on_the_way_def)
    moreover have "concat (closed denv (AWrite env socks, s)) @ written ?s = written s @ line_of denv x"
      using Cons d'(7) by (simp add: written_def)
    ultimately have "accounted lenv denv (AWrite env socks) s ?s"
      using Cons d'(3,4) by (simp add: accounted_def on_the_way_def del: closed.simps attentive.simps)
    then show ?thesis using sys_step.writes [OF d'(1), of lenv] d'(3) Cons by (intro exI [of _ ?s]) simp
  qed
qed

lemma viewer_step:
  assumes up: "system_up s" and f: "accept_fresh acc (da_remote (sy_daemon s))"
  shows "\<exists>s'. sys_step lenv denv (AViewer acc fcntl) s s' \<and> accounted lenv denv (AViewer acc fcntl) s s'"
proof -
  have d: "daemon_up (sy_daemon s)" "remote_ok (da_remote (sy_daemon s))" using up by (simp_all add: system_up_def daemon_up_def)
  obtain d' where d': "SilogDaemonRemoteThreadFunc (denv\<lparr>dv_accept := acc, dv_fcntl := fcntl\<rparr>) (sy_daemon s) = Some d'" "daemon_up d'"
      "daemon_queue d' = daemon_queue (sy_daemon s)" "da_files d' = da_files (sy_daemon s)" "da_fs d' = da_fs (sy_daemon s)"
      "da_remoteEnabled d' = da_remoteEnabled (sy_daemon s)" "set (viewers (da_remote (sy_daemon s))) \<subseteq> set (viewers (da_remote d'))"
    using viewer_turn [OF d(1) f] by blast
  have c: "connect acc st fd = st fd" if "following fd s" for st fd
    using that f viewers_owned [OF d(2)] by (auto simp: connect_def following_def accept_fresh_def split: accept_result.splits)
  have "accounted lenv denv (AViewer acc fcntl) s (s\<lparr>sy_daemon := d', sy_streams := connect acc (sy_streams s)\<rparr>)"
    using up d' c by (auto simp: accounted_def system_defs frames_of_def)
  then show ?thesis using sys_step.viewer [OF f d'(1)] by blast
qed

lemma compress_step:
  assumes up: "system_up s" and env: "env_ok env (file_config s)" and st: "sys_step lenv denv (ACompress env) s s'"
  shows "accounted lenv denv (ACompress env) s s'"
proof -
  let ?g = "da_files (sy_daemon s)"
  obtain busy g fs where g: "compress_turn env ?g (da_fs (sy_daemon s)) = Some (busy, g, fs)"
      "s' = s\<lparr>sy_daemon := (sy_daemon s)\<lparr>da_files := g, da_fs := fs\<rparr>\<rparr>"
    using st by (auto elim: sys_step_compressE)
  have "fm_inv ?g (da_fs (sy_daemon s))" "fm_initialized ?g" using up by (simp_all add: system_up_def daemon_up_def sink_ok_def)
  from compress_turn_keeps [OF this env g(1)] up g(2) show ?thesis
    by (auto simp: accounted_def system_defs daemon_up_def daemon_ready_def sink_ok_def frames_of_def)
qed

lemma sys_step_det: "sys_step lenv denv a s s1 \<Longrightarrow> sys_step lenv denv a s s2 \<Longrightarrow> s1 = s2"
  by (induction rule: sys_step.induct)
    (auto elim: sys_step_logE sys_step_levelE sys_step_sendE sys_step_recvE sys_step_writeE sys_step_viewerE sys_step_compressE)

text \<open>Every step of a running system is accounted for.\<close>

lemma step_accounted:
  assumes up: "system_up s" and snd: "ie_send (lv_ipc lenv) = DgramSent" and ok: "action_ok (file_config s) a"
    and step: "sys_step lenv denv a s s'"
  shows "accounted lenv denv a s s'"
proof (cases "\<exists>env. a = ACompress env")
  case True
  then show ?thesis using compress_step up ok step by auto
next
  case False
  have "\<exists>s''. sys_step lenv denv a s s'' \<and> accounted lenv denv a s s''"
  proof (cases a)
    case (ALog c tid l tag fname line fmt)
    then show ?thesis using log_step [OF up, of "file_config s" c tid l tag fname line fmt lenv] ok by simp
  next
    case (AViewer acc fcntl)
    then have "accept_fresh acc (da_remote (sy_daemon s))" using step by (auto elim: sys_step_viewerE)
    then show ?thesis using viewer_step [OF up] AViewer by blast
  next
    case (ASetLevel l)
    then show ?thesis using level_step [OF up] by blast
  next
    case ASend
    then show ?thesis using send_step [OF up snd] by blast
  next
    case ARecv
    then show ?thesis using recv_step [OF up] by blast
  next
    case (AWrite env socks)
    then have "sink_serves env (file_config s)" using ok by simp
    then show ?thesis using write_step [OF up] AWrite by blast
  qed (use False in auto)
  then show ?thesis using sys_step_det step by blast
qed

section \<open>Runs\<close>

lemma run_accounted:
  assumes "sys_run lenv denv tr s s'" and "system_up s" and "ie_send (lv_ipc lenv) = DgramSent"
    and "\<forall>(a, s1) \<in> set tr. action_ok (file_config s) a"
  shows "system_up s' \<and> file_config s' = file_config s \<and>
    remains (on_the_way s @ over (called lenv) tr) (over (lost lenv) tr) (over stored tr @ on_the_way s') \<and>
    concat (over (closed denv) tr) @ written s' = written s @ lines_of denv (over stored tr)"
  using assms
proof (induction rule: sys_run.induct)
  case (stop s)
  then show ?case by simp
next
  case (step a s s' tr s'')
  have c: "accounted lenv denv a s s'" using step.prems step.hyps(1) by (intro step_accounted) auto
  then have 1: "system_up s'" "file_config s' = file_config s"
      "remains (on_the_way s @ called lenv (a, s)) (lost lenv (a, s)) (stored (a, s) @ on_the_way s')"
      "concat (closed denv (a, s)) @ written s' = written s @ lines_of denv (stored (a, s))"
    by (simp_all add: accounted_def)
  then have 2: "system_up s'' \<and> file_config s'' = file_config s' \<and>
      remains (on_the_way s' @ over (called lenv) tr) (over (lost lenv) tr) (over stored tr @ on_the_way s'') \<and>
      concat (over (closed denv) tr) @ written s'' = written s' @ lines_of denv (over stored tr)"
    using step.prems by (intro step.IH) auto
  have "remains (on_the_way s @ called lenv (a, s) @ over (called lenv) tr) (lost lenv (a, s) @ over (lost lenv) tr)
      (stored (a, s) @ over stored tr @ on_the_way s'')"
    using remains_append [OF 1(3), of "[]" "over (called lenv) tr"] 2 remains_append [of _ _ _ "stored (a, s)" "[]"]
    by (auto intro: remains_trans)
  moreover have "concat (closed denv (a, s)) @ concat (over (closed denv) tr) @ written s'' =
      written s @ lines_of denv (stored (a, s)) @ lines_of denv (over stored tr)"
    using 1(4) 2 by (metis append.assoc)
  ultimately show ?case using 1(2) 2 by simp
qed

lemmas run_up = run_accounted [THEN conjunct1]
  and run_config = run_accounted [THEN conjunct2, THEN conjunct1]
  and run_remains = run_accounted [THEN conjunct2, THEN conjunct2, THEN conjunct1]
  and run_written = run_accounted [THEN conjunct2, THEN conjunct2, THEN conjunct2]

lemma run_follows:
  assumes "sys_run lenv denv tr s s'" and "system_up s" and "ie_send (lv_ipc lenv) = DgramSent"
    and "\<forall>(a, s1) \<in> set tr. action_ok (file_config s) a \<and> attentive fd a" and "following fd s"
  shows "following fd s' \<and> sy_streams s' fd = sy_streams s fd @ frames_of (over stored tr)"
  using assms
proof (induction rule: sys_run.induct)
  case (stop s)
  then show ?case by (simp add: frames_of_def)
next
  case (step a s s' tr s'')
  have "accounted lenv denv a s s'" using step.prems step.hyps(1) by (intro step_accounted) auto
  then have 1: "system_up s'" "file_config s' = file_config s" "following fd s'"
      "sy_streams s' fd = sy_streams s fd @ frames_of (stored (a, s))"
    using step.prems by (simp_all add: accounted_def)
  then have "following fd s'' \<and> sy_streams s'' fd = sy_streams s' fd @ frames_of (over stored tr)"
    using step.prems by (intro step.IH) auto
  then show ?case using 1(4) by (simp add: frames_of_def)
qed

lemma run_append: "sys_run lenv denv tr s s' \<Longrightarrow> sys_run lenv denv tr' s' s'' \<Longrightarrow> sys_run lenv denv (tr @ tr') s s''"
  by (induction rule: sys_run.induct) (auto intro: sys_run.step)

lemma run_one: "sys_step lenv denv a s s' \<Longrightarrow> sys_run lenv denv [(a, s)] s s'"
  by (rule sys_run.step [OF _ sys_run.stop])

text \<open>Repeating a few actions that take one element from a queue and lose nothing.\<close>

lemma run_repeat:
  assumes step: "\<And>s. I s \<Longrightarrow> \<exists>tr s'. map fst tr = as \<and> sys_run lenv denv tr s s' \<and> I s' \<and> over (lost lenv) tr = [] \<and> f s' = drop 1 (f s)"
    and "I s"
  shows "\<exists>tr s'. map fst tr = concat (replicate n as) \<and> sys_run lenv denv tr s s' \<and> I s' \<and> over (lost lenv) tr = [] \<and> f s' = drop n (f s)"
  using assms(2)
proof (induction n arbitrary: s)
  case 0
  then show ?case by (intro exI [of _ "[]"] exI [of _ s]) (simp add: sys_run.stop)
next
  case (Suc n)
  obtain tr1 s1 where 1: "map fst tr1 = as" "sys_run lenv denv tr1 s s1" "I s1" "over (lost lenv) tr1 = []" "f s1 = drop 1 (f s)"
    using step [OF Suc.prems] by blast
  obtain tr s' where "map fst tr = concat (replicate n as)" "sys_run lenv denv tr s1 s'" "I s'" "over (lost lenv) tr = []"
      "f s' = drop n (f s1)"
    using Suc.IH [OF 1(3)] by blast
  then show ?case using 1 run_append [OF 1(2)] by (intro exI [of _ "tr1 @ tr"] exI [of _ s']) simp
qed

text \<open>A running system with at most \<open>n\<close> entries on their way.\<close>

definition busy_up :: "SilogLogFileConfig \<Rightarrow> nat \<Rightarrow> system \<Rightarrow> bool" where
  "busy_up cfg n s \<longleftrightarrow> system_up s \<and> file_config s = cfg \<and> length (on_the_way s) \<le> n"

lemma drain_library:
  assumes snd: "ie_send (lv_ipc lenv) = DgramSent" and "busy_up cfg n s"
  shows "\<exists>tr s'. map fst tr = concat (replicate n [ASend]) \<and> sys_run lenv denv tr s s' \<and> busy_up cfg n s' \<and> over (lost lenv) tr = [] \<and>
    log_queue (sy_logger s') = drop n (log_queue (sy_logger s))"
proof (rule run_repeat [where I = "busy_up cfg n" and f = "\<lambda>s. log_queue (sy_logger s)", OF _ assms(2)])
  fix s assume u: "busy_up cfg n s"
  then obtain s' where s': "sys_step lenv denv ASend s s'" "accounted lenv denv ASend s s'" "sy_daemon s' = sy_daemon s"
      "log_queue (sy_logger s') = drop 1 (log_queue (sy_logger s))" "on_the_way s' = on_the_way s"
    using send_step [OF _ snd] unfolding busy_up_def by blast
  then show "\<exists>tr s'. map fst tr = [ASend] \<and> sys_run lenv denv tr s s' \<and> busy_up cfg n s' \<and> over (lost lenv) tr = [] \<and>
      log_queue (sy_logger s') = drop 1 (log_queue (sy_logger s))"
    using u run_one [OF s'(1)] by (intro exI [of _ "[(ASend, s)]"] exI [of _ s']) (simp add: busy_up_def accounted_def)
qed

lemma write_one:
  assumes u: "busy_up cfg n s" and env: "sink_serves env cfg" and q: "log_queue (sy_logger s) = []"
  shows "\<exists>s'. sys_step lenv denv (AWrite env v) s s' \<and> busy_up cfg n s' \<and> log_queue (sy_logger s') = [] \<and>
    daemon_queue (sy_daemon s') = drop 1 (daemon_queue (sy_daemon s)) \<and> sy_wire s' = sy_wire s"
proof -
  obtain s' where "sys_step lenv denv (AWrite env v) s s'" "accounted lenv denv (AWrite env v) s s'"
      "daemon_queue (sy_daemon s') = drop 1 (daemon_queue (sy_daemon s))" "sy_wire s' = sy_wire s" "sy_logger s' = sy_logger s"
    using write_step [of s env lenv denv v] u env unfolding busy_up_def by blast
  then show ?thesis using u q by (intro exI [of _ s']) (auto simp: busy_up_def accounted_def on_the_way_def)
qed

lemma drain_ring:
  assumes env: "sink_serves env cfg" and "busy_up cfg n s \<and> log_queue (sy_logger s) = []"
  shows "\<exists>tr s'. map fst tr = concat (replicate n [AWrite env v]) \<and> sys_run lenv denv tr s s' \<and>
    (busy_up cfg n s' \<and> log_queue (sy_logger s') = []) \<and> over (lost lenv) tr = [] \<and>
    daemon_queue (sy_daemon s') = drop n (daemon_queue (sy_daemon s))"
proof (rule run_repeat [where I = "\<lambda>s. busy_up cfg n s \<and> log_queue (sy_logger s) = []" and f = "\<lambda>s. daemon_queue (sy_daemon s)",
    OF _ assms(2)])
  fix s assume u: "busy_up cfg n s \<and> log_queue (sy_logger s) = []"
  then obtain s' where s': "sys_step lenv denv (AWrite env v) s s'" "busy_up cfg n s'" "log_queue (sy_logger s') = []"
      "daemon_queue (sy_daemon s') = drop 1 (daemon_queue (sy_daemon s))"
    using write_one [OF _ env] by blast
  then show "\<exists>tr s'. map fst tr = [AWrite env v] \<and> sys_run lenv denv tr s s' \<and> (busy_up cfg n s' \<and> log_queue (sy_logger s') = []) \<and>
      over (lost lenv) tr = [] \<and> daemon_queue (sy_daemon s') = drop 1 (daemon_queue (sy_daemon s))"
    using run_one [OF s'(1)] by (intro exI [of _ "[(AWrite env v, s)]"] exI [of _ s']) simp
qed

lemma drain_socket:
  assumes env: "sink_serves env cfg" and "busy_up cfg n s \<and> log_queue (sy_logger s) = [] \<and> daemon_queue (sy_daemon s) = []"
  shows "\<exists>tr s'. map fst tr = concat (replicate n [ARecv, AWrite env v]) \<and> sys_run lenv denv tr s s' \<and>
    (busy_up cfg n s' \<and> log_queue (sy_logger s') = [] \<and> daemon_queue (sy_daemon s') = []) \<and> over (lost lenv) tr = [] \<and>
    sy_wire s' = drop n (sy_wire s)"
proof (rule run_repeat [where I = "\<lambda>s. busy_up cfg n s \<and> log_queue (sy_logger s) = [] \<and> daemon_queue (sy_daemon s) = []" and f = sy_wire,
    OF _ assms(2)])
  fix s assume u: "busy_up cfg n s \<and> log_queue (sy_logger s) = [] \<and> daemon_queue (sy_daemon s) = []"
  then obtain s1 where 1: "sys_step lenv denv ARecv s s1" "accounted lenv denv ARecv s s1" "sy_wire s1 = drop 1 (sy_wire s)"
      "sy_logger s1 = sy_logger s" "daemon_queue (sy_daemon s1) = take 1 (sy_wire s)"
    using recv_step [of s lenv denv] by (auto simp: busy_up_def)
  have l: "length (take 1 (sy_wire s)) + length (drop 1 (sy_wire s)) = length (sy_wire s)" by simp
  have b: "busy_up cfg n s1" "log_queue (sy_logger s1) = []" using 1 u l by (auto simp: busy_up_def accounted_def on_the_way_def)
  obtain s2 where 2: "sys_step lenv denv (AWrite env v) s1 s2" "busy_up cfg n s2" "log_queue (sy_logger s2) = []"
      "daemon_queue (sy_daemon s2) = drop 1 (daemon_queue (sy_daemon s1))" "sy_wire s2 = sy_wire s1"
    using write_one [OF b(1) env b(2)] by blast
  show "\<exists>tr s'. map fst tr = [ARecv, AWrite env v] \<and> sys_run lenv denv tr s s' \<and>
      (busy_up cfg n s' \<and> log_queue (sy_logger s') = [] \<and> daemon_queue (sy_daemon s') = []) \<and> over (lost lenv) tr = [] \<and>
      sy_wire s' = drop 1 (sy_wire s)"
    using 1 2 u sys_run.step [OF 1(1) run_one [OF 2(1)]]
    by (intro exI [of _ "[(ARecv, s), (AWrite env v, s1)]"] exI [of _ s2]) simp
qed

text \<open>The schedule that brings every entry on its way into the file.\<close>

abbreviation (input) "drain_actions n env v \<equiv>
  concat (replicate n [ASend]) @ concat (replicate n [AWrite env v]) @ concat (replicate n [ARecv, AWrite env v])"

lemma drain_action_cases:
  assumes "map fst tr = drain_actions n env v" and "(a, s) \<in> set tr"
  shows "a = ASend \<or> a = ARecv \<or> a = AWrite env v"
proof -
  have "a \<in> set (map fst tr)" using assms(2) by force
  then show ?thesis unfolding assms(1) by (auto split: if_splits)
qed

lemma drain_quiet:
  assumes "map fst tr = drain_actions n env v" and "sink_serves env cfg"
  shows "over (called lenv) tr = []" and "\<forall>(a, s) \<in> set tr. action_ok cfg a"
proof -
  have "called lenv p = [] \<and> action_ok cfg (fst p)" if "p \<in> set tr" for p
    using drain_action_cases [OF assms(1), of "fst p" "snd p"] that assms(2) by (cases p) auto
  then show "over (called lenv) tr = []" "\<forall>(a, s) \<in> set tr. action_ok cfg a" by auto
qed

lemma drain_attentive:
  assumes "map fst tr = drain_actions n env v" and "\<And>buf. fst (SilogRemoteSendFull (v fd) buf) = SILOG_OK"
  shows "\<forall>(a, s) \<in> set tr. attentive fd a"
proof -
  have "attentive fd (fst p)" if "p \<in> set tr" for p
    using drain_action_cases [OF assms(1), of "fst p" "snd p"] that assms(2) by (cases p) auto
  then show ?thesis by auto
qed

lemma drain:
  assumes up: "system_up s" and snd: "ie_send (lv_ipc lenv) = DgramSent" and env: "sink_serves env (file_config s)"
    and n: "length (on_the_way s) \<le> n"
  shows "\<exists>tr s'. map fst tr = drain_actions n env v \<and> sys_run lenv denv tr s s' \<and> on_the_way s' = [] \<and> over (lost lenv) tr = [] \<and>
    over stored tr = on_the_way s \<and> concat (over (closed denv) tr) @ written s' = written s @ lines_of denv (on_the_way s)"
proof -
  let ?cfg = "file_config s"
  have b: "busy_up ?cfg n s" using up n by (simp add: busy_up_def)
  obtain tr1 s1 where 1: "map fst tr1 = concat (replicate n [ASend])" "sys_run lenv denv tr1 s s1" "busy_up ?cfg n s1" "over (lost lenv) tr1 = []"
      "log_queue (sy_logger s1) = drop n (log_queue (sy_logger s))"
    using drain_library [OF snd b] by blast
  have q1: "log_queue (sy_logger s1) = []" using 1(5) n by (simp add: on_the_way_def)
  obtain tr2 s2 where 2: "map fst tr2 = concat (replicate n [AWrite env v])" "sys_run lenv denv tr2 s1 s2" "busy_up ?cfg n s2"
      "log_queue (sy_logger s2) = []" "over (lost lenv) tr2 = []" "daemon_queue (sy_daemon s2) = drop n (daemon_queue (sy_daemon s1))"
    using drain_ring [OF env conjI [OF 1(3) q1]] by blast
  have q2: "daemon_queue (sy_daemon s2) = []" using 2(6) 1(3) by (simp add: busy_up_def on_the_way_def)
  obtain tr3 s3 where 3: "map fst tr3 = concat (replicate n [ARecv, AWrite env v])" "sys_run lenv denv tr3 s2 s3" "busy_up ?cfg n s3"
      "log_queue (sy_logger s3) = []" "daemon_queue (sy_daemon s3) = []" "over (lost lenv) tr3 = []" "sy_wire s3 = drop n (sy_wire s2)"
    using drain_socket [OF env conjI [OF 2(3) conjI [OF 2(4) q2]]] by blast
  let ?tr = "tr1 @ tr2 @ tr3"
  have w: "on_the_way s3 = []" using 3(4,5,7) 2(3) by (simp add: on_the_way_def busy_up_def)
  have run: "sys_run lenv denv ?tr s s3" using run_append [OF 1(2) run_append [OF 2(2) 3(2)]] .
  have acts: "map fst ?tr = drain_actions n env v" using 1(1) 2(1) 3(1) by simp
  note c = drain_quiet(1) [OF acts env, of lenv] drain_quiet(2) [OF acts env]
  have l: "over (lost lenv) ?tr = []" using 1(4) 2(5) 3(6) by simp
  have st: "over stored ?tr = on_the_way s"
    using run_remains [OF run up snd c(2)] unfolding c(1) l w by (simp add: remains_none)
  have "concat (over (closed denv) ?tr) @ written s3 = written s @ lines_of denv (on_the_way s)"
    using run_written [OF run up snd c(2)] unfolding st .
  then show ?thesis using run acts w l st by blast
qed

lemma called_lines:
  assumes "\<forall>(a, s1) \<in> set tr. action_ok cfg a"
  shows "lines_of denv (over (called lenv) tr) = over (logged lenv denv) tr"
  using assms
proof (induction tr)
  case (Cons p tr)
  obtain a s where p: "p = (a, s)" by fastforce
  have "lines_of denv (called lenv (a, s)) = logged lenv denv (a, s)" using Cons.prems p by (intro called_entry(2)) auto
  then show ?case using Cons p by simp
qed simp

text \<open>The account of a run, as a reader of the log sees it.\<close>

definition log_accounts :: "logger_env \<Rightarrow> daemon_env \<Rightarrow> (sys_action \<times> system) list \<Rightarrow> system \<Rightarrow> byte list \<Rightarrow> bool" where
  "log_accounts lenv denv tr s bytes \<longleftrightarrow>
     (\<exists>all. subseq all (on_the_way s @ over (called lenv) tr) \<and>
        mset (on_the_way s @ over (called lenv) tr) = mset all + mset (over (lost lenv) tr) \<and>
        bytes = written s @ lines_of denv all) \<and>
     (over (lost lenv) tr = [] \<longrightarrow> bytes = written s @ lines_of denv (on_the_way s) @ over (logged lenv denv) tr)"

lemma log_accountsI:
  assumes "remains (on_the_way s @ over (called lenv) tr) (over (lost lenv) tr) all" and "bytes = written s @ lines_of denv all"
    and "\<forall>(a, s1) \<in> set tr. action_ok cfg a"
  shows "log_accounts lenv denv tr s bytes"
proof -
  have "all = on_the_way s @ over (called lenv) tr" if "over (lost lenv) tr = []"
    using assms(1) unfolding that remains_none .
  then show ?thesis
    unfolding log_accounts_def using assms(1,2) called_lines [OF assms(3), of denv lenv] by (auto simp: remains_def)
qed

section \<open>Example instance\<close>

definition ex_system :: "SiLogMpscQueue \<Rightarrow> system" where
  "ex_system q = \<lparr>sy_logger = ex_running, sy_wire = [], sy_daemon = (ex_listening q)\<lparr>da_writeThread := Looping,
     da_files := ex_g, da_fs := ex_fs, da_remoteEnabled := True, da_remote := one_client\<rparr>, sy_streams = (\<lambda>_. [])\<rparr>"

abbreviation (input) "ex_call \<equiv> ALog (Some (100, 7)) 43 SILOG_WARN (chars ''net'') (chars ''a.c'') 12 (chars ''up'')"
abbreviation (input) "ex_fm \<equiv> ex_env [] (\<lambda>_. True)"

lemma ex_serves: "sink_serves ex_fm ex_cfg"
  by (auto simp: sink_serves_def can_rotate_def ex_cfg_def ex_env_ok names_ok_def) (auto simp: ex_env_def intro: exI [of _ 0])

lemma ex_system_up:
  "\<exists>q. system_up (ex_system q) \<and> on_the_way (ex_system q) = [] \<and> written (ex_system q) = [1, 2, 3] \<and>
     lm_minLevel (lg_mgr (sy_logger (ex_system q))) = SILOG_DEBUG"
proof -
  have "\<exists>q. SilogMpscQueueInit (\<lambda>n. Some (replicate n 0)) (\<lambda>n. Some (replicate n 0)) (Some mq_ex) 384 4096 = (SILOG_OK, Some q) \<and>
      mq_ok q \<and> mq_list q = [] \<and> mq_elementSize q = 384 \<and> mq_capacity q = 4096"
    by (intro mpsc_init_ok [where b = "replicate 1572864 0"]) simp_all
  then obtain q where q: "mq_ok q" "mq_list q = []" "mq_elementSize q = 384" "mq_capacity q = 4096" by blast
  have "logger_up ex_running" using ex_running by (simp add: logger_up_def)
  moreover have "sink_ok (ex_g, ex_fs)"
    using fm_reach_inv [OF ex_reach] ex_g_fields by (simp add: sink_ok_def ex_cfg_def)
  then have "daemon_up (sy_daemon (ex_system q))"
    using q one_client_ok by (simp add: daemon_up_def daemon_ready_def ex_system_def ex_listening_def ex_daemon_def)
  moreover have "on_the_way (ex_system q) = []" using q ex_running(2) by (simp add: on_the_way_def ex_system_def ex_listening_def)
  moreover have "written (ex_system q) = [1, 2, 3]"
    by (simp add: written_def ex_system_def log_text_def fm_current_def ex_g_fields ex_current ex_fs_def)
  moreover have "lm_minLevel (lg_mgr (sy_logger (ex_system q))) = SILOG_DEBUG" using ex_running(6) by (simp add: ex_system_def)
  ultimately show ?thesis by (intro exI [of _ q]) (simp add: system_up_def ex_system_def)
qed

lemma ex_call_ok: "action_ok cfg ex_call"
proof -
  have "format_no_args (chars ''up'') = Some (chars ''up'')" by code_simp
  then show ?thesis by (simp add: chars_def SILOG_WARN_def SILOG_FATAL_def)
qed

lemma ex_send: "ie_send (lv_ipc ex_lenv) = DgramSent"
  by (simp add: ex_lenv_def good_env_def)

lemma ex_logged:
  assumes "lm_minLevel (lg_mgr (sy_logger s)) = SILOG_DEBUG"
  shows "logged ex_lenv ex_denv (ex_call, s) = chars ''[][WARN][pid:42 tid:43][net][a.c:12] up'' @ [10]"
proof -
  have f: "format_no_args (chars ''up'') = Some (chars ''up'')" by code_simp
  have "log_line (clock_text (dv_localtime ex_denv) (SilogGetNowMs (Some (100, 7)))) (SilogUtilsLevelToName SILOG_WARN)
      (lv_pid ex_lenv) (SilogUtilsGetTid 43) (take 31 (chars ''net'')) (take 63 (chars ''a.c'')) 12 (take 255 (chars ''up'')) =
    chars ''[][WARN][pid:42 tid:43][net][a.c:12] up'' @ [10]"
    by code_simp
  then show ?thesis using f assms by (simp add: SILOG_DEBUG_def del: take_Suc_Cons)
qed

lemma ex_run:
  assumes "system_up s" and "on_the_way s = []"
  shows "\<exists>s'. sys_run ex_lenv ex_denv [(ex_call, s)] s s' \<and> length (on_the_way s') \<le> 1 \<and> over (lost ex_lenv) [(ex_call, s)] = [] \<and>
    file_config s' = file_config s"
proof -
  have q: "log_queue (sy_logger s) = []" using assms(2) by (simp add: on_the_way_def)
  obtain s' where s': "sys_step ex_lenv ex_denv ex_call s s'" "accounted ex_lenv ex_denv ex_call s s'"
    using log_step [OF assms(1) ex_call_ok [of undefined], of ex_lenv] by blast
  have "on_the_way s' = called ex_lenv (ex_call, s)"
    using s'(2) assms(2) q by (simp add: accounted_def remains_none del: called.simps)
  then have "length (on_the_way s') \<le> 1" by (simp split: option.splits)
  then show ?thesis using s' q run_one [OF s'(1)] by (intro exI [of _ s']) (simp add: accounted_def del: called.simps)
qed

section \<open>Properties\<close>





section \<open>Stopping the daemon\<close>

lemma join_recv_looping:
  assumes "\<not> da_running d" and "da_recvThread d = Looping"
  shows "join_recv env d = Some (d\<lparr>da_ipc := SilogIpcServerClose (da_ipc d), da_recvThread := NoThread\<rparr>)"
  using assms by (simp add: join_recv_def recv_turn_def)

lemma ServerClose_fds:
  assumes "ipc_ok g" and "ia_isInit g" and "ia_sendFd g < 0"
  shows "ia_fds (SilogIpcServerClose g) = {}"
  using assms
  by (auto simp: SilogIpcServerClose_def SilogIpcDgramServerClose_def Let_def ipc_ok_def fds_ok_def ipc_close_def ipc_unlink_def)

lemma RemoteDeinit_run:
  assumes "remote_ok (da_remote d)" and "da_remoteEnabled d \<or> \<not> rm_isInit (da_remote d)"
  shows "\<exists>rm th. SilogDaemonRemoteDeinit d = Some (d\<lparr>da_remoteRunning := da_remoteRunning d \<and> \<not> da_remoteEnabled d,
      da_remoteThread := th, da_remote := rm, da_remoteEnabled := False\<rparr>) \<and> rm_fds rm = {}"
proof (cases "da_remoteEnabled d")
  case True
  obtain rm where "SilogRemoteDeinit (da_remote d) = Some rm" "rm_fds rm = {}" using deinit_ok [OF assms(1)] by blast
  then show ?thesis using True by (auto simp: SilogDaemonRemoteDeinit_def)
next
  case False
  then have "rm_fds (da_remote d) = {}" using assms by (simp add: remote_ok_def)
  then show ?thesis using False
    by (intro exI [of _ "da_remote d"] exI [of _ "da_remoteThread d"]) (simp add: SilogDaemonRemoteDeinit_def)
qed

text \<open>
  C23. Stopping a running daemon returns with everything released: both workers joined, the socket closed
  and its file removed, every viewer's connection closed, the ring freed and the file manager shut
  down. The log file then holds exactly what had been written before, flushed; the entries still in
  the ring are dropped.
\<close>

theorem SilogDaemonDeinit_releases:
  assumes "daemon_up d" and "env_ok (dv_fm denv) (fm_config (da_files d))" and "dv_join_compress denv" and "ipc_ok (da_ipc d)" and "ia_sendFd (da_ipc d) < 0"
    and "da_remoteEnabled d \<or> \<not> rm_isInit (da_remote d)"
  shows "\<exists>d'. SilogDaemonDeinit denv d = Some d' \<and> \<not> da_running d' \<and> da_recvThread d' = NoThread \<and> da_writeThread d' = NoThread \<and>
    ia_fds (da_ipc d') = {} \<and> ia_file (da_ipc d') = NoFile \<and> rm_fds (da_remote d') = {} \<and> \<not> da_remoteEnabled d' \<and> \<not> fm_initialized (da_files d') \<and>
    mq_buffer (da_logQueue d') = None \<and>
    (case da_fs d' (fm_current (da_files d)) of None \<Rightarrow> [] | Some f \<Rightarrow> f_content f) = log_text (da_files d) (da_fs d)"
proof -
  have u: "da_recvThread d = Looping" "remote_ok (da_remote d)" "fm_inv (da_files d) (da_fs d)" "fm_initialized (da_files d)"
      "ia_isInit (da_ipc d)"
    using assms(1) by (simp_all add: daemon_up_def daemon_ready_def sink_ok_def)
  let ?d1 = "d\<lparr>da_running := False, da_ipc := SilogIpcServerClose (da_ipc d), da_recvThread := NoThread\<rparr>"
  have j: "join_recv denv (d\<lparr>da_running := False\<rparr>) = Some ?d1"
    using join_recv_looping [of "d\<lparr>da_running := False\<rparr>" denv] u(1) by simp
  let ?d2 = "?d1\<lparr>da_writeThread := NoThread\<rparr>"
  obtain rm th where r: "SilogDaemonRemoteDeinit ?d2 = Some (?d2\<lparr>da_remoteRunning := da_remoteRunning d \<and> \<not> da_remoteEnabled d,
      da_remoteThread := th, da_remote := rm, da_remoteEnabled := False\<rparr>)" "rm_fds rm = {}"
    using RemoteDeinit_run [of ?d2] u(2) assms(6) by auto
  obtain g' fs' where g: "SilogFileManagerDeinit (dv_fm denv) True (da_files d) (da_fs d) = Some (g', fs')" "\<not> fm_initialized g'"
      "(case fs' (fm_current (da_files d)) of None \<Rightarrow> [] | Some f \<Rightarrow> f_content f) = log_text (da_files d) (da_fs d)"
    using Deinit_outcome [OF u(3), of "dv_fm denv"] u(4) assms(2) by blast
  show ?thesis
    using j r g assms(3) ServerClose_fds [OF assms(4) u(5) assms(5)] SilogIpcServerClose_file [of "da_ipc d"] u(5)
    by (simp add: SilogDaemonDeinit_def SilogMpscQueueDestroy_def)
qed

theorem SilogDaemonDeinit_releases_witness:
  "\<exists>q d'. SilogDaemonDeinit ex_denv (sy_daemon (ex_system q)) = Some d' \<and> ia_fds (da_ipc d') = {} \<and>
     ia_file (da_ipc d') = NoFile \<and> rm_fds (da_remote d') = {} \<and>
     mq_buffer (da_logQueue d') = None"
proof -
  obtain q where q: "system_up (ex_system q)" using ex_system_up by blast
  let ?d = "sy_daemon (ex_system q)"
  have "daemon_up ?d" using q by (simp add: system_up_def)
  moreover have "env_ok (dv_fm ex_denv) (fm_config (da_files ?d))" using ex_serves by (simp add: ex_denv_def ex_system_def ex_g_fields sink_serves_def)
  moreover have "dv_join_compress ex_denv" "ipc_ok (da_ipc ?d)" "ia_sendFd (da_ipc ?d) < 0"
      "da_remoteEnabled ?d \<or> \<not> rm_isInit (da_remote ?d)"
    by (auto simp: ex_denv_def ex_system_def ex_listening_def ex_daemon_def ipc_ok_def fds_ok_def file_ok_def)
  ultimately show ?thesis using SilogDaemonDeinit_releases [of ?d ex_denv] by blast
qed

end
