(* ===== verification/Silog_Apps.thy ===== *)
theory Silog_Apps
  imports Silog_Pipeline
begin

text \<open>
  Several applications and one daemon: each application has its own library, and all of them send to the
  daemon's socket. A step is a step of the system of \<open>Silog_Pipeline\<close> as one of the applications sees it,
  with its own library and everything else in common; the steps of the applications and of the daemon's
  threads interleave freely. The entries of an application are known by the process id in them.
\<close>

section \<open>The applications and the daemon\<close>

record apps =
  ap_loggers :: "nat \<Rightarrow> logger"
  ap_wire :: "byte list list"
  ap_daemon :: SilogDaemon
  ap_streams :: "int \<Rightarrow> byte list"

definition app_view :: "nat \<Rightarrow> apps \<Rightarrow> system" where
  "app_view i s = \<lparr>sy_logger = ap_loggers s i, sy_wire = ap_wire s, sy_daemon = ap_daemon s, sy_streams = ap_streams s\<rparr>"

definition put_view :: "nat \<Rightarrow> system \<Rightarrow> apps \<Rightarrow> apps" where
  "put_view i t s = s\<lparr>ap_loggers := (ap_loggers s)(i := sy_logger t), ap_wire := sy_wire t, ap_daemon := sy_daemon t,
     ap_streams := sy_streams t\<rparr>"

text \<open>A run is recorded as for one application, with the number of the one that saw the step.\<close>

inductive apps_run ::
  "nat \<Rightarrow> (nat \<Rightarrow> logger_env) \<Rightarrow> daemon_env \<Rightarrow> (nat \<times> sys_action \<times> system) list \<Rightarrow> apps \<Rightarrow> apps \<Rightarrow> bool"
  for n :: nat and lenvs :: "nat \<Rightarrow> logger_env" and denv :: daemon_env where
  stop: "apps_run n lenvs denv [] s s"
| step: "i < n \<Longrightarrow> sys_step (lenvs i) denv a (app_view i s) t \<Longrightarrow> apps_run n lenvs denv tr (put_view i t s) s' \<Longrightarrow>
    apps_run n lenvs denv ((i, a, app_view i s) # tr) s s'"

lemma view_simps [simp]:
  "sy_logger (app_view i s) = ap_loggers s i" "sy_wire (app_view i s) = ap_wire s"
  "sy_daemon (app_view i s) = ap_daemon s" "sy_streams (app_view i s) = ap_streams s"
  "app_view i (put_view i t s) = t" "ap_daemon (put_view i t s) = sy_daemon t" "ap_wire (put_view i t s) = sy_wire t"
  "ap_loggers (put_view i t s) j = (if j = i then sy_logger t else ap_loggers s j)"
  by (simp_all add: app_view_def put_view_def)

section \<open>What belongs to an application\<close>

definition from_app :: "(nat \<Rightarrow> logger_env) \<Rightarrow> nat \<Rightarrow> byte list \<Rightarrow> bool" where
  "from_app lenvs i b \<longleftrightarrow> le_pid (struct_entry b) = lv_pid (lenvs i)"

text \<open>The entries of an application on their way to the file, oldest first.\<close>

definition app_way :: "(nat \<Rightarrow> logger_env) \<Rightarrow> nat \<Rightarrow> apps \<Rightarrow> byte list list" where
  "app_way lenvs i s = filter (from_app lenvs i) (daemon_queue (ap_daemon s) @ ap_wire s) @ log_queue (ap_loggers s i)"

text \<open>What a recorded step calls, drops and writes for an application.\<close>

fun app_called :: "(nat \<Rightarrow> logger_env) \<Rightarrow> nat \<Rightarrow> nat \<times> sys_action \<times> system \<Rightarrow> byte list list" where
  "app_called lenvs i (j, p) = (if j = i then called (lenvs i) p else [])"

fun app_lost :: "(nat \<Rightarrow> logger_env) \<Rightarrow> nat \<Rightarrow> nat \<times> sys_action \<times> system \<Rightarrow> byte list list" where
  "app_lost lenvs i (j, p) = filter (from_app lenvs i) (lost (lenvs j) p)"

fun app_stored :: "(nat \<Rightarrow> logger_env) \<Rightarrow> nat \<Rightarrow> nat \<times> sys_action \<times> system \<Rightarrow> byte list list" where
  "app_stored lenvs i (j, p) = filter (from_app lenvs i) (stored p)"

definition apps_up :: "nat \<Rightarrow> (nat \<Rightarrow> logger_env) \<Rightarrow> apps \<Rightarrow> bool" where
  "apps_up n lenvs s \<longleftrightarrow> (\<forall>i < n. system_up (app_view i s) \<and> (\<forall>b \<in> set (log_queue (ap_loggers s i)). from_app lenvs i b))"

text \<open>Running processes have different ids.\<close>

definition apps_env :: "nat \<Rightarrow> (nat \<Rightarrow> logger_env) \<Rightarrow> bool" where
  "apps_env n lenvs \<longleftrightarrow> (\<forall>i < n. ie_send (lv_ipc (lenvs i)) = DgramSent) \<and> inj_on (\<lambda>i. lv_pid (lenvs i)) {..<n}"

section \<open>One step\<close>

lemma remains_filter: "remains xs ds ys \<Longrightarrow> remains (filter P xs) (filter P ds) (filter P ys)"
  unfolding remains_def by (metis filter_union_mset mset_filter subseq_filter)

lemma called_from_app:
  assumes "action_ok cfg a" and "b \<in> set (called (lenvs i) (a, s))"
  shows "from_app lenvs i b"
proof (cases a)
  case (ALog c tid l tag fname line fmt)
  then obtain t where t: "format_no_args fmt = Some t" using assms(1) by auto
  have z: "0 \<notin> set tag" "0 \<notin> set fname" "0 \<notin> set fmt" using assms(1) ALog by auto
  note e = built_entry [OF z(1,2) format_no_zero [OF t z(3)]]
  show ?thesis using assms(2) ALog t struct_entry_struct [OF e(2)] by (auto simp: from_app_def e split: if_splits)
qed (use assms(2) in auto)

lemma other_app: "apps_env n lenvs \<Longrightarrow> i < n \<Longrightarrow> j < n \<Longrightarrow> j \<noteq> i \<Longrightarrow> from_app lenvs j b \<Longrightarrow> \<not> from_app lenvs i b"
  by (auto simp: apps_env_def from_app_def inj_on_def)

lemma logger_step_queue:
  assumes up: "system_up s" and snd: "ie_send (lv_ipc lenv) = DgramSent" and ok: "action_ok cfg a" and st: "sys_step lenv denv a s s'"
  shows "set (log_queue (sy_logger s')) \<subseteq> set (log_queue (sy_logger s)) \<union> set (called lenv (a, s))"
proof (cases a)
  case (ALog c tid l tag fname line fmt)
  have u: "logger_up (sy_logger s)" using up by (simp add: system_up_def)
  have "\<exists>lg. silogLog (lenv\<lparr>lv_clock := c, lv_tid := tid\<rparr>) l tag fname line fmt (sy_logger s) = Some lg \<and> s' = s\<lparr>sy_logger := lg\<rparr>"
    using st ALog by (auto elim: sys_step_logE)
  then show ?thesis
    using log_call [OF u, of cfg c tid l tag fname line fmt lenv] ok ALog by (auto simp del: called.simps split: if_splits)
next
  case ASend
  obtain s1 where "sys_step lenv denv ASend s s1" "log_queue (sy_logger s1) = drop 1 (log_queue (sy_logger s))"
    using send_step [OF up snd] by blast
  then show ?thesis using st ASend sys_step_det by (metis UnI1 set_drop_subset subset_iff)
next
  case (ASetLevel l)
  then show ?thesis using st by (auto elim!: sys_step_levelE simp: silogSetLevel_def)
qed (use st in \<open>auto elim!: sys_step_recvE sys_step_writeE sys_step_viewerE sys_step_compressE\<close>)


definition apps_written :: "apps \<Rightarrow> byte list" where
  "apps_written s = log_text (da_files (ap_daemon s)) (da_fs (ap_daemon s))"

abbreviation (input) "apps_config s \<equiv> fm_config (da_files (ap_daemon s))"

lemma app_step_up:
  assumes env: "apps_env n lenvs" and up: "apps_up n lenvs s" and j: "j < n" and ok: "action_ok (apps_config s) a"
    and st: "sys_step (lenvs j) denv a (app_view j s) t"
  shows "accounted (lenvs j) denv a (app_view j s) t" and "apps_up n lenvs (put_view j t s)"
proof -
  have u: "system_up (app_view j s)" "ie_send (lv_ipc (lenvs j)) = DgramSent"
    using up env j by (simp_all add: apps_up_def apps_env_def)
  show a: "accounted (lenvs j) denv a (app_view j s) t" using ok by (intro step_accounted [OF u _ st]) simp
  have own: "\<forall>b \<in> set (log_queue (sy_logger t)). from_app lenvs j b"
    using logger_step_queue [OF u ok st] called_from_app [OF ok, of _ lenvs j] up j by (fastforce simp: apps_up_def)
  have t: "system_up t" using a by (simp add: accounted_def)
  have "system_up (app_view i (put_view j t s))" if i: "i < n" "i \<noteq> j" for i
  proof -
    have "system_up (app_view i s)" using up i(1) by (simp add: apps_up_def)
    then show ?thesis using t i(2) by (auto simp: system_up_def on_the_way_def)
  qed
  then show "apps_up n lenvs (put_view j t s)"
    using a own up by (auto simp: apps_up_def accounted_def)
qed

lemma app_step_account:
  assumes env: "apps_env n lenvs" and up: "apps_up n lenvs s" and j: "j < n" and i: "i < n" and ok: "action_ok (apps_config s) a"
    and st: "sys_step (lenvs j) denv a (app_view j s) t"
  shows "remains (app_way lenvs i s @ app_called lenvs i (j, a, app_view j s)) (app_lost lenvs i (j, a, app_view j s))
    (app_stored lenvs i (j, a, app_view j s) @ app_way lenvs i (put_view j t s))"
proof -
  let ?P = "from_app lenvs i" and ?p = "(a, app_view j s)"
  have "remains (on_the_way (app_view j s) @ called (lenvs j) ?p) (lost (lenvs j) ?p) (stored ?p @ on_the_way t)"
    using app_step_up(1) [OF env up j ok st] by (simp add: accounted_def)
  then have r: "remains (filter ?P (on_the_way (app_view j s)) @ filter ?P (called (lenvs j) ?p)) (filter ?P (lost (lenvs j) ?p))
      (filter ?P (stored ?p) @ filter ?P (on_the_way t))"
    using remains_filter [of _ _ _ ?P] by fastforce
  have up': "apps_up n lenvs (put_view j t s)" by (rule app_step_up(2) [OF env up j ok st])
  have q: "\<forall>b \<in> set (log_queue (ap_loggers s j)). from_app lenvs j b" "\<forall>b \<in> set (log_queue (sy_logger t)). from_app lenvs j b"
      "\<forall>b \<in> set (called (lenvs j) ?p). from_app lenvs j b"
    using up up' j called_from_app [OF ok] by (auto simp: apps_up_def)
  show ?thesis
  proof (cases "j = i")
    case True
    then have "filter ?P (log_queue (ap_loggers s j)) = log_queue (ap_loggers s i)" "filter ?P (log_queue (sy_logger t)) = log_queue (sy_logger t)"
        "filter ?P (called (lenvs j) ?p) = called (lenvs i) ?p"
      using q by (simp_all add: filter_id_conv)
    then show ?thesis using r True by (simp add: app_way_def on_the_way_def)
  next
    case False
    have "filter ?P xs = []" if "\<forall>b \<in> set xs. from_app lenvs j b" for xs
      using that other_app [OF env i j False] by (auto simp: filter_empty_conv)
    then have n: "filter ?P (log_queue (ap_loggers s j)) = []" "filter ?P (log_queue (sy_logger t)) = []" "filter ?P (called (lenvs j) ?p) = []"
      using q by blast+
    show ?thesis
      using remains_append [OF r, of "[]" "log_queue (ap_loggers s i)"] n False by (simp add: app_way_def on_the_way_def)
  qed
qed

section \<open>Runs\<close>

lemma apps_run_accounts:
  assumes "apps_run n lenvs denv tr s s'" and "apps_env n lenvs" and "apps_up n lenvs s"
    and "\<forall>(i, a, v) \<in> set tr. action_ok (apps_config s) a"
  shows "apps_up n lenvs s' \<and> apps_config s' = apps_config s \<and>
    concat (over (\<lambda>(j, p). closed denv p) tr) @ apps_written s' = apps_written s @ lines_of denv (over (\<lambda>(j, p). stored p) tr) \<and>
    (\<forall>i < n. remains (app_way lenvs i s @ over (app_called lenvs i) tr) (over (app_lost lenvs i) tr)
      (over (app_stored lenvs i) tr @ app_way lenvs i s'))"
  using assms
proof (induction rule: apps_run.induct)
  case (stop s)
  then show ?case by simp
next
  case (step j a s t tr s')
  let ?p = "(j, a, app_view j s)" and ?s = "put_view j t s"
  have ok: "action_ok (apps_config s) a" using step.prems(3) by simp
  note up = app_step_up [OF step.prems(1,2) step.hyps(1) ok step.hyps(2)]
  have 1: "apps_config ?s = apps_config s"
      "concat (closed denv (a, app_view j s)) @ apps_written ?s = apps_written s @ lines_of denv (stored (a, app_view j s))"
    using up(1) by (simp_all add: accounted_def written_def apps_written_def)
  have 2: "apps_up n lenvs s' \<and> apps_config s' = apps_config ?s \<and>
      concat (over (\<lambda>(j, p). closed denv p) tr) @ apps_written s' = apps_written ?s @ lines_of denv (over (\<lambda>(j, p). stored p) tr) \<and>
      (\<forall>i < n. remains (app_way lenvs i ?s @ over (app_called lenvs i) tr) (over (app_lost lenvs i) tr)
        (over (app_stored lenvs i) tr @ app_way lenvs i s'))"
    using step.prems up(2) 1(1) by (intro step.IH) auto
  have "remains (app_way lenvs i s @ app_called lenvs i ?p @ over (app_called lenvs i) tr) (app_lost lenvs i ?p @ over (app_lost lenvs i) tr)
      (app_stored lenvs i ?p @ over (app_stored lenvs i) tr @ app_way lenvs i s')" if i: "i < n" for i
    using remains_append [OF app_step_account [OF step.prems(1,2) step.hyps(1) i ok step.hyps(2)], of "[]" "over (app_called lenvs i) tr"]
      2 i remains_append [of _ _ _ "app_stored lenvs i ?p" "[]"] by (auto intro: remains_trans simp del: app_called.simps app_lost.simps app_stored.simps)
  moreover have "concat (closed denv (a, app_view j s)) @ concat (over (\<lambda>(j, p). closed denv p) tr) @ apps_written s' =
      apps_written s @ lines_of denv (stored (a, app_view j s)) @ lines_of denv (over (\<lambda>(j, p). stored p) tr)"
    using 1(2) 2 by (metis append.assoc)
  ultimately show ?case using 1(1) 2 by (simp del: app_called.simps app_lost.simps app_stored.simps)
qed


section \<open>Delivery\<close>

lemma put_view_id [simp]: "put_view i (app_view i s) s = s"
  by (simp add: app_view_def put_view_def)

lemma put_view_put [simp]: "put_view i t' (put_view i t s) = put_view i t' s"
  by (simp add: put_view_def)

lemma apps_run_append:
  "apps_run n lenvs denv tr s s' \<Longrightarrow> apps_run n lenvs denv tr' s' s'' \<Longrightarrow> apps_run n lenvs denv (tr @ tr') s s''"
  by (induction rule: apps_run.induct) (auto intro: apps_run.step)

text \<open>A run of the system of one application is one of all of them.\<close>

lemma apps_run_lift:
  assumes "sys_run (lenvs i) denv tr v t" and "i < n" and "v = app_view i s"
  shows "apps_run n lenvs denv (map (Pair i) tr) s (put_view i t s)"
  using assms
proof (induction arbitrary: s rule: sys_run.induct)
  case (stop v)
  then show ?case by (simp add: apps_run.stop)
next
  case (step a v t1 tr t)
  have "apps_run n lenvs denv (map (Pair i) tr) (put_view i t1 s) (put_view i t (put_view i t1 s))"
    using step.prems(1) by (intro step.IH) simp_all
  then show ?case using apps_run.step [OF step.prems(1), of lenvs denv a s t1] step.hyps(1) step.prems(2) by simp
qed

text \<open>What the steps that only deliver do: nothing is called and nothing is dropped.\<close>

definition delivers_only :: "nat \<Rightarrow> (nat \<Rightarrow> logger_env) \<Rightarrow> SilogLogFileConfig \<Rightarrow> (nat \<times> sys_action \<times> system) list \<Rightarrow> bool" where
  "delivers_only n lenvs cfg tr \<longleftrightarrow> (\<forall>(i, a, v) \<in> set tr. action_ok cfg a) \<and>
     (\<forall>i < n. over (app_called lenvs i) tr = [] \<and> over (app_lost lenvs i) tr = [])"

lemma delivers_only_append:
  "delivers_only n lenvs cfg tr \<Longrightarrow> delivers_only n lenvs cfg tr' \<Longrightarrow> delivers_only n lenvs cfg (tr @ tr')"
  by (auto simp: delivers_only_def)

lemma drain_app:
  assumes env: "apps_env n lenvs" and up: "apps_up n lenvs s" and i: "i < n" and sv: "sink_serves fenv (apps_config s)"
  shows "\<exists>tr s'. apps_run n lenvs denv tr s s' \<and> delivers_only n lenvs (apps_config s) tr \<and> daemon_queue (ap_daemon s') = [] \<and>
    ap_wire s' = [] \<and> (\<forall>j. log_queue (ap_loggers s' j) = (if j = i then [] else log_queue (ap_loggers s j)))"
proof -
  let ?v = "app_view i s" and ?send = "\<lambda>_ _ _. SendAgain"
  have u: "system_up ?v" "ie_send (lv_ipc (lenvs i)) = DgramSent" "sink_serves fenv (file_config ?v)"
    using env up i sv by (simp_all add: apps_up_def apps_env_def)
  obtain tr t where d: "map fst tr = drain_actions (length (on_the_way ?v)) fenv ?send" "sys_run (lenvs i) denv tr ?v t"
      "on_the_way t = []" "over (lost (lenvs i)) tr = []"
    using drain [OF u order_refl, of ?send denv] by blast
  note q = drain_quiet [OF d(1) sv]
  have "called (lenvs i) p = []" "lost (lenvs i) p = []" if "p \<in> set tr" for p
    using q(1) [of "lenvs i"] d(4) that by simp_all
  then have "over (app_called lenvs k) (map (Pair i) tr) = []" "over (app_lost lenvs k) (map (Pair i) tr) = []" for k
    by (cases "i = k"; simp)+
  moreover have "\<forall>(j, a, v) \<in> set (map (Pair i) tr). action_ok (apps_config s) a" using q(2) by auto
  ultimately have "delivers_only n lenvs (apps_config s) (map (Pair i) tr)" unfolding delivers_only_def by blast
  moreover have "apps_run n lenvs denv (map (Pair i) tr) s (put_view i t s)" using d(2) i by (rule apps_run_lift) simp
  ultimately show ?thesis using d(3)
    by (intro exI [of _ "map (Pair i) tr"] exI [of _ "put_view i t s"]) (simp add: on_the_way_def)
qed

lemma drain_apps:
  assumes env: "apps_env n lenvs" and up: "apps_up n lenvs s" and sv: "sink_serves fenv (apps_config s)" and k: "k \<le> n"
  shows "\<exists>tr s'. apps_run n lenvs denv tr s s' \<and> delivers_only n lenvs (apps_config s) tr \<and>
    (0 < k \<longrightarrow> daemon_queue (ap_daemon s') = [] \<and> ap_wire s' = []) \<and> (\<forall>j < k. log_queue (ap_loggers s' j) = [])"
  using k
proof (induction k)
  case 0
  then show ?case by (intro exI [of _ "[]"] exI [of _ s]) (simp add: apps_run.stop delivers_only_def)
next
  case (Suc k)
  then obtain tr s1 where 1: "apps_run n lenvs denv tr s s1" "delivers_only n lenvs (apps_config s) tr" "\<forall>j < k. log_queue (ap_loggers s1 j) = []"
    by auto
  have a: "apps_up n lenvs s1" "apps_config s1 = apps_config s"
    using apps_run_accounts [OF 1(1) env up] 1(2) by (auto simp: delivers_only_def)
  obtain tr' s' where "apps_run n lenvs denv tr' s1 s'" "delivers_only n lenvs (apps_config s) tr'" "daemon_queue (ap_daemon s') = []"
      "ap_wire s' = []" "\<forall>j. log_queue (ap_loggers s' j) = (if j = k then [] else log_queue (ap_loggers s1 j))"
    using drain_app [OF env a(1), of k fenv denv] Suc.prems sv a(2) by auto
  then show ?case
    using 1 apps_run_append [OF 1(1)] delivers_only_append by (intro exI [of _ "tr @ tr'"] exI [of _ s']) (auto simp: less_Suc_eq)
qed

lemma app_stored_filter: "over (app_stored lenvs i) tr = filter (from_app lenvs i) (over (\<lambda>(j, p). stored p) tr)"
  by (induction tr) auto


section \<open>Example instance\<close>

definition ex_lenvs :: "nat \<Rightarrow> logger_env" where
  "ex_lenvs i = ex_lenv\<lparr>lv_pid := word_of_nat (42 + i)\<rparr>"

definition ex_apps :: "SiLogMpscQueue \<Rightarrow> apps" where
  "ex_apps q = \<lparr>ap_loggers = (\<lambda>_. ex_running), ap_wire = [], ap_daemon = sy_daemon (ex_system q), ap_streams = (\<lambda>_. [])\<rparr>"

lemma ex_apps_view: "app_view i (ex_apps q) = ex_system q"
  by (simp add: app_view_def ex_apps_def ex_system_def)

lemma ex_apps_env: "apps_env 2 ex_lenvs"
  by (auto simp: apps_env_def ex_lenvs_def ex_send inj_on_def less_2_cases_iff)

lemma ex_apps_up: "system_up (ex_system q) \<Longrightarrow> on_the_way (ex_system q) = [] \<Longrightarrow> apps_up 2 ex_lenvs (ex_apps q)"
  by (simp add: apps_up_def ex_apps_view on_the_way_def) (simp add: ex_apps_def ex_system_def)

section \<open>Properties\<close>



end
