(* ===== verification/Silog_Remote_Client.thy ===== *)
theory Silog_Remote_Client
  imports Silog_Remote_Server Silog_Securec
begin

text \<open>
  The viewer's side of the remote protocol (\<open>silog_remote.c\<close>, client part): connection state and the
  reassembly of fixed-size frames from a TCP stream. The global \<open>g_silogRemoteClient\<close> is a record;
  \<open>rc_fds\<close> is the set of descriptors the client owns. The callback is the list of entries it is
  called with. \<open>frame_reader\<close> is the contract of a reassembler and what follows from it for every way
  a stream may be cut into pieces; the interpretation is the code's own receive function.
\<close>

section \<open>State\<close>

record SilogRemoteClientConfig =
  cc_serverAddr :: "byte list"
  cc_serverPort :: u16
  cc_useReconnect :: bool
  cc_reconnectMs :: u32

record SilogRemoteClientCtx =
  rc_isInit :: bool
  rc_isConnected :: bool
  rc_socketFd :: int
  rc_config :: SilogRemoteClientConfig
  rc_recvBuf :: "byte list"
  rc_recvOffset :: nat
  rc_fds :: "int set"

definition g_silogRemoteClient :: SilogRemoteClientCtx where
  "g_silogRemoteClient = \<lparr>rc_isInit = False, rc_isConnected = False, rc_socketFd = -1,
     rc_config = \<lparr>cc_serverAddr = replicate 64 0, cc_serverPort = 0, cc_useReconnect = False, cc_reconnectMs = 0\<rparr>,
     rc_recvBuf = replicate 377 0, rc_recvOffset = 0, rc_fds = {}\<rparr>"

definition default_addr :: "byte list \<Rightarrow> byte list" where
  "default_addr old = overwrite 0 (chars ''127.0.0.1'' @ [0]) old"

section \<open>Operations\<close>

definition SilogRemoteClientSetNonblock :: "(int \<Rightarrow> fcntl_cmd \<Rightarrow> int) \<Rightarrow> int \<Rightarrow> ErrorCode" where
  "SilogRemoteClientSetNonblock fcntl fd =
     (let flags = fcntl fd F_GETFL
      in if flags < 0 then SILOG_NET_FILE_ERROR
         else if fcntl fd (F_SETFL (flags OR 2048)) < 0 then SILOG_NET_FILE_ERROR
         else SILOG_OK)"

definition SilogRemoteClientInit ::
  "SilogRemoteClientConfig option \<Rightarrow> SilogRemoteClientCtx \<Rightarrow> ErrorCode \<times> SilogRemoteClientCtx" where
  "SilogRemoteClientInit config g =
     (if rc_isInit g then (SILOG_OK, g)
      else
        let cfg = (case config of
              Some c \<Rightarrow> c\<lparr>
                cc_serverAddr := (if cc_serverAddr c ! 0 = 0 then default_addr (cc_serverAddr c) else cc_serverAddr c),
                cc_serverPort := (if cc_serverPort c = 0 then 9090 else cc_serverPort c),
                cc_reconnectMs := (if cc_reconnectMs c = 0 then 5000 else cc_reconnectMs c)\<rparr>
            | None \<Rightarrow> (rc_config g)\<lparr>cc_serverAddr := default_addr (cc_serverAddr (rc_config g)),
                cc_serverPort := 9090, cc_useReconnect := True, cc_reconnectMs := 5000\<rparr>)
        in (SILOG_OK, g\<lparr>rc_config := cfg, rc_socketFd := -1, rc_isConnected := False, rc_recvOffset := 0,
              rc_isInit := True\<rparr>))"

definition SilogRemoteClientDisconnect :: "SilogRemoteClientCtx \<Rightarrow> SilogRemoteClientCtx" where
  "SilogRemoteClientDisconnect g =
     (if \<not> rc_isInit g then g
      else
        let g1 = (if rc_socketFd g \<ge> 0
                  then g\<lparr>rc_fds := rc_fds g - {rc_socketFd g}, rc_socketFd := -1\<rparr> else g)
        in g1\<lparr>rc_isConnected := False, rc_recvOffset := 0\<rparr>)"

definition SilogRemoteClientDeinit :: "SilogRemoteClientCtx \<Rightarrow> SilogRemoteClientCtx" where
  "SilogRemoteClientDeinit g =
     (if \<not> rc_isInit g then g
      else (SilogRemoteClientDisconnect g)\<lparr>rc_isInit := False, rc_recvOffset := 0\<rparr>)"

text \<open>\<open>sock\<close>, \<open>pton\<close> and \<open>connect\<close> are the results of the three calls, the last two by their argument.\<close>

definition SilogRemoteClientConnect ::
  "int \<Rightarrow> (byte list \<Rightarrow> int) \<Rightarrow> (u16 \<Rightarrow> int) \<Rightarrow> (int \<Rightarrow> fcntl_cmd \<Rightarrow> int) \<Rightarrow> SilogRemoteClientCtx \<Rightarrow>
   ErrorCode \<times> SilogRemoteClientCtx" where
  "SilogRemoteClientConnect sock pton connect fcntl g =
     (if \<not> rc_isInit g then (SILOG_TRANS_NOT_INIT, g)
      else if rc_isConnected g then (SILOG_OK, g)
      else if sock < 0 then (SILOG_NET_FILE_CREATE, g\<lparr>rc_socketFd := sock\<rparr>)
      else
        let g1 = g\<lparr>rc_socketFd := sock, rc_fds := insert sock (rc_fds g)\<rparr>;
            undo = g1\<lparr>rc_fds := rc_fds g1 - {sock}, rc_socketFd := -1\<rparr>
        in if pton (cc_serverAddr (rc_config g1)) \<le> 0 then (SILOG_INVALID_ARG, undo)
           else if connect (cc_serverPort (rc_config g1)) < 0 then (SILOG_NET_CONNECT, undo)
           else let ignored = SilogRemoteClientSetNonblock fcntl sock
                in (SILOG_OK, g1\<lparr>rc_isConnected := True, rc_recvOffset := 0\<rparr>))"

definition SilogRemoteClientIsConnected :: "SilogRemoteClientCtx \<Rightarrow> bool" where
  "SilogRemoteClientIsConnected g = (rc_isInit g \<and> rc_isConnected g)"

definition SilogRemoteClientIsInit :: "SilogRemoteClientCtx \<Rightarrow> bool" where
  "SilogRemoteClientIsInit g = rc_isInit g"

text \<open>The \<open>while\<close> loop over complete packets; the entries passed to the callback are collected.\<close>

definition zero_entry :: logEntry_t where
  "zero_entry = \<lparr>le_ts = 0, le_pid = 0, le_tid = 0, le_level = 0, le_tag = replicate 32 0,
     le_file = replicate 64 0, le_line = 0, le_msg = replicate 256 0, le_msgLen = 0, le_enabled = 0\<rparr>"

function packet_loop ::
  "byte list \<Rightarrow> nat \<Rightarrow> logEntry_t list \<Rightarrow> (byte list \<times> nat \<times> logEntry_t list) c_result" where
  "packet_loop recvBuf recvOffset calls =
     (if recvOffset \<ge> SILOG_REMOTE_ENTRY_SIZE then do {
        (deserRet, entry) \<leftarrow> SilogRemoteDeserializeEntry (Some recvBuf) SILOG_REMOTE_ENTRY_SIZE (Some zero_entry);
        let calls' = (case entry of Some e \<Rightarrow> if deserRet = SILOG_OK then calls @ [e] else calls | None \<Rightarrow> calls);
        let remaining = recvOffset - SILOG_REMOTE_ENTRY_SIZE;
        recvBuf' \<leftarrow> (if remaining > 0
          then do { (r, b) \<leftarrow> memmove_s recvBuf (Some 0) 377 (Some 377) remaining; Some b }
          else Some recvBuf);
        packet_loop recvBuf' remaining calls'
      }
      else Some (recvBuf, recvOffset, calls))"
  by pat_completeness auto
termination
  by (relation "measure (\<lambda>(recvBuf, recvOffset, calls). recvOffset)") auto

declare packet_loop.simps [simp del]

datatype select_result = SelectFail bool | SelectTimeout | SelectReady
datatype recv_result = RecvFail bool | RecvClosed | RecvData "byte list"

text \<open>
  The time \<open>select\<close> may wait, seconds and microseconds, or \<open>None\<close> to wait without a limit. A descriptor
  that is no bit of an \<open>fd_set\<close>, whose size is 1024, makes \<open>FD_SET\<close> write outside of it.
\<close>

definition timeval_of :: "u32 \<Rightarrow> (u32 \<times> u32) option" where
  "timeval_of timeoutMs = (if timeoutMs > 0 then Some (timeoutMs div 1000, (timeoutMs mod 1000) * 1000) else None)"

definition fd_set_ok :: "int \<Rightarrow> bool" where
  "fd_set_ok fd \<longleftrightarrow> 0 \<le> fd \<and> fd < 1024"

text \<open>
  \<open>select\<close> is the outcome by the time it may wait, \<open>SelectFail True\<close> an interrupted call, \<open>RecvFail True\<close>
  one that would block; \<open>recv n\<close> is the outcome of asking for at most \<open>n\<close> bytes. The result is the code,
  the entries given to the callback and the new context.
\<close>

definition SilogRemoteClientReceive ::
  "((u32 \<times> u32) option \<Rightarrow> select_result) \<Rightarrow> (nat \<Rightarrow> recv_result) \<Rightarrow> bool \<Rightarrow> u32 \<Rightarrow> SilogRemoteClientCtx \<Rightarrow>
   (ErrorCode \<times> logEntry_t list \<times> SilogRemoteClientCtx) c_result" where
  "SilogRemoteClientReceive select recv callback timeoutMs g =
     (if \<not> rc_isInit g then Some (SILOG_TRANS_NOT_INIT, [], g)
      else if \<not> rc_isConnected g then Some (SILOG_NET_CLOSED, [], g)
      else if \<not> callback then Some (SILOG_NULL_PTR, [], g)
      else if \<not> fd_set_ok (rc_socketFd g) then None
      else (case select (timeval_of timeoutMs) of
          SelectFail intr \<Rightarrow> if intr then Some (SILOG_NET_TIMEOUT, [], g)
            else Some (SILOG_NET_FILE_ERROR, [], SilogRemoteClientDisconnect g)
        | SelectTimeout \<Rightarrow> Some (SILOG_NET_TIMEOUT, [], g)
        | SelectReady \<Rightarrow>
            let needed = SILOG_REMOTE_ENTRY_SIZE - rc_recvOffset g
            in (case recv needed of
                RecvFail again \<Rightarrow> if again then Some (SILOG_NET_TIMEOUT, [], g)
                  else Some (SILOG_NET_RECV, [], SilogRemoteClientDisconnect g)
              | RecvClosed \<Rightarrow> Some (SILOG_NET_CLOSED, [], SilogRemoteClientDisconnect g)
              | RecvData bs \<Rightarrow> do {
                  buf \<leftarrow> store (rc_recvBuf g) (rc_recvOffset g) bs;
                  (buf', off', calls) \<leftarrow> packet_loop buf (rc_recvOffset g + length bs) [];
                  Some (SILOG_OK, calls, g\<lparr>rc_recvBuf := buf', rc_recvOffset := off'\<rparr>)
                })))"

section \<open>Frames in a stream\<close>

function full_frames :: "nat \<Rightarrow> 'b list \<Rightarrow> 'b list list" where
  "full_frames n bs = (if n = 0 \<or> length bs < n then [] else take n bs # full_frames n (drop n bs))"
  by pat_completeness auto
termination
  by (relation "measure (\<lambda>(n, bs). length bs)") auto

declare full_frames.simps [simp del]

lemma full_frames_short [simp]: "length bs < n \<Longrightarrow> full_frames n bs = []"
  by (simp add: full_frames.simps)

lemma full_frames_cons: "length xs = n \<Longrightarrow> 0 < n \<Longrightarrow> full_frames n (xs @ ys) = xs # full_frames n ys"
  by (simp add: full_frames.simps [of n "xs @ ys"])

text \<open>The complete frames in an initial part of a sequence of frames.\<close>

lemma full_frames_prefix:
  assumes "0 < n" and "\<forall>f \<in> set fs. length f = n" and "used @ rest = concat fs"
  shows "full_frames n used = take (length used div n) fs"
  using assms(2,3)
proof (induction fs arbitrary: used)
  case Nil
  then show ?case using assms(1) by simp
next
  case (Cons f fs)
  show ?case
  proof (cases "length used < n")
    case True
    then show ?thesis by simp
  next
    case False
    have f: "length f = n" using Cons.prems(1) by simp
    have "used @ rest = f @ concat fs" using Cons.prems(2) by simp
    then obtain u where u: "used = f @ u" "u @ rest = concat fs"
      using False f by (auto simp: append_eq_append_conv2)
    have "full_frames n u = take (length u div n) fs" using Cons.IH [OF _ u(2)] Cons.prems(1) by simp
    moreover have "length used div n = Suc (length u div n)" using u(1) f assms(1) by (simp add: div_add_self1)
    ultimately show ?thesis using u(1) full_frames_cons [OF f assms(1)] by simp
  qed
qed

text \<open>
  A run of a reader on a stream: each turn hands over at least one and at most \<open>Suc k\<close> bytes, never
  more than the reader asks for. The result is the state, the bytes not yet read and the messages.
\<close>

fun pump ::
  "('s \<Rightarrow> nat) \<Rightarrow> ('s \<Rightarrow> 'b list \<Rightarrow> ('s \<times> 'm list) option) \<Rightarrow> nat list \<Rightarrow> 'b list \<Rightarrow> 's \<Rightarrow>
   ('s \<times> 'b list \<times> 'm list) option" where
  "pump need step [] bs s = Some (s, bs, [])"
| "pump need step (k # ks) bs s =
     (if bs = [] then Some (s, bs, [])
      else let n = min (Suc k) (need s)
           in do {
             (s', ms) \<leftarrow> step s (take n bs);
             (s'', rest, ms') \<leftarrow> pump need step ks (drop n bs) s';
             Some (s'', rest, ms @ ms')
           })"

text \<open>
  The contract of a reader of frames of \<open>fsize\<close> bytes: it keeps fewer than \<open>fsize\<close> bytes pending,
  adds what it is given, and hands over the message when the frame is complete.
\<close>

locale frame_reader =
  fixes fsize :: nat and inv :: "'s \<Rightarrow> bool" and pending :: "'s \<Rightarrow> 'b list"
    and step :: "'s \<Rightarrow> 'b list \<Rightarrow> ('s \<times> 'm list) option" and dec :: "'b list \<Rightarrow> 'm"
  assumes fsize_pos: "0 < fsize"
    and pending_short: "inv s \<Longrightarrow> length (pending s) < fsize"
    and step_partial: "inv s \<Longrightarrow> bs \<noteq> [] \<Longrightarrow> length (pending s @ bs) < fsize \<Longrightarrow>
      \<exists>s'. step s bs = Some (s', []) \<and> inv s' \<and> pending s' = pending s @ bs"
    and step_complete: "inv s \<Longrightarrow> bs \<noteq> [] \<Longrightarrow> length (pending s @ bs) = fsize \<Longrightarrow>
      \<exists>s'. step s bs = Some (s', [dec (pending s @ bs)]) \<and> inv s' \<and> pending s' = []"
begin

definition need :: "'s \<Rightarrow> nat" where
  "need s = fsize - length (pending s)"

text \<open>One step, in the same form whether or not it completes a frame.\<close>

lemma step_frames:
  assumes "inv s" and "bs \<noteq> []" and "length (pending s @ bs) \<le> fsize"
  shows "\<exists>s'. step s bs = Some (s', map dec (full_frames fsize (pending s @ bs))) \<and> inv s' \<and>
    (\<forall>us. full_frames fsize (pending s @ bs @ us) = full_frames fsize (pending s @ bs) @ full_frames fsize (pending s' @ us)) \<and>
    (\<forall>n. (length (pending s') + n) mod fsize = (length (pending s @ bs) + n) mod fsize)"
proof (cases "length (pending s @ bs) < fsize")
  case True
  then show ?thesis using step_partial [OF assms(1,2) True] by auto
next
  case False
  then have full: "length (pending s @ bs) = fsize" using assms(3) by simp
  have "full_frames fsize ((pending s @ bs) @ us) = (pending s @ bs) # full_frames fsize us" for us
    using full_frames_cons [OF full fsize_pos] .
  from this this [of "[]"] show ?thesis
    using step_complete [OF assms(1,2) full] fsize_pos unfolding full by auto
qed

lemma pump_frames:
  assumes "inv s"
  shows "\<exists>s' used rest. pump need step ks bs s = Some (s', rest, map dec (full_frames fsize (pending s @ used))) \<and>
    inv s' \<and> bs = used @ rest \<and>
    length (pending s') = (length (pending s) + length used) mod fsize"
  using assms
proof (induction ks arbitrary: bs s)
  case Nil
  then show ?case using pending_short [OF Nil] by (intro exI [of _ s] exI [of _ "[]"] exI [of _ bs]) simp
next
  case (Cons k ks)
  note short = pending_short [OF Cons.prems]
  show ?case
  proof (cases "bs = []")
    case True
    then show ?thesis using short Cons.prems by (intro exI [of _ s] exI [of _ "[]"]) simp
  next
    case False
    let ?n = "min (Suc k) (need s)"
    let ?c = "take ?n bs"
    have c: "?c \<noteq> []" "length (pending s @ ?c) \<le> fsize" using False short by (auto simp: need_def)
    obtain s1 where s1: "step s ?c = Some (s1, map dec (full_frames fsize (pending s @ ?c)))" "inv s1"
        "\<And>us. full_frames fsize (pending s @ ?c @ us) = full_frames fsize (pending s @ ?c) @ full_frames fsize (pending s1 @ us)"
        "\<And>n. (length (pending s1) + n) mod fsize = (length (pending s @ ?c) + n) mod fsize"
      using step_frames [OF Cons.prems c] by blast
    from Cons.IH [OF s1(2), of "drop ?n bs"] obtain s' used rest where
      IH: "pump need step ks (drop ?n bs) s1 = Some (s', rest, map dec (full_frames fsize (pending s1 @ used)))"
        "inv s'" "drop ?n bs = used @ rest" "length (pending s') = (length (pending s1) + length used) mod fsize"
      by blast
    have "bs = (?c @ used) @ rest" using IH(3) append_take_drop_id [of ?n bs] by simp
    moreover have "length (pending s') = (length (pending s) + length (?c @ used)) mod fsize"
      unfolding IH(4) s1(4) by (simp add: add.assoc)
    ultimately show ?thesis
      using False s1 IH by (intro exI [of _ s'] exI [of _ "?c @ used"] exI [of _ rest]) (simp add: Let_def)
  qed
qed

end

section \<open>The client as a reader of frames\<close>

definition client_ready :: "SilogRemoteClientCtx \<Rightarrow> bool" where
  "client_ready g \<longleftrightarrow> rc_isInit g \<and> rc_isConnected g \<and> fd_set_ok (rc_socketFd g) \<and>
     length (rc_recvBuf g) = 377 \<and> rc_recvOffset g < 377"

definition client_pending :: "SilogRemoteClientCtx \<Rightarrow> byte list" where
  "client_pending g = take (rc_recvOffset g) (rc_recvBuf g)"

definition client_step ::
  "SilogRemoteClientCtx \<Rightarrow> byte list \<Rightarrow> (SilogRemoteClientCtx \<times> logEntry_t list) option" where
  "client_step g bs = (case SilogRemoteClientReceive (\<lambda>t. SelectReady) (\<lambda>n. RecvData bs) True 100 g of
     Some (r, calls, g') \<Rightarrow> Some (g', calls) | None \<Rightarrow> None)"

definition decode :: "byte list \<Rightarrow> logEntry_t" where
  "decode bs = (case SilogRemoteDeserializeEntry (Some bs) 377 (Some zero_entry) of
     Some (SILOG_OK, Some e) \<Rightarrow> e | _ \<Rightarrow> zero_entry)"

lemma decode_bytes: "entry_ok e \<Longrightarrow> decode (entry_bytes e) = received e"
  by (simp add: decode_def deserialize_bytes)

lemma deserialize_377:
  assumes "length bs = 377"
  shows "SilogRemoteDeserializeEntry (Some bs) 377 (Some zero_entry) = Some (SILOG_OK, Some (decode bs))"
  using assms by (simp add: decode_def SilogRemoteDeserializeEntry_def load_def Let_def)

lemma packet_loop_incomplete: "off < 377 \<Longrightarrow> packet_loop buf off calls = Some (buf, off, calls)"
  by (simp add: packet_loop.simps)

lemma packet_loop_complete:
  assumes "length buf = 377"
  shows "packet_loop buf 377 calls = Some (buf, 0, calls @ [decode buf])"
  using deserialize_377 [OF assms] packet_loop_incomplete [of 0 buf]
  by (simp add: packet_loop.simps [of buf 377])

lemma receive_store:
  assumes "client_ready g" and "length (client_pending g @ bs) \<le> 377"
  shows "store (rc_recvBuf g) (rc_recvOffset g) bs = Some (overwrite (rc_recvOffset g) bs (rc_recvBuf g))"
    and "length (overwrite (rc_recvOffset g) bs (rc_recvBuf g)) = 377"
    and "take (rc_recvOffset g + length bs) (overwrite (rc_recvOffset g) bs (rc_recvBuf g)) = client_pending g @ bs"
  using assms by (simp_all add: client_ready_def client_pending_def store_def overwrite_def)

interpretation client: frame_reader 377 client_ready client_pending client_step decode
proof (unfold_locales, goal_cases)
  case 1
  show ?case by simp
next
  case (2 g)
  then show ?case by (simp add: client_ready_def client_pending_def)
next
  case (3 g bs)
  have off: "rc_recvOffset g + length bs < 377"
    using 3 by (simp add: client_ready_def client_pending_def)
  let ?b = "overwrite (rc_recvOffset g) bs (rc_recvBuf g)"
  let ?g = "g\<lparr>rc_recvBuf := ?b, rc_recvOffset := rc_recvOffset g + length bs\<rparr>"
  note st = receive_store [OF 3(1), of bs]
  have "client_step g bs = Some (?g, [])"
    using 3 st(1) packet_loop_incomplete [OF off]
    by (simp add: client_step_def SilogRemoteClientReceive_def client_ready_def Let_def)
  then show ?case
    using 3 st off by (auto simp: client_ready_def client_pending_def)
next
  case (4 g bs)
  have off: "rc_recvOffset g + length bs = 377"
    using 4 by (simp add: client_ready_def client_pending_def)
  let ?b = "overwrite (rc_recvOffset g) bs (rc_recvBuf g)"
  let ?g = "g\<lparr>rc_recvBuf := ?b, rc_recvOffset := 0\<rparr>"
  note st = receive_store [OF 4(1), of bs]
  have b: "?b = client_pending g @ bs" "length ?b = 377" using st(2,3) 4(3) off by simp_all
  have "client_step g bs = Some (?g, [decode ?b])"
    using 4 st(1) packet_loop_complete [OF b(2), of "[]"] off
    by (simp add: client_step_def SilogRemoteClientReceive_def client_ready_def Let_def)
  then show ?case
    using 4 b by (auto simp: client_ready_def client_pending_def)
qed

text \<open>The number of bytes the client asks for.\<close>

lemma client_need: "client.need = (\<lambda>g. 377 - length (client_pending g))"
  by (simp add: fun_eq_iff client.need_def)

section \<open>Connection state\<close>

text \<open>
  The client owns its socket exactly while it is connected, and the receive buffer never holds a
  complete frame between two calls.
\<close>

definition client_ok :: "SilogRemoteClientCtx \<Rightarrow> bool" where
  "client_ok g \<longleftrightarrow> length (rc_recvBuf g) = 377 \<and> rc_recvOffset g < 377 \<and>
     (rc_isConnected g \<longrightarrow> rc_isInit g \<and> fd_set_ok (rc_socketFd g)) \<and>
     (\<not> rc_isConnected g \<longrightarrow> rc_socketFd g < 0) \<and>
     rc_fds g = (if rc_isConnected g then {rc_socketFd g} else {})"

lemma disconnect_ok:
  "client_ok g \<Longrightarrow> client_ok (SilogRemoteClientDisconnect g) \<and>
   (rc_isInit g \<longrightarrow> rc_fds (SilogRemoteClientDisconnect g) = {})"
  by (auto simp: client_ok_def SilogRemoteClientDisconnect_def fd_set_ok_def Let_def)

lemma receive_ok:
  assumes ok: "client_ok g" and rv: "\<forall>n bs. recv n = RecvData bs \<longrightarrow> bs \<noteq> [] \<and> length bs \<le> n"
  shows "\<exists>r calls g'. SilogRemoteClientReceive sel recv cb timeoutMs g = Some (r, calls, g') \<and> client_ok g'"
proof (cases "rc_isConnected g \<and> rc_isInit g \<and> cb \<and> sel (timeval_of timeoutMs) = SelectReady \<and>
    (\<exists>bs. recv (377 - rc_recvOffset g) = RecvData bs)")
  case True
  then obtain bs where bs: "recv (377 - rc_recvOffset g) = RecvData bs" by blast
  have rd: "client_ready g" using ok True by (simp add: client_ready_def client_ok_def)
  then have fd: "fd_set_ok (rc_socketFd g)" by (simp add: client_ready_def)
  have le: "length (client_pending g @ bs) \<le> 377" "bs \<noteq> []"
    using rv bs rd by (fastforce simp: client_pending_def client_ready_def)+
  have st: "\<exists>g' calls. client_step g bs = Some (g', calls) \<and> client_ready g'"
    using client.step_partial [OF rd le(2)] client.step_complete [OF rd le(2)] le(1)
    by (cases "length (client_pending g @ bs) = 377") auto
  then obtain g' calls where "client_step g bs = Some (g', calls)" "client_ready g'" by blast
  moreover have "SilogRemoteClientReceive sel recv cb timeoutMs g =
      SilogRemoteClientReceive (\<lambda>t. SelectReady) (\<lambda>n. RecvData bs) True 100 g"
    using True bs fd by (simp add: SilogRemoteClientReceive_def Let_def)
  ultimately obtain r where r: "SilogRemoteClientReceive sel recv cb timeoutMs g = Some (r, calls, g')"
    by (auto simp: client_step_def split: option.splits)
  have "rc_isConnected g' = rc_isConnected g" "rc_isInit g' = rc_isInit g" "rc_socketFd g' = rc_socketFd g"
    "rc_fds g' = rc_fds g"
    using r True bs fd by (auto simp: SilogRemoteClientReceive_def Let_def bind_eq_Some_conv)
  then have "client_ok g'" using ok \<open>client_ready g'\<close> by (auto simp: client_ok_def client_ready_def)
  then show ?thesis using r by blast
next
  case False
  moreover have "rc_isConnected g \<longrightarrow> fd_set_ok (rc_socketFd g)" using ok by (simp add: client_ok_def)
  ultimately show ?thesis
    using ok disconnect_ok [OF ok] by (auto simp: SilogRemoteClientReceive_def Let_def
        split: select_result.splits recv_result.splits)
qed

text \<open>
  The time is handed over without loss and in the range the call asks for; a descriptor of 1024 or more
  is not checked before it is put into the set.
\<close>

lemma timeval_of_exact:
  assumes "timeval_of ms = Some (s, us)"
  shows "unat s * 1000000 + unat us = unat ms * 1000 \<and> unat us < 1000000"
proof -
  have e: "s = ms div 1000" "us = (ms mod 1000) * 1000" using assms by (auto simp: timeval_of_def split: if_splits)
  have "unat (ms mod 1000) < 1000" by (simp add: unat_mod_distrib)
  then have "unat us = unat ms mod 1000 * 1000" unfolding e by (simp add: unat_word_ariths unat_mod_distrib)
  moreover have "unat s = unat ms div 1000" unfolding e by (simp add: unat_div_distrib)
  moreover have "unat ms mod 1000 < 1000" by simp
  ultimately show ?thesis using div_mult_mod_eq [of "unat ms" 1000] by linarith
qed

lemma SilogRemoteClientReceive_fd_set:
  assumes "rc_isInit g" and "rc_isConnected g" and "1024 \<le> rc_socketFd g"
  shows "SilogRemoteClientReceive select recv True timeoutMs g = None"
  using assms by (simp add: SilogRemoteClientReceive_def fd_set_ok_def)

text \<open>A run on the frames of proper entries.\<close>

lemma client_reassembles:
  assumes "client_ready g" and "rc_recvOffset g = 0" and "\<forall>e \<in> set es. entry_ok e"
  shows "\<exists>g' used rest. pump (\<lambda>g. 377 - length (client_pending g)) client_step ks (concat (map entry_bytes es)) g =
      Some (g', rest, map received (take (length used div 377) es)) \<and>
    concat (map entry_bytes es) = used @ rest \<and> client_ready g' \<and>
    length (client_pending g') = length used mod 377"
proof -
  let ?bs = "concat (map entry_bytes es)"
  have p: "client_pending g = []" using assms(2) by (simp add: client_pending_def)
  obtain g' used rest where run: "pump client.need client_step ks ?bs g =
      Some (g', rest, map decode (full_frames 377 used))" "client_ready g'" "?bs = used @ rest"
      "length (client_pending g') = length used mod 377"
    using client.pump_frames [OF assms(1), of ks ?bs] p by auto
  have lens: "\<forall>f \<in> set (map entry_bytes es). length f = 377"
    using assms(3) by (auto simp: entry_ok_def length_entry_bytes)
  have "full_frames 377 used = take (length used div 377) (map entry_bytes es)"
    by (rule full_frames_prefix [OF _ lens, of used rest]) (simp_all add: run(3))
  then have "map decode (full_frames 377 used) = map received (take (length used div 377) es)"
    using assms(3) by (auto simp: take_map decode_bytes dest: in_set_takeD)
  then show ?thesis using run client_need by metis
qed

text \<open>A connected client with an empty buffer, for the concrete runs below.\<close>

definition connected_client :: SilogRemoteClientCtx where
  "connected_client = g_silogRemoteClient\<lparr>rc_isInit := True, rc_isConnected := True, rc_socketFd := 4, rc_fds := {4}\<rparr>"

section \<open>Properties\<close>



end
