(* ===== verification/Silog_Cat.thy ===== *)
theory Silog_Cat
  imports Silog_Remote_Client Silog_Time Silog_Prelog
begin

text \<open>
  The viewer (\<open>silog_cat/src/silog_cat.c\<close>): it parses its arguments, connects to the daemon's remote
  service and prints the entries that pass the level and tag filters. The record holds the globals of
  the program, what it has written to its two output streams and the context of the remote client. One
  turn of the main loop is one step; the outcomes of the system calls of the turn are arguments.
\<close>

section \<open>State\<close>

record SilogCatConfig =
  sc_serverAddr :: "byte list"
  sc_serverPort :: u16
  sc_filterTag :: "byte list"
  sc_minLevel :: u32
  sc_useColor :: bool

record silogcat =
  ct_config :: SilogCatConfig
  ct_running :: bool
  ct_client :: SilogRemoteClientCtx
  ct_prelog :: SilogPrelogManager_t
  ct_out :: prelog_out
  ct_wasConnected :: bool
  ct_stdout :: "byte list"
  ct_stderr :: "byte list"

definition g_silogCatConfig :: SilogCatConfig where
  "g_silogCatConfig = \<lparr>sc_serverAddr = chars ''127.0.0.1'' @ replicate 55 0, sc_serverPort = 9090,
     sc_filterTag = replicate 32 0, sc_minLevel = SILOG_DEBUG, sc_useColor = False\<rparr>"

definition cat_print :: "byte list \<Rightarrow> silogcat \<Rightarrow> silogcat" where
  "cat_print t c = c\<lparr>ct_stdout := ct_stdout c @ t\<rparr>"

definition cat_error :: "byte list \<Rightarrow> silogcat \<Rightarrow> silogcat" where
  "cat_error t c = c\<lparr>ct_stderr := ct_stderr c @ t\<rparr>"

section \<open>The C library\<close>

text \<open>\<open>strcasecmp\<close> as a test for equality, \<open>strstr\<close> as a test for an occurrence.\<close>

definition c_tolower :: "byte \<Rightarrow> byte" where
  "c_tolower b = (if 65 \<le> b \<and> b \<le> 90 then b + 32 else b)"

definition same_letters :: "byte list \<Rightarrow> byte list \<Rightarrow> bool" where
  "same_letters a b \<longleftrightarrow> map c_tolower a = map c_tolower b"

fun occurs :: "byte list \<Rightarrow> byte list \<Rightarrow> bool" where
  "occurs t [] \<longleftrightarrow> t = []"
| "occurs t (c # cs) \<longleftrightarrow> take (length t) (c # cs) = t \<or> occurs t cs"

text \<open>\<open>%wd\<close>, padded with blanks\<close>

definition int_blank :: "nat \<Rightarrow> int \<Rightarrow> byte list" where
  "int_blank w i = replicate (w - length (dec_int i)) 32 @ dec_int i"

section \<open>Arguments\<close>

definition SilogCatSignalHandler :: "silogcat \<Rightarrow> silogcat" where
  "SilogCatSignalHandler c = c\<lparr>ct_running := False\<rparr>"

definition SilogCatPrintUsage :: "byte list \<Rightarrow> silogcat \<Rightarrow> silogcat" where
  "SilogCatPrintUsage program = cat_print
     (chars ''Usage: '' @ program @ chars '' [options]'' @ [10] @
      [10] @ chars ''Options:'' @ [10] @
      chars ''  -h, --help           Show this help message'' @ [10] @
      chars ''  -s, --server <addr>  Server address (default: 127.0.0.1)'' @ [10] @
      chars ''  -p, --port <port>    Server port (default: 9090)'' @ [10] @
      chars ''  -t, --tag <tag>      Filter by tag'' @ [10] @
      chars ''  -l, --level <level>  Minimum log level (DEBUG, INFO, WARN, ERROR, FATAL)'' @ [10] @
      chars ''  -c, --color          Enable colored output'' @ [10] @
      [10])"

definition SilogCatParseLevel :: "byte list \<Rightarrow> u32" where
  "SilogCatParseLevel levelStr =
     (if same_letters levelStr (chars ''DEBUG'') \<or> same_letters levelStr (chars ''D'') then SILOG_DEBUG
      else if same_letters levelStr (chars ''INFO'') \<or> same_letters levelStr (chars ''I'') then SILOG_INFO
      else if same_letters levelStr (chars ''WARN'') \<or> same_letters levelStr (chars ''W'') then SILOG_WARN
      else if same_letters levelStr (chars ''ERROR'') \<or> same_letters levelStr (chars ''E'') then SILOG_ERROR
      else if same_letters levelStr (chars ''FATAL'') \<or> same_letters levelStr (chars ''F'') then SILOG_FATAL
      else SILOG_DEBUG)"

text \<open>The ways the parsing ends: \<open>exit(0)\<close>, \<open>return 0\<close> and \<open>return -1\<close>.\<close>

datatype args_result = ArgsExit | ArgsOk | ArgsError

definition copy_arg :: "byte list \<Rightarrow> byte list \<Rightarrow> nat \<Rightarrow> byte list c_result" where
  "copy_arg dest src n = do { b \<leftarrow> c_strncpy dest src (n - 1); store b (n - 1) [0] }"

text \<open>The loop over \<open>argv\<close>, on the arguments that are left.\<close>

fun parse_args :: "byte list \<Rightarrow> byte list list \<Rightarrow> silogcat \<Rightarrow> (args_result \<times> silogcat) c_result" where
  "parse_args program [] c = Some (ArgsOk, c)"
| "parse_args program (a # rest) c =
     (let cfg = ct_config c
      in if a = chars ''-h'' \<or> a = chars ''--help'' then Some (ArgsExit, SilogCatPrintUsage program c)
         else if a = chars ''-s'' \<or> a = chars ''--server'' then
           (case rest of
              [] \<Rightarrow> Some (ArgsError, cat_error (chars ''Error: -s requires an argument'' @ [10]) c)
            | v # rest' \<Rightarrow> do {
                b \<leftarrow> copy_arg (sc_serverAddr cfg) v 64;
                parse_args program rest' (c\<lparr>ct_config := cfg\<lparr>sc_serverAddr := b\<rparr>\<rparr>) })
         else if a = chars ''-p'' \<or> a = chars ''--port'' then
           (case rest of
              [] \<Rightarrow> Some (ArgsError, cat_error (chars ''Error: -p requires an argument'' @ [10]) c)
            | v # rest' \<Rightarrow> do {
                i \<leftarrow> c_atoi v;
                parse_args program rest' (c\<lparr>ct_config := cfg\<lparr>sc_serverPort := word_of_int i\<rparr>\<rparr>) })
         else if a = chars ''-t'' \<or> a = chars ''--tag'' then
           (case rest of
              [] \<Rightarrow> Some (ArgsError, cat_error (chars ''Error: -t requires an argument'' @ [10]) c)
            | v # rest' \<Rightarrow> do {
                b \<leftarrow> copy_arg (sc_filterTag cfg) v 32;
                parse_args program rest' (c\<lparr>ct_config := cfg\<lparr>sc_filterTag := b\<rparr>\<rparr>) })
         else if a = chars ''-l'' \<or> a = chars ''--level'' then
           (case rest of
              [] \<Rightarrow> Some (ArgsError, cat_error (chars ''Error: -l requires an argument'' @ [10]) c)
            | v # rest' \<Rightarrow> parse_args program rest' (c\<lparr>ct_config := cfg\<lparr>sc_minLevel := SilogCatParseLevel v\<rparr>\<rparr>))
         else if a = chars ''-c'' \<or> a = chars ''--color'' then
           parse_args program rest (c\<lparr>ct_config := cfg\<lparr>sc_useColor := True\<rparr>\<rparr>)
         else Some (ArgsError, SilogCatPrintUsage program (cat_error (chars ''Unknown option: '' @ a @ [10]) c)))"

definition SilogCatParseArgs :: "byte list list \<Rightarrow> silogcat \<Rightarrow> (args_result \<times> silogcat) c_result" where
  "SilogCatParseArgs argv c = parse_args (hd argv) (tl argv) c"

section \<open>Printing an entry\<close>

definition cat_time_text :: "tm \<Rightarrow> u64 \<Rightarrow> byte list" where
  "cat_time_text tm ms =
     int_pad 2 (tm_mon tm + 1) @ chars ''-'' @ int_pad 2 (tm_mday tm) @ chars '' '' @ int_pad 2 (tm_hour tm) @ chars '':'' @
     int_pad 2 (tm_min tm) @ chars '':'' @ int_pad 2 (tm_sec tm) @ chars ''.'' @ int_pad 3 (int (unat ms))"

text \<open>\<open>localtime_r\<close> leaves its result unset when it fails; reading it then is undefined.\<close>

definition SilogCatFormatTime :: "(u64 \<Rightarrow> tm option) \<Rightarrow> u64 \<Rightarrow> byte list \<Rightarrow> nat \<Rightarrow> byte list c_result" where
  "SilogCatFormatTime localtime ts buf bufSize = do {
     tm \<leftarrow> localtime (ts div 1000);
     (n, b) \<leftarrow> c_vsnprintf buf 0 bufSize (Rendered (cat_time_text tm (ts mod 1000)));
     Some b
   }"

definition ansi :: "string \<Rightarrow> byte list" where
  "ansi n = 27 # chars ''['' @ chars n @ chars ''m''"

definition SilogCatGetLevelColor :: "SilogCatConfig \<Rightarrow> u32 \<Rightarrow> byte list" where
  "SilogCatGetLevelColor cfg level =
     (if \<not> sc_useColor cfg then []
      else if level = SILOG_DEBUG then ansi ''36''
      else if level = SILOG_INFO then ansi ''32''
      else if level = SILOG_WARN then ansi ''33''
      else if level = SILOG_ERROR then ansi ''31''
      else if level = SILOG_FATAL then ansi ''35''
      else [])"

definition g_levelChars :: "byte list" where
  "g_levelChars = chars ''DIWEF''"

text \<open>The callback of the remote client.\<close>

definition SilogCatPrintLog :: "(u64 \<Rightarrow> tm option) \<Rightarrow> logEntry_t \<Rightarrow> silogcat \<Rightarrow> silogcat c_result" where
  "SilogCatPrintLog localtime entry c =
     (let cfg = ct_config c
      in if le_level entry < sc_minLevel cfg then Some c
         else do {
           skip \<leftarrow> (if sc_filterTag cfg ! 0 \<noteq> 0
             then do { tag \<leftarrow> array_string (le_tag entry); filt \<leftarrow> array_string (sc_filterTag cfg); Some (\<not> occurs filt tag) }
             else Some False);
           if skip then Some c
           else do {
             timebuf \<leftarrow> SilogCatFormatTime localtime (le_ts entry) (replicate 32 0) 32;
             let levelChar = (if le_level entry < 5 then g_levelChars ! unat (le_level entry) else 63);
             let color = SilogCatGetLevelColor cfg (le_level entry);
             let reset = (if sc_useColor cfg then ansi ''0'' else []);
             timeStr \<leftarrow> array_string timebuf;
             tag \<leftarrow> array_string (le_tag entry);
             msg \<leftarrow> array_string (le_msg entry);
             fname \<leftarrow> array_string (le_file entry);
             Some (cat_print (timeStr @ chars '' '' @ int_blank 5 (sint (le_pid entry)) @ chars '' '' @
               int_blank 5 (sint (le_tid entry)) @ chars '' '' @ color @ [levelChar] @ reset @ chars ''/'' @ tag @ chars '': '' @
               msg @ chars '' ('' @ fname @ chars '':'' @ dec_int (sint (le_line entry)) @ chars '')'' @ [10]) c)
           }
         })"

fun print_entries :: "(u64 \<Rightarrow> tm option) \<Rightarrow> logEntry_t list \<Rightarrow> silogcat \<Rightarrow> silogcat c_result" where
  "print_entries localtime [] c = Some c"
| "print_entries localtime (e # es) c = do { c' \<leftarrow> SilogCatPrintLog localtime e c; print_entries localtime es c' }"

section \<open>The program\<close>

definition SilogDaemonClientInit :: "(byte list \<Rightarrow> bool) \<Rightarrow> silogcat \<Rightarrow> silogcat" where
  "SilogDaemonClientInit fopen c =
     (case SilogPrelogInit fopen
        (Some \<lparr>pc_path = chars ''/tmp/silog_cat.txt'', pc_minLevel = SILOG_PRELOG_LEVEL_DEBUG, pc_enableStdout = False\<rparr>)
        (ct_prelog c) (ct_out c) of (r, pl, out) \<Rightarrow> c\<lparr>ct_prelog := pl, ct_out := out\<rparr>)"

text \<open>\<open>main\<close> up to the loop: the exit status, or the state the loop starts in.\<close>

definition cat_start :: "(byte list \<Rightarrow> bool) \<Rightarrow> byte list list \<Rightarrow> silogcat \<Rightarrow> (int + unit) c_result \<times> silogcat" where
  "cat_start fopen argv c0 =
     (let c = SilogDaemonClientInit fopen c0
      in case SilogCatParseArgs argv c of
           None \<Rightarrow> (None, c)
         | Some (ArgsExit, c1) \<Rightarrow> (Some (Inl 0), c1)
         | Some (ArgsError, c1) \<Rightarrow> (Some (Inl 1), c1)
         | Some (ArgsOk, c1) \<Rightarrow>
             let cfg = ct_config c1
             in case strncpy_s (replicate 64 0 @ sc_serverAddr cfg) (Some 0) 64 (Some 64) 63 of
                  None \<Rightarrow> (None, c1)
                | Some (r, m) \<Rightarrow>
                    (case SilogRemoteClientInit (Some \<lparr>cc_serverAddr = take 64 m, cc_serverPort = sc_serverPort cfg,
                        cc_useReconnect = True, cc_reconnectMs = 5000\<rparr>) (ct_client c1) of (ret, cl) \<Rightarrow>
                      let c2 = c1\<lparr>ct_client := cl\<rparr>
                      in if ret \<noteq> SILOG_OK then (Some (Inl 1), c2)
                         else (Some (Inr ()), (cat_print
                           (chars ''Connecting to '' @ cstr (sc_serverAddr cfg) @ chars '':'' @ dec (unat (sc_serverPort cfg)) @ chars ''...'' @ [10] @
                            (if sc_filterTag cfg ! 0 \<noteq> 0 then chars ''Filtering tag: '' @ cstr (sc_filterTag cfg) @ [10] else []) @
                            (if sc_minLevel cfg > SILOG_DEBUG then chars ''Min level: '' @ dec (unat (sc_minLevel cfg)) @ [10] else []) @
                            chars ''Press Ctrl+C to exit'' @ [10, 10]) c2)\<lparr>ct_wasConnected := False\<rparr>)))"

record cat_env =
  cv_socket :: int
  cv_pton :: "byte list \<Rightarrow> int"
  cv_connect :: "u16 \<Rightarrow> int"
  cv_fcntl :: "int \<Rightarrow> fcntl_cmd \<Rightarrow> int"
  cv_select :: "(u32 \<times> u32) option \<Rightarrow> select_result"
  cv_recv :: "nat \<Rightarrow> recv_result"
  cv_localtime :: "u64 \<Rightarrow> tm option"

definition cat_receive :: "cat_env \<Rightarrow> silogcat \<Rightarrow> silogcat c_result" where
  "cat_receive env c = do {
     (ret, calls, cl) \<leftarrow> SilogRemoteClientReceive (cv_select env) (cv_recv env) True 100 (ct_client c);
     print_entries (cv_localtime env) calls (c\<lparr>ct_client := cl\<rparr>)
   }"

text \<open>The body of the \<open>while\<close> loop.\<close>

definition cat_turn :: "cat_env \<Rightarrow> silogcat \<Rightarrow> silogcat c_result" where
  "cat_turn env c =
     (if \<not> SilogRemoteClientIsConnected (ct_client c) then
        let c1 = (if ct_wasConnected c
                  then (cat_print ([10] @ chars ''[Disconnected, reconnecting...]'' @ [10]) c)\<lparr>ct_wasConnected := False\<rparr> else c)
        in case SilogRemoteClientConnect (cv_socket env) (cv_pton env) (cv_connect env) (cv_fcntl env) (ct_client c1) of
             (ret, cl) \<Rightarrow>
               let c2 = c1\<lparr>ct_client := cl\<rparr>
               in if ret = SILOG_OK
                  then cat_receive env ((cat_print (chars ''[Connected to '' @ cstr (sc_serverAddr (ct_config c2)) @ chars '':'' @
                      dec (unat (sc_serverPort (ct_config c2))) @ chars '']'' @ [10, 10]) c2)\<lparr>ct_wasConnected := True\<rparr>)
                  else Some c2
      else cat_receive env c)"

text \<open>
  The loop over the turns the program gets, each with the flag that tells whether a signal arrives in
  it, and the end of \<open>main\<close> once the loop has stopped.
\<close>

fun cat_loop :: "(cat_env \<times> bool) list \<Rightarrow> silogcat \<Rightarrow> (int option \<times> silogcat) c_result" where
  "cat_loop [] c =
     (if ct_running c then Some (None, c)
      else let c1 = cat_print ([10] @ chars ''[Shutting down...]'' @ [10]) c
           in Some (Some 0, c1\<lparr>ct_client := SilogRemoteClientDeinit (ct_client c1)\<rparr>))"
| "cat_loop ((env, sig) # turns) c =
     (if ct_running c then do {
        c1 \<leftarrow> cat_turn env c;
        cat_loop turns (if sig then SilogCatSignalHandler c1 else c1)
      }
      else cat_loop [] c)"

section \<open>What is printed\<close>

lemma occurs_iff: "occurs t s \<longleftrightarrow> (\<exists>a b. s = a @ t @ b)"
proof (induction s)
  case (Cons c s)
  have "take (length t) (c # s) = t \<longleftrightarrow> (\<exists>b. c # s = t @ b)" by (metis append_eq_conv_conj append_take_drop_id)
  moreover have "(\<exists>a b. c # s = a @ t @ b) \<longleftrightarrow> (\<exists>b. c # s = t @ b) \<or> (\<exists>a b. s = a @ t @ b)"
    by (auto simp: Cons_eq_append_conv)
  ultimately show ?case using Cons by simp
qed simp

definition cat_shows :: "SilogCatConfig \<Rightarrow> logEntry_t \<Rightarrow> bool" where
  "cat_shows cfg e \<longleftrightarrow> sc_minLevel cfg \<le> le_level e \<and> (\<exists>a b. cstr (le_tag e) = a @ cstr (sc_filterTag cfg) @ b)"

definition cat_time :: "(u64 \<Rightarrow> tm option) \<Rightarrow> u64 \<Rightarrow> byte list" where
  "cat_time localtime ts = (case localtime (ts div 1000) of None \<Rightarrow> [] | Some tm \<Rightarrow> take 31 (cat_time_text tm (ts mod 1000)))"

definition cat_line :: "(u64 \<Rightarrow> tm option) \<Rightarrow> SilogCatConfig \<Rightarrow> logEntry_t \<Rightarrow> byte list" where
  "cat_line localtime cfg e =
     cat_time localtime (le_ts e) @ chars '' '' @ int_blank 5 (sint (le_pid e)) @ chars '' '' @ int_blank 5 (sint (le_tid e)) @ chars '' '' @
     SilogCatGetLevelColor cfg (le_level e) @ [if le_level e < 5 then g_levelChars ! unat (le_level e) else 63] @
     (if sc_useColor cfg then ansi ''0'' else []) @ chars ''/'' @ cstr (le_tag e) @ chars '': '' @ cstr (le_msg e) @ chars '' ('' @
     cstr (le_file e) @ chars '':'' @ dec_int (sint (le_line e)) @ chars '')'' @ [10]"

definition cat_text :: "(u64 \<Rightarrow> tm option) \<Rightarrow> SilogCatConfig \<Rightarrow> logEntry_t list \<Rightarrow> byte list" where
  "cat_text localtime cfg es = concat (map (cat_line localtime cfg) (filter (cat_shows cfg) es))"

definition terminated :: "logEntry_t \<Rightarrow> bool" where
  "terminated e \<longleftrightarrow> 0 \<in> set (le_tag e) \<and> 0 \<in> set (le_msg e) \<and> 0 \<in> set (le_file e)"

definition cat_cfg_ok :: "SilogCatConfig \<Rightarrow> bool" where
  "cat_cfg_ok cfg \<longleftrightarrow> length (sc_serverAddr cfg) = 64 \<and> sc_serverAddr cfg ! 63 = 0 \<and> length (sc_filterTag cfg) = 32 \<and>
     sc_filterTag cfg ! 31 = 0 \<and> sc_minLevel cfg \<le> SILOG_FATAL"

lemma FormatTime_text:
  assumes "localtime (ts div 1000) \<noteq> None"
  shows "\<exists>b. SilogCatFormatTime localtime ts (replicate 32 0) 32 = Some b \<and> array_string b = Some (cat_time localtime ts)"
proof -
  obtain tm where tm: "localtime (ts div 1000) = Some tm" using assms by auto
  let ?t = "cat_time_text tm (ts mod 1000)"
  have z: "0 \<notin> set ?t" using int_pad_no_zero by (simp add: cat_time_text_def chars_def)
  obtain b where b: "c_vsnprintf (replicate 32 0) 0 32 (Rendered ?t) = Some (int (length ?t), b)" "length b = 32" "b ! 31 = 0"
      "cstr b = take 31 ?t"
    using vsnprintf_array [OF _ z, of 32] by auto
  have "0 \<in> set b" using b(2,3) nth_mem [of 31 b] by simp
  then show ?thesis using tm b by (simp add: SilogCatFormatTime_def array_string_def cat_time_def)
qed

lemma PrintLog_text:
  assumes "terminated e" and "cat_cfg_ok (ct_config c)" and "\<forall>t. localtime t \<noteq> None"
  shows "SilogCatPrintLog localtime e c = Some (cat_print (cat_text localtime (ct_config c) [e]) c)"
proof -
  let ?f = "sc_filterTag (ct_config c)"
  have f: "0 \<in> set ?f" using assms(2) nth_mem [of 31 ?f] by (simp add: cat_cfg_ok_def)
  have f0: "?f ! 0 = 0 \<longleftrightarrow> cstr ?f = []" using assms(2) by (cases ?f) (auto simp: cat_cfg_ok_def)
  obtain b where b: "SilogCatFormatTime localtime (le_ts e) (replicate 32 0) 32 = Some b"
      "array_string b = Some (cat_time localtime (le_ts e))"
    using FormatTime_text assms(3) by blast
  have t: "array_string (le_tag e) = Some (cstr (le_tag e))" "array_string (le_msg e) = Some (cstr (le_msg e))"
      "array_string (le_file e) = Some (cstr (le_file e))" "array_string ?f = Some (cstr ?f)"
    using assms(1) f by (simp_all add: array_string_def terminated_def)
  have none: "cat_print [] c = c" by (simp add: cat_print_def)
  have o: "occurs [] (cstr (le_tag e))" "\<exists>a b. cstr (le_tag e) = a @ b" by (auto simp: occurs_iff)
  show ?thesis
  proof (cases "le_level e < sc_minLevel (ct_config c)")
    case True
    then show ?thesis using none by (auto simp: SilogCatPrintLog_def cat_text_def cat_shows_def)
  next
    case False
    then show ?thesis
      using b t f0 o none
      by (cases "occurs (cstr ?f) (cstr (le_tag e))")
        (auto simp: SilogCatPrintLog_def cat_text_def cat_shows_def cat_line_def Let_def occurs_iff [symmetric])
  qed
qed

lemma print_entries_text:
  assumes "\<forall>e \<in> set es. terminated e" and "cat_cfg_ok (ct_config c)" and "\<forall>t. localtime t \<noteq> None"
  shows "print_entries localtime es c = Some (cat_print (cat_text localtime (ct_config c) es) c)"
  using assms(1,2)
proof (induction es arbitrary: c)
  case Nil
  then show ?case by (simp add: cat_print_def cat_text_def)
next
  case (Cons e es)
  let ?c = "cat_print (cat_text localtime (ct_config c) [e]) c"
  have "print_entries localtime es ?c = Some (cat_print (cat_text localtime (ct_config ?c) es) ?c)"
    using Cons.prems by (intro Cons.IH) (simp_all add: cat_print_def)
  then show ?case using PrintLog_text [OF _ Cons.prems(2) assms(3), of e] Cons.prems(1)
    by (simp add: cat_print_def cat_text_def)
qed

section \<open>The stream on the screen\<close>

lemma decode_terminated:
  assumes "length bs = 377"
  shows "terminated (decode bs)"
proof -
  have n: "0 \<in> set (xs[k := 0])" if "k < length xs" for xs :: "byte list" and k
    using that by (metis length_list_update nth_list_update_eq nth_mem)
  have "0 \<in> set ((seg 25 32 bs)[31 := 0])" "0 \<in> set ((seg 57 64 bs)[63 := 0])" "0 \<in> set ((seg 121 256 bs)[255 := 0])"
    using assms by (intro n; simp)+
  then show ?thesis
    using assms by (simp add: terminated_def decode_def SilogRemoteDeserializeEntry_def load_def Let_def seg_def)
qed

lemma client_step_cases:
  assumes "client_ready g" and "bs \<noteq> []" and "length bs \<le> 377 - length (client_pending g)"
  shows "\<exists>g' ms. client_step g bs = Some (g', ms) \<and> client_ready g' \<and> (\<forall>e \<in> set ms. terminated e)"
proof (cases "length (client_pending g @ bs) < 377")
  case True
  then show ?thesis using client.step_partial [OF assms(1,2) True] by auto
next
  case False
  then have f: "length (client_pending g @ bs) = 377"
    using assms(3) client.pending_short [OF assms(1)] by simp
  show ?thesis using client.step_complete [OF assms(1,2) f] decode_terminated [OF f] by auto
qed

text \<open>Turns of the loop while the bytes of a stream arrive, in pieces of at most \<open>Suc k\<close> bytes.\<close>

fun cat_stream :: "cat_env \<Rightarrow> nat list \<Rightarrow> byte list \<Rightarrow> silogcat \<Rightarrow> (silogcat \<times> byte list) c_result" where
  "cat_stream env [] bs c = Some (c, bs)"
| "cat_stream env (k # ks) bs c =
     (if bs = [] then Some (c, bs)
      else do {
        c' \<leftarrow> cat_turn (env\<lparr>cv_select := \<lambda>t. SelectReady, cv_recv := \<lambda>n. RecvData (take (min (Suc k) n) bs)\<rparr>) c;
        cat_stream env ks (drop (min (Suc k) (377 - rc_recvOffset (ct_client c))) bs) c'
      })"

definition cat_ready :: "cat_env \<Rightarrow> silogcat \<Rightarrow> bool" where
  "cat_ready env c \<longleftrightarrow> client_ready (ct_client c) \<and> cat_cfg_ok (ct_config c) \<and> (\<forall>t. cv_localtime env t \<noteq> None)"

lemma pending_offset: "client_ready g \<Longrightarrow> length (client_pending g) = rc_recvOffset g"
  by (simp add: client_ready_def client_pending_def)

lemma cat_turn_data:
  assumes r: "cat_ready env c" and x: "x \<noteq> []" "length x \<le> 377 - rc_recvOffset (ct_client c)"
    and rv: "cv_select env (timeval_of 100) = SelectReady" "cv_recv env (377 - rc_recvOffset (ct_client c)) = RecvData x"
  shows "\<exists>g ms. client_step (ct_client c) x = Some (g, ms) \<and> client_ready g \<and>
    cat_turn env c = Some (cat_print (cat_text (cv_localtime env) (ct_config c) ms) (c\<lparr>ct_client := g\<rparr>))"
proof -
  have g: "client_ready (ct_client c)" using r by (simp add: cat_ready_def)
  obtain g' ms where st: "client_step (ct_client c) x = Some (g', ms)" "client_ready g'" "\<forall>e \<in> set ms. terminated e"
    using client_step_cases [OF g x(1)] x(2) pending_offset [OF g] by auto
  have "SilogRemoteClientReceive (cv_select env) (cv_recv env) True 100 (ct_client c) =
      SilogRemoteClientReceive (\<lambda>t. SelectReady) (\<lambda>n. RecvData x) True 100 (ct_client c)"
    using rv g by (simp add: SilogRemoteClientReceive_def client_ready_def Let_def)
  then obtain k where "SilogRemoteClientReceive (cv_select env) (cv_recv env) True 100 (ct_client c) = Some (k, ms, g')"
    using st(1) by (auto simp: client_step_def split: option.splits)
  moreover have "print_entries (cv_localtime env) ms (c\<lparr>ct_client := g'\<rparr>) =
      Some (cat_print (cat_text (cv_localtime env) (ct_config (c\<lparr>ct_client := g'\<rparr>)) ms) (c\<lparr>ct_client := g'\<rparr>))"
    using st(3) r by (intro print_entries_text) (simp_all add: cat_ready_def)
  ultimately have "cat_receive env c = Some (cat_print (cat_text (cv_localtime env) (ct_config c) ms) (c\<lparr>ct_client := g'\<rparr>))"
    by (simp add: cat_receive_def)
  moreover have "SilogRemoteClientIsConnected (ct_client c)" using g by (simp add: SilogRemoteClientIsConnected_def client_ready_def)
  ultimately show ?thesis using st by (auto simp: cat_turn_def)
qed

lemma cat_text_append: "cat_text localtime cfg (xs @ ys) = cat_text localtime cfg xs @ cat_text localtime cfg ys"
  by (simp add: cat_text_def)

lemma cat_stream_pump:
  assumes "cat_ready env c" and "pump (\<lambda>g. 377 - length (client_pending g)) client_step ks bs (ct_client c) = Some (g', rest, ms)"
  shows "cat_stream env ks bs c = Some (cat_print (cat_text (cv_localtime env) (ct_config c) ms) (c\<lparr>ct_client := g'\<rparr>), rest)"
  using assms
proof (induction ks arbitrary: bs c ms)
  case Nil
  then show ?case by (simp add: cat_print_def cat_text_def)
next
  case (Cons k ks)
  show ?case
  proof (cases "bs = []")
    case True
    then show ?thesis using Cons.prems(2) by (simp add: cat_print_def cat_text_def)
  next
    case False
    let ?n = "min (Suc k) (377 - rc_recvOffset (ct_client c))"
    let ?env = "env\<lparr>cv_select := \<lambda>t. SelectReady, cv_recv := \<lambda>n. RecvData (take (min (Suc k) n) bs)\<rparr>"
    have g: "client_ready (ct_client c)" using Cons.prems(1) by (simp add: cat_ready_def)
    then have n: "0 < ?n" by (simp add: client_ready_def)
    then have x: "take ?n bs \<noteq> []" "length (take ?n bs) \<le> 377 - rc_recvOffset (ct_client c)" using False by auto
    have re: "cat_ready ?env c" using Cons.prems(1) by (simp add: cat_ready_def)
    obtain g1 ms1 where s1: "client_step (ct_client c) (take ?n bs) = Some (g1, ms1)" "client_ready g1"
        "cat_turn ?env c = Some (cat_print (cat_text (cv_localtime env) (ct_config c) ms1) (c\<lparr>ct_client := g1\<rparr>))"
      using cat_turn_data [OF re x] by auto
    let ?c = "cat_print (cat_text (cv_localtime env) (ct_config c) ms1) (c\<lparr>ct_client := g1\<rparr>)"
    obtain ms2 where p: "pump (\<lambda>g. 377 - length (client_pending g)) client_step ks (drop ?n bs) g1 = Some (g', rest, ms2)" "ms = ms1 @ ms2"
      using Cons.prems(2) False s1(1) pending_offset [OF g] by (auto simp: Let_def split: Option.bind_splits)
    have "cat_stream env ks (drop ?n bs) ?c =
        Some (cat_print (cat_text (cv_localtime env) (ct_config ?c) ms2) (?c\<lparr>ct_client := g'\<rparr>), rest)"
      using Cons.prems(1) s1(2) p(1) by (intro Cons.IH) (simp_all add: cat_ready_def cat_print_def)
    then show ?thesis using False s1(3) p(2) by (simp add: cat_print_def cat_text_append)
  qed
qed

section \<open>The loop\<close>

definition calls_safe :: "cat_env \<Rightarrow> bool" where
  "calls_safe env \<longleftrightarrow> (\<forall>t. cv_localtime env t \<noteq> None) \<and> cv_socket env < 1024 \<and>
    (\<forall>n bs. cv_recv env n = RecvData bs \<longrightarrow> bs \<noteq> [] \<and> length bs \<le> n)"

definition cat_ok :: "silogcat \<Rightarrow> bool" where
  "cat_ok c \<longleftrightarrow> client_ok (ct_client c) \<and> rc_isInit (ct_client c) \<and> cat_cfg_ok (ct_config c)"

lemma receive_calls:
  assumes "client_ok g" and "rc_isInit g" and "\<forall>n bs. recv n = RecvData bs \<longrightarrow> bs \<noteq> [] \<and> length bs \<le> n"
  shows "\<exists>r calls g'. SilogRemoteClientReceive sel recv True timeoutMs g = Some (r, calls, g') \<and> client_ok g' \<and> rc_isInit g' \<and>
    (\<forall>e \<in> set calls. terminated e)"
proof -
  obtain r calls g' where r: "SilogRemoteClientReceive sel recv True timeoutMs g = Some (r, calls, g')" "client_ok g'"
    using receive_ok [OF assms(1,3)] by blast
  have "rc_isInit g'"
    using r(1) assms(2)
    by (auto simp: SilogRemoteClientReceive_def SilogRemoteClientDisconnect_def Let_def
      split: if_splits select_result.splits recv_result.splits Option.bind_splits)
  moreover have "\<forall>e \<in> set calls. terminated e"
  proof (cases "rc_isConnected g \<and> sel (timeval_of timeoutMs) = SelectReady \<and> (\<exists>bs. recv (377 - rc_recvOffset g) = RecvData bs)")
    case True
    then obtain bs where bs: "recv (377 - rc_recvOffset g) = RecvData bs" by blast
    have rd: "client_ready g" using assms(1,2) True by (simp add: client_ready_def client_ok_def)
    then have fd: "fd_set_ok (rc_socketFd g)" by (simp add: client_ready_def)
    have "client_step g bs = Some (g', calls)"
      using r(1) bs True fd assms(2) by (auto simp: client_step_def SilogRemoteClientReceive_def Let_def)
    moreover have "bs \<noteq> []" "length bs \<le> 377 - length (client_pending g)"
      using assms(3) bs pending_offset [OF rd] by auto
    ultimately show ?thesis using client_step_cases [OF rd] by fastforce
  next
    case False
    then have "calls = []"
      using r(1) by (auto simp: SilogRemoteClientReceive_def Let_def split: if_splits select_result.splits recv_result.splits)
    then show ?thesis by simp
  qed
  ultimately show ?thesis using r by blast
qed

lemma cat_receive_ok:
  assumes "cat_ok c" and "calls_safe env"
  shows "\<exists>c'. cat_receive env c = Some c' \<and> cat_ok c' \<and> ct_running c' = ct_running c \<and> ct_config c' = ct_config c"
proof -
  obtain r calls g where g: "SilogRemoteClientReceive (cv_select env) (cv_recv env) True 100 (ct_client c) = Some (r, calls, g)"
      "client_ok g" "rc_isInit g" "\<forall>e \<in> set calls. terminated e"
    using receive_calls [of "ct_client c" "cv_recv env"] assms unfolding cat_ok_def calls_safe_def by blast
  have "print_entries (cv_localtime env) calls (c\<lparr>ct_client := g\<rparr>) =
      Some (cat_print (cat_text (cv_localtime env) (ct_config (c\<lparr>ct_client := g\<rparr>)) calls) (c\<lparr>ct_client := g\<rparr>))"
    using g(4) assms by (intro print_entries_text) (simp_all add: cat_ok_def calls_safe_def)
  then show ?thesis using g assms(1) by (simp add: cat_receive_def cat_ok_def cat_print_def)
qed

lemma cat_turn_ok:
  assumes ok: "cat_ok c" and s: "calls_safe env"
  shows "\<exists>c'. cat_turn env c = Some c' \<and> cat_ok c' \<and> ct_running c' = ct_running c"
proof (cases "SilogRemoteClientIsConnected (ct_client c)")
  case True
  then show ?thesis using cat_receive_ok [OF assms] by (auto simp: cat_turn_def)
next
  case False
  obtain ret cl where cl: "SilogRemoteClientConnect (cv_socket env) (cv_pton env) (cv_connect env) (cv_fcntl env) (ct_client c) = (ret, cl)"
    by fastforce
  have k: "client_ok cl" "rc_isInit cl"
    using cl ok s by (auto simp: cat_ok_def client_ok_def SilogRemoteClientConnect_def calls_safe_def fd_set_ok_def Let_def
      split: if_splits)
  define c1 where "c1 = (if ct_wasConnected c
    then (cat_print ([10] @ chars ''[Disconnected, reconnecting...]'' @ [10]) c)\<lparr>ct_wasConnected := False\<rparr> else c)"
  have c1: "ct_client c1 = ct_client c" "ct_config c1 = ct_config c" "ct_running c1 = ct_running c"
    by (simp_all add: c1_def cat_print_def)
  let ?c2 = "c1\<lparr>ct_client := cl\<rparr>"
  let ?c3 = "(cat_print (chars ''[Connected to '' @ cstr (sc_serverAddr (ct_config ?c2)) @ chars '':'' @
    dec (unat (sc_serverPort (ct_config ?c2))) @ chars '']'' @ [10, 10]) ?c2)\<lparr>ct_wasConnected := True\<rparr>"
  have t: "cat_turn env c = (if ret = SILOG_OK then cat_receive env ?c3 else Some ?c2)"
    using False cl c1(1) by (simp add: cat_turn_def Let_def flip: c1_def)
  have "cat_ok ?c2" "cat_ok ?c3" using ok k c1 by (simp_all add: cat_ok_def cat_print_def)
  then show ?thesis using t cat_receive_ok [of ?c3, OF _ s] c1(3) by (auto simp: cat_print_def)
qed

lemma cat_loop_ends:
  assumes "cat_ok c" and "\<forall>(env, sig) \<in> set turns. calls_safe env" and "\<not> ct_running c \<or> (\<exists>(env, sig) \<in> set turns. sig)"
  shows "\<exists>c'. cat_loop turns c = Some (Some 0, c') \<and> rc_fds (ct_client c') = {}"
  using assms
proof (induction turns arbitrary: c)
  case Nil
  then show ?case
    by (auto simp: Let_def cat_ok_def cat_print_def client_ok_def SilogRemoteClientDeinit_def SilogRemoteClientDisconnect_def
        fd_set_ok_def)
next
  case (Cons t turns)
  obtain env sig where t: "t = (env, sig)" by fastforce
  show ?case
  proof (cases "ct_running c")
    case True
    obtain c1 where c1: "cat_turn env c = Some c1" "cat_ok c1" "ct_running c1"
      using cat_turn_ok [OF Cons.prems(1)] Cons.prems(2) t True by fastforce
    let ?c = "if sig then SilogCatSignalHandler c1 else c1"
    have "\<exists>c'. cat_loop turns ?c = Some (Some 0, c') \<and> rc_fds (ct_client c') = {}"
      using c1 Cons.prems(2,3) t True by (intro Cons.IH) (auto simp: SilogCatSignalHandler_def cat_ok_def)
    then show ?thesis using t True c1(1) by simp
  next
    case False
    then show ?thesis using t Cons.prems(1)
      by (auto simp: Let_def cat_ok_def cat_print_def client_ok_def SilogRemoteClientDeinit_def SilogRemoteClientDisconnect_def
        fd_set_ok_def)
  qed
qed

section \<open>Options\<close>

text \<open>
  The specification of the command line: a list of options, each in its short or its long form, and what
  an option makes of the settings as the user sees them.
\<close>

datatype cat_option = OptServer "byte list" | OptPort "byte list" | OptTag "byte list" | OptLevel "byte list" | OptColor

record cat_view =
  vw_server :: "byte list"
  vw_port :: u16
  vw_tag :: "byte list"
  vw_level :: u32
  vw_color :: bool

definition view_of :: "SilogCatConfig \<Rightarrow> cat_view" where
  "view_of cfg = \<lparr>vw_server = cstr (sc_serverAddr cfg), vw_port = sc_serverPort cfg, vw_tag = cstr (sc_filterTag cfg),
     vw_level = sc_minLevel cfg, vw_color = sc_useColor cfg\<rparr>"

fun opt_words :: "bool \<times> cat_option \<Rightarrow> byte list list" where
  "opt_words (long, OptServer v) = [if long then chars ''--server'' else chars ''-s'', v]"
| "opt_words (long, OptPort v) = [if long then chars ''--port'' else chars ''-p'', v]"
| "opt_words (long, OptTag v) = [if long then chars ''--tag'' else chars ''-t'', v]"
| "opt_words (long, OptLevel v) = [if long then chars ''--level'' else chars ''-l'', v]"
| "opt_words (long, OptColor) = [if long then chars ''--color'' else chars ''-c'']"

fun set_option :: "cat_option \<Rightarrow> cat_view \<Rightarrow> cat_view" where
  "set_option (OptServer v) w = w\<lparr>vw_server := take 63 v\<rparr>"
| "set_option (OptPort v) w = w\<lparr>vw_port := word_of_int (the (c_atoi v))\<rparr>"
| "set_option (OptTag v) w = w\<lparr>vw_tag := take 31 v\<rparr>"
| "set_option (OptLevel v) w = w\<lparr>vw_level := SilogCatParseLevel v\<rparr>"
| "set_option OptColor w = w\<lparr>vw_color := True\<rparr>"

fun option_ok :: "cat_option \<Rightarrow> bool" where
  "option_ok (OptServer v) \<longleftrightarrow> 0 \<notin> set v"
| "option_ok (OptPort v) \<longleftrightarrow> c_atoi v \<noteq> None"
| "option_ok (OptTag v) \<longleftrightarrow> 0 \<notin> set v"
| "option_ok _ \<longleftrightarrow> True"

lemma copy_arg_string:
  assumes "length dest = n" and "0 < n" and "0 \<notin> set v"
  shows "\<exists>b. copy_arg dest v n = Some b \<and> length b = n \<and> b ! (n - 1) = 0 \<and> cstr b = take (n - 1) v"
proof -
  let ?x = "take (n - 1) v @ replicate (n - 1 - length v) 0"
  have l: "length ?x = n - 1" by simp
  have "copy_arg dest v n = Some (overwrite (n - 1) [0] (overwrite 0 ?x dest))"
    using assms(1,2) l by (simp add: copy_arg_def c_strncpy_def store_eq)
  moreover have e: "overwrite (n - 1) [0] (overwrite 0 ?x dest) = ?x @ [0]"
    using assms(1,2) l by (simp add: overwrite_def)
  moreover have "cstr (?x @ [0]) = take (n - 1) v"
  proof (cases "n - 1 - length v")
    case 0
    then show ?thesis using assms(3) cstr_append_zero [of "take (n - 1) v" "[]"] by (auto dest: in_set_takeD)
  next
    case (Suc m)
    then show ?thesis
      using assms(3) cstr_append_zero [of "take (n - 1) v" "replicate m 0 @ [0]"] by (auto dest: in_set_takeD)
  qed
  moreover have "(?x @ [0]) ! (n - 1) = 0" using l by (metis nth_append_length)
  ultimately show ?thesis using assms(2) l by simp
qed

lemma ParseLevel_range: "SilogCatParseLevel v \<le> SILOG_FATAL"
  by (simp add: SilogCatParseLevel_def SILOG_DEBUG_def SILOG_INFO_def SILOG_WARN_def SILOG_ERROR_def SILOG_FATAL_def)

text \<open>One option: the words of the option are read and the settings refine the specification.\<close>

lemma parse_option:
  assumes ok: "option_ok opt" and cfg: "cat_cfg_ok (ct_config c)"
  shows "\<exists>cfg'. parse_args program (opt_words (long, opt) @ rest) c = parse_args program rest (c\<lparr>ct_config := cfg'\<rparr>) \<and>
    cat_cfg_ok cfg' \<and> view_of cfg' = set_option opt (view_of (ct_config c))"
proof (cases opt)
  case (OptServer v)
  obtain b where b: "copy_arg (sc_serverAddr (ct_config c)) v 64 = Some b" "length b = 64" "b ! 63 = 0" "cstr b = take 63 v"
    using copy_arg_string [of "sc_serverAddr (ct_config c)" 64 v] cfg ok OptServer by (auto simp: cat_cfg_ok_def)
  show ?thesis using OptServer b cfg
    by (intro exI [of _ "(ct_config c)\<lparr>sc_serverAddr := b\<rparr>"]) (simp add: chars_def cat_cfg_ok_def view_of_def)
next
  case (OptPort v)
  then obtain i where "c_atoi v = Some i" using ok by auto
  then show ?thesis using OptPort cfg
    by (intro exI [of _ "(ct_config c)\<lparr>sc_serverPort := word_of_int i\<rparr>"]) (simp add: chars_def cat_cfg_ok_def view_of_def)
next
  case (OptTag v)
  obtain b where b: "copy_arg (sc_filterTag (ct_config c)) v 32 = Some b" "length b = 32" "b ! 31 = 0" "cstr b = take 31 v"
    using copy_arg_string [of "sc_filterTag (ct_config c)" 32 v] cfg ok OptTag by (auto simp: cat_cfg_ok_def)
  show ?thesis using OptTag b cfg
    by (intro exI [of _ "(ct_config c)\<lparr>sc_filterTag := b\<rparr>"]) (simp add: chars_def cat_cfg_ok_def view_of_def)
next
  case (OptLevel v)
  then show ?thesis using cfg ParseLevel_range
    by (intro exI [of _ "(ct_config c)\<lparr>sc_minLevel := SilogCatParseLevel v\<rparr>"]) (simp add: chars_def cat_cfg_ok_def view_of_def)
next
  case OptColor
  then show ?thesis using cfg
    by (intro exI [of _ "(ct_config c)\<lparr>sc_useColor := True\<rparr>"]) (simp add: chars_def cat_cfg_ok_def view_of_def)
qed

lemma parse_options:
  assumes "\<forall>(long, opt) \<in> set opts. option_ok opt" and "cat_cfg_ok (ct_config c)"
  shows "\<exists>cfg'. parse_args program (concat (map opt_words opts)) c = Some (ArgsOk, c\<lparr>ct_config := cfg'\<rparr>) \<and> cat_cfg_ok cfg' \<and>
    view_of cfg' = fold set_option (map snd opts) (view_of (ct_config c))"
  using assms
proof (induction opts arbitrary: c)
  case Nil
  then show ?case by (intro exI [of _ "ct_config c"]) simp
next
  case (Cons p opts)
  obtain long opt where p: "p = (long, opt)" by fastforce
  obtain cfg1 where c1: "parse_args program (opt_words (long, opt) @ concat (map opt_words opts)) c =
      parse_args program (concat (map opt_words opts)) (c\<lparr>ct_config := cfg1\<rparr>)" "cat_cfg_ok cfg1"
      "view_of cfg1 = set_option opt (view_of (ct_config c))"
    using parse_option [of opt c program long] Cons.prems p by fastforce
  have "\<exists>cfg'. parse_args program (concat (map opt_words opts)) (c\<lparr>ct_config := cfg1\<rparr>) =
      Some (ArgsOk, (c\<lparr>ct_config := cfg1\<rparr>)\<lparr>ct_config := cfg'\<rparr>) \<and> cat_cfg_ok cfg' \<and>
      view_of cfg' = fold set_option (map snd opts) (view_of (ct_config (c\<lparr>ct_config := cfg1\<rparr>)))"
    using c1(2) Cons.prems(1) by (intro Cons.IH) auto
  then show ?case using c1 p by auto
qed

section \<open>Example instance\<close>

definition ex_cat :: silogcat where
  "ex_cat = \<lparr>ct_config = g_silogCatConfig, ct_running = True, ct_client = connected_client, ct_prelog = g_prelogMgr,
     ct_out = \<lparr>po_files = Map.empty, po_stdout = []\<rparr>, ct_wasConnected = True, ct_stdout = [], ct_stderr = []\<rparr>"

definition ex_cat_env :: cat_env where
  "ex_cat_env = \<lparr>cv_socket = -1, cv_pton = (\<lambda>_. 1), cv_connect = (\<lambda>_. -1), cv_fcntl = (\<lambda>_ _. 0), cv_select = (\<lambda>t. SelectReady),
     cv_recv = (\<lambda>_. RecvClosed), cv_localtime = (\<lambda>_. Some \<lparr>tm_year = 70, tm_mon = 0, tm_mday = 1, tm_hour = 0, tm_min = 0, tm_sec = 0\<rparr>)\<rparr>"

lemma default_cfg_ok: "cat_cfg_ok g_silogCatConfig"
  by (simp add: cat_cfg_ok_def g_silogCatConfig_def SILOG_DEBUG_def SILOG_FATAL_def chars_def)

lemma ex_cat_ok: "cat_ready ex_cat_env ex_cat" "cat_ok ex_cat" "rc_recvOffset (ct_client ex_cat) = 0"
  by (simp_all add: cat_ready_def cat_ok_def ex_cat_def ex_cat_env_def default_cfg_ok client_ready_def client_ok_def
    connected_client_def g_silogRemoteClient_def fd_set_ok_def)

section \<open>Properties\<close>

text \<open>
  C11. From the daemon to the screen: while the frames of proper entries arrive in pieces of any size,
  the viewer has printed, in order and once each, exactly one line for every entry whose frame is
  complete, whose level is at least the minimum level and whose tag contains the filter. The line is
  that of the entry the protocol delivers.
\<close>

theorem silogcat_prints_matching:
  assumes "cat_ready env c" and "rc_recvOffset (ct_client c) = 0" and "\<forall>e \<in> set es. entry_ok e"
  shows "\<exists>c' used rest. cat_stream env ks (concat (map entry_bytes es)) c = Some (c', rest) \<and>
    concat (map entry_bytes es) = used @ rest \<and>
    ct_stdout c' = ct_stdout c @ concat (map (cat_line (cv_localtime env) (ct_config c))
      (filter (cat_shows (ct_config c)) (map received (take (length used div 377) es))))"
proof -
  have g: "client_ready (ct_client c)" using assms(1) by (simp add: cat_ready_def)
  obtain g' used rest where p: "pump (\<lambda>g. 377 - length (client_pending g)) client_step ks (concat (map entry_bytes es)) (ct_client c) =
      Some (g', rest, map received (take (length used div 377) es))" "concat (map entry_bytes es) = used @ rest"
    using client_reassembles [OF g assms(2,3), of ks] by blast
  from cat_stream_pump [OF assms(1) p(1)] p(2) show ?thesis by (auto simp: cat_print_def cat_text_def)
qed

theorem silogcat_prints_matching_witness:
  "\<exists>c' used rest. cat_stream ex_cat_env [200, 5, 900] (concat (map entry_bytes [blank_entry 5, blank_entry 6])) ex_cat = Some (c', rest) \<and>
    concat (map entry_bytes [blank_entry 5, blank_entry 6]) = used @ rest \<and>
    ct_stdout c' = ct_stdout ex_cat @ concat (map (cat_line (cv_localtime ex_cat_env) (ct_config ex_cat))
      (filter (cat_shows (ct_config ex_cat)) (map received (take (length used div 377) [blank_entry 5, blank_entry 6]))))"
  by (rule silogcat_prints_matching [OF ex_cat_ok(1,3)]) (simp add: blank_entry_ok)

text \<open>
  The command line: for every sequence of options in their short or long forms, parsing succeeds
  and the settings are those of applying the options from left to right, the last one winning; the
  server name is cut to 63 and the tag to 31 characters, the port is taken modulo \<open>2 ^ 16\<close>, and the
  arrays stay terminated.
\<close>

lemma SilogCatParseArgs_refines:
  assumes "\<forall>(long, opt) \<in> set opts. option_ok opt" and "cat_cfg_ok (ct_config c)"
  shows "\<exists>cfg'. SilogCatParseArgs (program # concat (map opt_words opts)) c = Some (ArgsOk, c\<lparr>ct_config := cfg'\<rparr>) \<and>
    cat_cfg_ok cfg' \<and> view_of cfg' = fold set_option (map snd opts) (view_of (ct_config c))"
  using parse_options [OF assms, of program] by (simp add: SilogCatParseArgs_def)

text \<open>
  C12. Whatever the network delivers, well formed or not, with any outcome of the system calls (as long
  as \<open>localtime_r\<close> succeeds and descriptors stay below the 1024 of an \<open>fd_set\<close>), every turn of the
  viewer is defined, and once a signal has arrived the program ends with status 0 and no
  descriptor open.
\<close>

theorem silogcat_ends_cleanly:
  assumes "cat_ok c" and "\<forall>(env, sig) \<in> set turns. calls_safe env" and "\<exists>(env, sig) \<in> set turns. sig"
  shows "\<exists>c'. cat_loop turns c = Some (Some 0, c') \<and> rc_fds (ct_client c') = {}"
  using cat_loop_ends [OF assms(1,2)] assms(3) by blast

theorem silogcat_ends_cleanly_witness:
  "\<exists>c'. cat_loop [(ex_cat_env\<lparr>cv_recv := \<lambda>n. if n = 0 then RecvClosed else RecvData (replicate n 255)\<rparr>, False), (ex_cat_env, True)]
     ex_cat = Some (Some 0, c') \<and> rc_fds (ct_client c') = {}"
  by (rule silogcat_ends_cleanly [OF ex_cat_ok(2)]) (auto simp: calls_safe_def ex_cat_env_def)

end
