(* ===== verification/Silog_System.thy ===== *)
theory Silog_System
  imports Silog_Pipeline Silog_Cat
begin

text \<open>
  The system from its first instruction to the screen of a viewer. Starting: from the state of a
  fresh process, a start of the daemon whose threads run only after it has finished, and the first log
  call of an application, lead to a running system in the sense of \<open>Silog_Pipeline\<close>. Viewing: what
  \<open>silogcat\<close> (\<open>Silog_Cat\<close>) prints at the other end of a connection of that system.
\<close>

section \<open>Starting the daemon\<close>

text \<open>A process in which the daemon has never been started.\<close>

definition daemon_fresh :: "SilogDaemon \<Rightarrow> bool" where
  "daemon_fresh d \<longleftrightarrow> \<not> da_running d \<and> \<not> fm_initialized (da_files d) \<and> fm_currentFd (da_files d) = None \<and>
     \<not> da_remoteEnabled d \<and> remote_ok (da_remote d) \<and> \<not> rm_isInit (da_remote d) \<and> \<not> ia_isInit (da_ipc d) \<and>
     length (da_recvEntry d) = 384 \<and> da_recvThread d = NoThread \<and> da_writeThread d = NoThread"

text \<open>
  What the start needs of the system: memory, the log directory and the log file, which leaves room in
  its 32-bit size, two threads and the socket. The remote service may fail to start.
\<close>

definition start_env :: "daemon_env \<Rightarrow> fs \<Rightarrow> bool" where
  "start_env env fs \<longleftrightarrow> malloc_ok (dv_fm env) \<and> SilogFileManagerEnsureDir (dv_fm env) default_config = SILOG_OK \<and>
     e_fopen (dv_fm env) (SilogFileManagerGetCurrentPath default_config 512) \<and> e_pthread_create (dv_fm env) = 0 \<and>
     (\<forall>f. fs (SilogFileManagerGetCurrentPath default_config 512) = Some f \<longrightarrow> length (f_content f) + 512 < 2 ^ 32) \<and>
     dv_create_recv env = 0 \<and> dv_create_write env = 0 \<and> 0 \<le> ie_socket (dv_ipc env) \<and>
     setNonblock (ie_fcntl (dv_ipc env)) (ie_socket (dv_ipc env)) = SILOG_OK \<and> 0 \<le> ie_bind (dv_ipc env) logd_address"

text \<open>The text of the log file before the start.\<close>

definition old_log :: "fs \<Rightarrow> byte list" where
  "old_log fs = (case fs (SilogFileManagerGetCurrentPath default_config 512) of None \<Rightarrow> [] | Some f \<Rightarrow> f_content f)"

lemma file_manager_starts:
  assumes g: "\<not> fm_initialized g" and env: "start_env env fs"
  shows "\<exists>g' fs'. SilogFileManagerInit (dv_fm env) None g fs = (SILOG_OK, g', fs') \<and> sink_ok (g', fs') \<and>
    fm_config g' = default_config \<and> log_text g' fs' = old_log fs \<and> fm_compressThreadRunning g'"
proof -
  let ?e = "dv_fm env" and ?cur = "SilogFileManagerGetCurrentPath default_config 512"
  have m: "malloc_ok ?e" "SilogFileManagerEnsureDir ?e default_config = SILOG_OK" "e_fopen ?e ?cur" "e_pthread_create ?e = 0"
    using env by (simp_all add: start_env_def)
  obtain b where b: "e_malloc ?e 32768 = Some b" "length b = 32768" using m(1) by (auto simp: malloc_ok_def)
  obtain b2 where b2: "e_malloc ?e 256 = Some b2" using m(1) by (auto simp: malloc_ok_def)
  have "\<exists>q'. SilogMpscQueueInit (e_malloc ?e) (e_malloc ?e) (Some (fm_compressQueue g)) 512 64 = (SILOG_OK, Some q') \<and>
      mq_ok q' \<and> mq_list q' = [] \<and> mq_elementSize q' = 512 \<and> mq_capacity q' = 64"
    using b b2 by (intro mpsc_init_ok [where b = b]) simp_all
  then obtain q where q: "SilogMpscQueueInit (e_malloc ?e) (e_malloc ?e) (Some (fm_compressQueue g)) 512 64 = (SILOG_OK, Some q)"
      "mq_ok q" "mq_elementSize q = 512" by blast
  obtain f1 fs1 where o: "fopen_append ?e ?cur fs = (Some (?cur, []), fs1)"
    and f1: "fs1 ?cur = Some f1" "f_content f1 = old_log fs" "length (f_content f1) + 512 < 2 ^ 32"
    using m(3) env by (cases "fs ?cur") (auto simp: fopen_append_def old_log_def start_env_def)
  let ?g = "g\<lparr>fm_config := default_config, fm_currentFd := Some (?cur, []), fm_currentSize := word_of_nat (length (f_content f1)),
    fm_compressQueue := q, fm_compressThreadRunning := True, fm_asyncBufferSize := 0, fm_lastFlushTimeMs := e_now ?e, fm_initialized := True\<rparr>"
  have run: "SilogFileManagerInit ?e None g fs = (SILOG_OK, ?g, fs1)"
    using g m(2,4) q(1) f1(1) o by (simp add: Init_default SilogFileManagerInitWithConfig_def Let_def)
  have sz: "unat (word_of_nat (length (f_content f1)) :: u32) = length (f_content f1)" using f1(3) by (simp add: unat_of_nat)
  have mx: "unat (lc_maxFileSize default_config) = 10485760"
    by (simp add: default_config_def SilogFileManagerGetDefaultConfig_def)
  have "sink_ok (?g, fs1)"
    using f1 q(2,3) cfg_ok_default sz mx by (simp add: sink_ok_def fm_inv_def fm_current_def log_text_def)
  moreover have "log_text ?g fs1 = old_log fs" using f1 by (simp add: log_text_def fm_current_def)
  ultimately show ?thesis using run by auto
qed

text \<open>The remote service may start or not; it changes nothing else of the daemon.\<close>

definition same_but_remote :: "SilogDaemon \<Rightarrow> SilogDaemon \<Rightarrow> bool" where
  "same_but_remote d d' \<longleftrightarrow> da_logQueue d' = da_logQueue d \<and> da_running d' = da_running d \<and> da_recvThread d' = da_recvThread d \<and>
     da_writeThread d' = da_writeThread d \<and> da_recvEntry d' = da_recvEntry d \<and> da_files d' = da_files d \<and> da_fs d' = da_fs d \<and>
     da_ipc d' = da_ipc d"

lemma remote_starts:
  assumes "remote_ok (da_remote d)" and "\<not> rm_isInit (da_remote d)" and "\<not> da_remoteEnabled d"
  shows "\<exists>r d'. SilogDaemonRemoteInit env (Some \<lparr>dr_listenPort = 0, dr_maxClients = 0, dr_enable = True\<rparr>) d = Some (r, d') \<and>
    same_but_remote d d' \<and> remote_ok (da_remote d') \<and> da_remoteEnabled d' = rm_isInit (da_remote d')"
proof -
  let ?c = "\<lparr>cf_listenPort = 9090, cf_maxClients = 10, cf_enableAuth = False\<rparr>"
  obtain r rm where i: "SilogRemoteInit (e_malloc (dv_fm env)) (dv_sock env) (dv_bind env) (dv_listen env) (dv_fcntl env) (Some ?c) (da_remote d) = (r, rm)"
    by fastforce
  have ok: "remote_ok rm" "r = SILOG_OK \<longleftrightarrow> rm_isInit rm" using init_ok [OF assms(1) _ i] by simp_all
  obtain rm' where "SilogRemoteDeinit rm = Some rm'" "remote_ok rm'" "\<not> rm_isInit rm'" using deinit_ok [OF ok(1)] by blast
  then show ?thesis
    using i ok assms(3)
    by (cases "r = SILOG_OK"; cases "dv_create_remote env = 0") (auto simp: SilogDaemonRemoteInit_def Let_def same_but_remote_def)
qed

text \<open>
  A start whose file manager comes up: it succeeds exactly when both threads can be created. When one
  of them cannot, the ring has been allocated and the file manager keeps running.
\<close>

lemma daemon_init_run:
  assumes run: "\<not> da_running d" and g: "SilogFileManagerInit (dv_fm env) None (da_files d) (da_fs d) = (SILOG_OK, g, fs)"
    and mal: "malloc_ok (dv_fm env)" and rm: "remote_ok (da_remote d)" "\<not> rm_isInit (da_remote d)" "\<not> da_remoteEnabled d"
  shows "\<exists>r d1. SilogDaemonInit env d = Some (r, d1) \<and> mq_ok (da_logQueue d1) \<and> daemon_queue d1 = [] \<and>
    mq_elementSize (da_logQueue d1) = 384 \<and> daemon_room d1 = 4096 \<and> da_files d1 = g \<and> da_fs d1 = fs \<and> da_ipc d1 = da_ipc d \<and>
    da_recvEntry d1 = da_recvEntry d \<and> remote_ok (da_remote d1) \<and> da_remoteEnabled d1 = rm_isInit (da_remote d1) \<and>
    (if dv_create_recv env = 0 \<and> dv_create_write env = 0
     then r = SILOG_OK \<and> da_running d1 \<and> da_recvThread d1 = Created \<and> da_writeThread d1 = Created
     else r = SILOG_THREAD_CREATE \<and> \<not> da_running d1 \<and> da_remote d1 = da_remote d \<and>
       da_recvThread d1 = (if dv_create_recv env = 0 then Created else NoThread) \<and>
       da_writeThread d1 = (if dv_create_recv env = 0 then NoThread else da_writeThread d))"
proof -
  let ?e = "dv_fm env"
  obtain r0 pl out where 0: "SilogPrelogInit (dv_fopen env)
      (Some \<lparr>pc_path = chars ''/tmp/silog_daemon.txt'', pc_minLevel = SILOG_PRELOG_LEVEL_DEBUG, pc_enableStdout = False\<rparr>)
      (da_prelog d) (da_out d) = (r0, pl, out)" by (rule prod_cases3)
  obtain b where b: "e_malloc ?e 1572864 = Some b" "length b = 1572864" using mal by (auto simp: malloc_ok_def)
  obtain b2 where b2: "e_malloc ?e 16384 = Some b2" using mal by (auto simp: malloc_ok_def)
  have "\<exists>q'. SilogMpscQueueInit (e_malloc ?e) (e_malloc ?e) (Some (da_logQueue d)) 384 4096 = (SILOG_OK, Some q') \<and>
      mq_ok q' \<and> mq_list q' = [] \<and> mq_elementSize q' = 384 \<and> mq_capacity q' = 4096"
    using b b2 by (intro mpsc_init_ok [where b = b]) simp_all
  then obtain q where q: "SilogMpscQueueInit (e_malloc ?e) (e_malloc ?e) (Some (da_logQueue d)) 384 4096 = (SILOG_OK, Some q)"
      "mq_ok q" "mq_list q = []" "mq_elementSize q = 384" "mq_capacity q = 4096" by blast
  let ?d = "d\<lparr>da_prelog := pl, da_out := out, da_files := g, da_fs := fs, da_logQueue := q, da_recvThread := Created, da_writeThread := Created\<rparr>"
  obtain r d1 where d1: "SilogDaemonRemoteInit env (Some \<lparr>dr_listenPort = 0, dr_maxClients = 0, dr_enable = True\<rparr>) ?d = Some (r, d1)"
      "same_but_remote ?d d1" "remote_ok (da_remote d1)" "da_remoteEnabled d1 = rm_isInit (da_remote d1)"
    using remote_starts [of ?d env] rm by auto
  note defs = SilogDaemonInit_def daemon_init_create_def daemon_init_commit_def Let_def
    SilogDaemonRecvThreadInit_def SilogDaemonWriteThreadInit_def
  show ?thesis
  proof (cases "dv_create_recv env = 0 \<and> dv_create_write env = 0")
    case True
    then have "SilogDaemonInit env d = Some (SILOG_OK, d1\<lparr>da_running := True\<rparr>)"
      using 0 g q(1) d1(1) run by (simp add: defs)
    then show ?thesis using True q d1 by (auto simp: same_but_remote_def)
  next
    case False
    then show ?thesis using 0 g q run rm by (auto simp: defs)
  qed
qed

lemma daemon_starts:
  assumes d: "daemon_fresh d" and env: "start_env env (da_fs d)"
  shows "\<exists>d'. SilogDaemonInit env d = Some (SILOG_OK, d') \<and> da_running d' \<and> da_recvThread d' = Created \<and> da_writeThread d' = Created \<and>
    mq_ok (da_logQueue d') \<and> daemon_queue d' = [] \<and> mq_elementSize (da_logQueue d') = 384 \<and> daemon_room d' = 4096 \<and>
    sink_ok (da_files d', da_fs d') \<and> fm_config (da_files d') = default_config \<and>
    log_text (da_files d') (da_fs d') = old_log (da_fs d) \<and> remote_ok (da_remote d') \<and> da_remoteEnabled d' = rm_isInit (da_remote d') \<and>
    \<not> ia_isInit (da_ipc d') \<and> length (da_recvEntry d') = 384"
proof -
  have m: "malloc_ok (dv_fm env)" "dv_create_recv env = 0" "dv_create_write env = 0" using env by (simp_all add: start_env_def)
  have f: "\<not> da_running d" "\<not> fm_initialized (da_files d)" "\<not> da_remoteEnabled d" "remote_ok (da_remote d)" "\<not> rm_isInit (da_remote d)"
      "\<not> ia_isInit (da_ipc d)" "length (da_recvEntry d) = 384"
    using d by (simp_all add: daemon_fresh_def)
  obtain g fs where g: "SilogFileManagerInit (dv_fm env) None (da_files d) (da_fs d) = (SILOG_OK, g, fs)" "sink_ok (g, fs)"
      "fm_config g = default_config" "log_text g fs = old_log (da_fs d)"
    using file_manager_starts [OF f(2) env] by blast
  show ?thesis using daemon_init_run [OF f(1) g(1) m(1) f(4,5,3)] m(2,3) g(2-4) f(6,7) by auto
qed

text \<open>A start in an environment in which a thread cannot be created, and the next one.\<close>

lemma file_manager_again:
  assumes "fm_initialized g"
  shows "SilogFileManagerInit env None g fs = (SILOG_OK, g, fs)"
  using assms by (simp add: Init_default SilogFileManagerInitWithConfig_def)

lemma RecvThread_ends:
  assumes "\<not> da_running d" and "da_recvThread d \<in> {NoThread, Created}"
  shows "\<exists>ipc th d2. SilogDaemonRecvThreadFunc env d = Some d2 \<and> th \<in> {NoThread, Returned} \<and>
    SilogDaemonRecvThreadFunc env d2 = Some (d\<lparr>da_ipc := ipc, da_recvThread := th\<rparr>)"
proof (cases "da_recvThread d = Created")
  case True
  obtain ret ipc where s: "SilogIpcServerInit (dv_ipc env) (SilogIpcInit SILOG_IPC_TYPE_UNIX_DGRAM (da_ipc d)) = (ret, ipc)" by fastforce
  let ?ipc = "if ret = SILOG_OK then SilogIpcServerClose ipc else ipc"
  show ?thesis
    using True assms(1) s
    by (intro exI [of _ ?ipc] exI [of _ Returned] exI [of _ "recv_start env d"])
      (simp add: SilogDaemonRecvThreadFunc_def recv_start_def recv_turn_def)
next
  case False
  then have "SilogDaemonRecvThreadFunc env d = Some (d\<lparr>da_ipc := da_ipc d, da_recvThread := NoThread\<rparr>)"
    using assms(2) by (cases d) (simp add: SilogDaemonRecvThreadFunc_def)
  moreover have "SilogDaemonRecvThreadFunc env (d\<lparr>da_ipc := da_ipc d, da_recvThread := NoThread\<rparr>) =
      Some (d\<lparr>da_ipc := da_ipc d, da_recvThread := NoThread\<rparr>)" by (simp add: SilogDaemonRecvThreadFunc_def)
  ultimately show ?thesis by blast
qed

section \<open>Starting the threads and the library\<close>

definition boot :: "logger \<Rightarrow> SilogDaemon \<Rightarrow> system" where
  "boot lg d = \<lparr>sy_logger = lg, sy_wire = [], sy_daemon = d, sy_streams = (\<lambda>_. [])\<rparr>"

definition library_fresh :: "logger \<Rightarrow> bool" where
  "library_fresh lg \<longleftrightarrow> \<not> lm_initOnce (lg_mgr lg) \<and> \<not> ia_isInit (lg_ipc lg)"

definition start_lenv :: "logger_env \<Rightarrow> bool" where
  "start_lenv env \<longleftrightarrow> (\<forall>n. \<exists>b. lv_malloc env n = Some b \<and> length b = n) \<and> 0 \<le> ie_socket (lv_ipc env) \<and>
     setNonblock (ie_fcntl (lv_ipc env)) (ie_socket (lv_ipc env)) = SILOG_OK \<and> 0 \<le> ie_connect (lv_ipc env) logd_address \<and> lv_pthread_create env = 0"

lemma recv_thread_starts:
  assumes "da_recvThread d = Created" and "\<not> ia_isInit (da_ipc d)" and "start_env env fs"
  shows "\<exists>ipc. SilogDaemonRecvThreadFunc (env\<lparr>dv_recv := x\<rparr>) d = Some (d\<lparr>da_ipc := ipc, da_recvThread := Looping\<rparr>) \<and>
    ia_isInit ipc \<and> 0 \<le> ia_recvFd ipc"
  using assms
  by (intro exI [of _ "snd (SilogIpcServerInit (dv_ipc env) (SilogIpcInit SILOG_IPC_TYPE_UNIX_DGRAM (da_ipc d)))"])
    (simp add: SilogDaemonRecvThreadFunc_def recv_start_def SilogIpcInit_def SilogIpcServerInit_def SilogIpcDgramServerInit_def
    start_env_def Let_def ipc_open_def ipc_unlink_def)

lemma write_thread_starts:
  assumes "da_writeThread d = Created" and "da_running d" and "mq_ok (da_logQueue d)" and "daemon_queue d = []"
  shows "SilogDaemonWriteThreadFunc env d = Some ([], d\<lparr>da_writeThread := Looping\<rparr>)"
  using assms ring_pop_empty [OF assms(3,4)] by (simp add: SilogDaemonWriteThreadFunc_def write_turn_def)

text \<open>The threads of a daemon that has just been started, when they run after the start has finished.\<close>

lemma daemon_boots:
  assumes d: "daemon_fresh d" and env: "start_env denv (da_fs d)"
  shows "\<exists>d' tr s'. SilogDaemonInit denv d = Some (SILOG_OK, d') \<and> map fst tr = [ARecv, AWrite fenv v] \<and>
    sys_run lenv denv tr (boot lg d') s' \<and> sy_logger s' = lg \<and> sy_wire s' = [] \<and> daemon_up (sy_daemon s') \<and>
    daemon_queue (sy_daemon s') = [] \<and> file_config s' = default_config \<and> written s' = old_log (da_fs d)"
proof -
  obtain d1 where 1: "SilogDaemonInit denv d = Some (SILOG_OK, d1)" "da_running d1" "da_recvThread d1 = Created" "da_writeThread d1 = Created"
      "mq_ok (da_logQueue d1)" "daemon_queue d1 = []" "mq_elementSize (da_logQueue d1) = 384" "daemon_room d1 = 4096"
      "sink_ok (da_files d1, da_fs d1)" "fm_config (da_files d1) = default_config" "log_text (da_files d1) (da_fs d1) = old_log (da_fs d)"
      "remote_ok (da_remote d1)" "\<not> ia_isInit (da_ipc d1)" "length (da_recvEntry d1) = 384"
    using daemon_starts [OF d env] by blast
  obtain ipc where ipc: "SilogDaemonRecvThreadFunc (denv\<lparr>dv_recv := DgramNone\<rparr>) d1 = Some (d1\<lparr>da_ipc := ipc, da_recvThread := Looping\<rparr>)"
      "ia_isInit ipc" "0 \<le> ia_recvFd ipc"
    using recv_thread_starts [OF 1(3,13) env] by blast
  let ?d2 = "d1\<lparr>da_ipc := ipc, da_recvThread := Looping\<rparr>" and ?s0 = "boot lg d1"
  let ?d3 = "?d2\<lparr>da_writeThread := Looping\<rparr>" and ?s1 = "boot lg ?d2"
  have "sys_step lenv denv ARecv ?s0 ?s1"
    using sys_step.recv_none [of ?s0 denv ?d2 lenv] ipc(1) by (simp add: boot_def)
  moreover have "sys_step lenv denv (AWrite fenv v) ?s1 (boot lg ?d3)"
    using sys_step.writes [where denv = denv and env = fenv and socks = v and s = ?s1 and wire = "[]" and d = ?d3 and lenv = lenv] write_thread_starts [of ?d2 "denv\<lparr>dv_fm := fenv, dv_send := v\<rparr>"] 1(2,4-6)
    by (simp add: boot_def feed_def [abs_def])
  ultimately have "sys_run lenv denv [(ARecv, ?s0), (AWrite fenv v, ?s1)] ?s0 (boot lg ?d3)"
    by (intro sys_run.step [OF _ run_one])
  moreover have "daemon_up ?d3" using 1 ipc(2,3) by (simp add: daemon_up_def daemon_ready_def)
  ultimately show ?thesis
    using 1(1,6,10,11)
    by (intro exI [of _ d1] exI [of _ "[(ARecv, ?s0), (AWrite fenv v, ?s1)]"] exI [of _ "boot lg ?d3"]) (simp add: boot_def written_def)
qed

lemma silogLog_once:
  assumes "\<not> lm_initOnce (lg_mgr st)" and "silogEntryMngInit env (st\<lparr>lg_mgr := (lg_mgr st)\<lparr>lm_initOnce := True\<rparr>\<rparr>) = st1"
    and "lm_initOnce (lg_mgr st1)"
  shows "silogLog env level tag fname line fmt st = silogLog env level tag fname line fmt st1"
  using assms by (simp add: silogLog_def)

lemma first_call:
  assumes l: "library_fresh (sy_logger s)" and env: "start_lenv lenv" and ok: "action_ok cfg (ALog c tid lv tag fname line fmt)"
  shows "\<exists>lg. silogLog (lenv\<lparr>lv_clock := c, lv_tid := tid\<rparr>) lv tag fname line fmt (sy_logger s) = Some lg \<and> logger_up lg \<and>
    log_queue lg = called lenv (ALog c tid lv tag fname line fmt, s)"
proof -
  let ?env = "lenv\<lparr>lv_clock := c, lv_tid := tid\<rparr>" and ?old = "sy_logger s"
  let ?once = "?old\<lparr>lg_mgr := (lg_mgr ?old)\<lparr>lm_initOnce := True\<rparr>\<rparr>"
  let ?started = "silogEntryMngInit ?env ?once"
  have i: "logger_ok ?started \<and> log_queue ?started = [] \<and> log_room ?started = 1024 \<and> ia_isInit (lg_ipc ?started) \<and> 0 \<le> ia_sendFd (lg_ipc ?started) \<and>
      lm_minLevel (lg_mgr ?started) = lm_minLevel (lg_mgr ?once) \<and> lg_sending ?started"
    using l env by (intro silogEntryMngInit_ok) (simp_all add: library_fresh_def start_lenv_def)
  then have up: "logger_up (sy_logger (s\<lparr>sy_logger := ?started\<rparr>))" by (simp add: logger_up_def)
  have "called lenv (ALog c tid lv tag fname line fmt, s\<lparr>sy_logger := ?started\<rparr>) = called lenv (ALog c tid lv tag fname line fmt, s)"
    using i by (auto split: option.splits)
  moreover have "silogLog ?env lv tag fname line fmt ?old = silogLog ?env lv tag fname line fmt ?started"
    using l i by (intro silogLog_once [OF _ refl]) (simp_all add: library_fresh_def logger_ok_def)
  ultimately show ?thesis using log_call [OF up ok, of lenv] i by simp
qed

lemma system_boots:
  assumes d: "daemon_fresh d" and env: "start_env denv (da_fs d)" and l: "library_fresh lg" and lenv: "start_lenv lenv"
    and ok: "action_ok default_config (ALog c tid lv tag fname line fmt)"
  shows "\<exists>d' tr s'. SilogDaemonInit denv d = Some (SILOG_OK, d') \<and> map fst tr = [ARecv, AWrite fenv v, ALog c tid lv tag fname line fmt] \<and>
    sys_run lenv denv tr (boot lg d') s' \<and> system_up s' \<and> file_config s' = default_config \<and> written s' = old_log (da_fs d) \<and>
    on_the_way s' = called lenv (ALog c tid lv tag fname line fmt, boot lg d')"
proof -
  let ?a = "ALog c tid lv tag fname line fmt"
  obtain d1 tr s1 where 1: "SilogDaemonInit denv d = Some (SILOG_OK, d1)" "map fst tr = [ARecv, AWrite fenv v]"
      "sys_run lenv denv tr (boot lg d1) s1" "sy_logger s1 = lg" "sy_wire s1 = []" "daemon_up (sy_daemon s1)"
      "daemon_queue (sy_daemon s1) = []" "file_config s1 = default_config" "written s1 = old_log (da_fs d)"
    using daemon_boots [OF d env, where fenv = fenv and v = v and lenv = lenv and lg = lg] by (elim exE conjE) (rule that)
  have fresh: "library_fresh (sy_logger s1)" using l 1(4) by simp
  obtain lg2 where 2: "silogLog (lenv\<lparr>lv_clock := c, lv_tid := tid\<rparr>) lv tag fname line fmt (sy_logger s1) = Some lg2" "logger_up lg2"
      "log_queue lg2 = called lenv (?a, s1)"
    using first_call [OF fresh lenv ok] by blast
  let ?s = "s1\<lparr>sy_logger := lg2\<rparr>"
  have c: "called lenv (?a, s1) = called lenv (?a, boot lg d1)" using 1(4) by (auto simp: boot_def split: option.splits)
  have "on_the_way ?s = called lenv (?a, boot lg d1)" using 1(5,7) 2(3) c by (simp add: on_the_way_def del: called.simps)
  moreover have "system_up ?s" using 1(6) 2(2) calculation called_entry(1) [OF ok] by (simp add: system_up_def del: called.simps)
  moreover have "sys_run lenv denv (tr @ [(?a, s1)]) (boot lg d1) ?s"
    using run_append [OF 1(3) run_one [OF sys_step.log [OF 2(1)]]] .
  ultimately show ?thesis
    using 1(1,2,8,9)
    by (intro exI [of _ d1] exI [of _ "tr @ [(?a, s1)]"] exI [of _ ?s]) (simp add: written_def del: called.simps)
qed

section \<open>At the other end of a connection\<close>

lemma pump_reads_all:
  assumes "\<And>s bs s' ms. bs \<noteq> [] \<Longrightarrow> length bs \<le> need s \<Longrightarrow> step s bs = Some (s', ms) \<Longrightarrow> I s \<Longrightarrow> I s'" and "\<And>s. I s \<Longrightarrow> 0 < need s"
    and "I s" and "pump need step ks bs s = Some (s', rest, ms)" and "length bs \<le> length ks"
  shows "rest = []"
  using assms(3-5)
proof (induction ks arbitrary: bs s ms)
  case (Cons k ks)
  show ?case
  proof (cases "bs = []")
    case False
    let ?n = "min (Suc k) (need s)"
    obtain s1 ms1 ms2 where 1: "step s (take ?n bs) = Some (s1, ms1)" "pump need step ks (drop ?n bs) s1 = Some (s', rest, ms2)"
      using Cons.prems(2) False by (auto simp: Let_def split: Option.bind_splits)
    have n: "0 < ?n" using assms(2) [OF Cons.prems(1)] by simp
    then have "take ?n bs \<noteq> []" "length (take ?n bs) \<le> need s" using False by simp_all
    then have "I s1" using assms(1) 1(1) Cons.prems(1) by blast
    moreover have "length (drop ?n bs) \<le> length ks" using n Cons.prems(3) False by simp
    ultimately show ?thesis using Cons.IH 1(2) by blast
  qed (use Cons in simp)
qed simp

text \<open>A viewer that has read the whole stream of entries has printed those it shows.\<close>

lemma viewer_reads_all:
  assumes r: "cat_ready env c" and z: "rc_recvOffset (ct_client c) = 0" and e: "\<forall>e \<in> set es. entry_ok e"
    and ks: "length (concat (map entry_bytes es)) \<le> length ks"
  shows "\<exists>c'. cat_stream env ks (concat (map entry_bytes es)) c = Some (c', []) \<and>
    ct_stdout c' = ct_stdout c @ cat_text (cv_localtime env) (ct_config c) (map received es)"
proof -
  have g: "client_ready (ct_client c)" using r by (simp add: cat_ready_def)
  let ?need = "\<lambda>g. 377 - length (client_pending g)" and ?bs = "concat (map entry_bytes es)"
  obtain g' used rest where p: "pump ?need client_step ks ?bs (ct_client c) = Some (g', rest, map received (take (length used div 377) es))"
      "?bs = used @ rest"
    using client_reassembles [OF g z e, of ks] by blast
  have "rest = []"
  proof (rule pump_reads_all [where I = client_ready, OF _ _ g p(1) ks])
    fix g bs g' and ms :: "logEntry_t list"
    assume "bs \<noteq> []" "length bs \<le> ?need g" "client_step g bs = Some (g', ms)" "client_ready g"
    then show "client_ready g'" using client_step_cases [of g bs] by auto
  next
    fix g assume "client_ready g"
    then show "0 < ?need g" using client.pending_short by simp
  qed
  moreover have "length ?bs = 377 * length es" using e
    by (induction es) (simp_all add: entry_ok_def length_entry_bytes)
  ultimately have "take (length used div 377) es = es" using p(2) by simp
  then show ?thesis using cat_stream_pump [OF r p(1)] \<open>rest = []\<close> by (auto simp: cat_print_def)
qed

lemma stored_ok:
  assumes "sys_run lenv denv tr s s'" and "system_up s" and "ie_send (lv_ipc lenv) = DgramSent"
    and "\<forall>(a, s1) \<in> set tr. action_ok (file_config s) a"
  shows "\<forall>b \<in> set (over stored tr). entry_bytes_ok b"
proof -
  have "set (over stored tr) \<subseteq> set (on_the_way s) \<union> set (over (called lenv) tr)"
    using remains_set [OF run_remains [OF assms]] by simp
  moreover have "\<forall>b \<in> set (called lenv p). entry_bytes_ok b" if "p \<in> set tr" for p
    using called_entry(1) [of "file_config s" "fst p" lenv "snd p"] assms(4) that by (cases p) auto
  ultimately show ?thesis using assms(2) by (auto simp: system_up_def)
qed

section \<open>Example instances\<close>

lemma send_everything: "fst (SilogRemoteSendFull (\<lambda>k n. Sent n) buf) = SILOG_OK"
proof (cases "buf = []")
  case True
  then show ?thesis by (simp add: SilogRemoteSendFull_def send_loop.simps [of _ _ 0 0])
next
  case False
  then show ?thesis
    by (simp add: SilogRemoteSendFull_def send_loop.simps [of _ _ 0 0] send_loop.simps [of _ _ "Suc 0" "length buf"])
qed

lemma ex_following: "following 5 (ex_system q)"
  by (simp add: following_def ex_system_def viewers_def one_client_def active_fds_def)

text \<open>The globals a process starts with are those of a system that has never been started.\<close>

lemma globals_fresh:
  "length entry = 384 \<Longrightarrow> daemon_fresh (daemon_globals fs out entry)" "library_fresh (logger_globals out)"
  by (simp_all add: daemon_fresh_def daemon_globals_def g_fileManager_def remote_ok_def g_silogRemoteMgr_def g_silogIpcAgent_def
    library_fresh_def logger_globals_def g_logEntryMgr_def)

abbreviation (input) ex_start_daemon :: SilogDaemon where
  "ex_start_daemon \<equiv> daemon_globals Map.empty \<lparr>po_files = Map.empty, po_stdout = []\<rparr> (replicate 384 0)"

abbreviation (input) ex_start_logger :: logger where
  "ex_start_logger \<equiv> logger_globals \<lparr>po_files = Map.empty, po_stdout = []\<rparr>"

lemma ex_start: "start_env ex_denv (da_fs ex_start_daemon)" "start_lenv ex_lenv"
  using ex_malloc [of "[]" "\<lambda>_. True"]
  by (simp_all add: start_env_def start_lenv_def ex_denv_def daemon_globals_def ex_lenv_def good_env_def setNonblock_def
    SilogFileManagerEnsureDir_def ex_env_def)

lemma ex_fresh: "daemon_fresh ex_start_daemon" "library_fresh ex_start_logger"
  by (simp_all add: globals_fresh)

section \<open>Properties\<close>

text \<open>
  C5. From a fresh process to a running system: with memory, the log directory and file, threads and the
  socket available, starting the daemon succeeds, whether the remote service comes up or not; when its
  threads run only after the start has finished, their first turns and the first log call of a fresh
  application lead to a running system. The log file still has its old text, and the line of that first
  call, when it passes the minimum level, is on its way.
\<close>

theorem silog_starts:
  assumes "daemon_fresh d" and "start_env denv (da_fs d)" and "library_fresh lg" and "start_lenv lenv"
    and "action_ok default_config (ALog c tid lv tag fname line fmt)"
  shows "\<exists>d' tr s'. SilogDaemonInit denv d = Some (SILOG_OK, d') \<and> map fst tr = [ARecv, AWrite fenv v, ALog c tid lv tag fname line fmt] \<and>
    sys_run lenv denv tr (boot lg d') s' \<and> system_up s' \<and> file_config s' = default_config \<and> written s' = old_log (da_fs d) \<and>
    lines_of denv (on_the_way s') = logged lenv denv (ALog c tid lv tag fname line fmt, boot lg d')"
proof -
  obtain d' tr s' where s: "SilogDaemonInit denv d = Some (SILOG_OK, d')" "map fst tr = [ARecv, AWrite fenv v, ALog c tid lv tag fname line fmt]"
      "sys_run lenv denv tr (boot lg d') s'" "system_up s'" "file_config s' = default_config" "written s' = old_log (da_fs d)"
      "on_the_way s' = called lenv (ALog c tid lv tag fname line fmt, boot lg d')"
    using system_boots [OF assms, where fenv = fenv and v = v] by (elim exE conjE) (rule that)
  then have "lines_of denv (on_the_way s') = logged lenv denv (ALog c tid lv tag fname line fmt, boot lg d')"
    using called_entry(2) [OF assms(5)] by simp
  then show ?thesis using s(1-6) by (intro exI [of _ d'] exI [of _ tr] exI [of _ s'] conjI)
qed

theorem silog_starts_witness:
  "\<exists>d' tr s'. SilogDaemonInit ex_denv ex_start_daemon = Some (SILOG_OK, d') \<and> sys_run ex_lenv ex_denv tr (boot ex_start_logger d') s' \<and> system_up s' \<and>
     lines_of ex_denv (on_the_way s') = chars ''[][WARN][pid:42 tid:43][net][a.c:12] up'' @ [10]"
proof -
  obtain d' tr s' where s: "SilogDaemonInit ex_denv ex_start_daemon = Some (SILOG_OK, d')" "sys_run ex_lenv ex_denv tr (boot ex_start_logger d') s'"
      "system_up s'" "lines_of ex_denv (on_the_way s') = logged ex_lenv ex_denv (ex_call, boot ex_start_logger d')"
    using silog_starts [OF ex_fresh(1) ex_start(1) ex_fresh(2) ex_start(2) ex_call_ok, where fenv = ex_fm and v = "\<lambda>_ _ _. SendAgain"]
    by (elim exE conjE) (rule that)
  moreover have "logged ex_lenv ex_denv (ex_call, boot ex_start_logger d') = chars ''[][WARN][pid:42 tid:43][net][a.c:12] up'' @ [10]"
    by (rule ex_logged) (simp add: boot_def logger_globals_def g_logEntryMgr_def)
  ultimately show ?thesis by auto
qed


lemma ex_shown:
  assumes "lm_minLevel (lg_mgr (sy_logger s)) = SILOG_DEBUG"
  shows "concat (map (cat_line (cv_localtime ex_cat_env) (ct_config ex_cat))
      (filter (cat_shows (ct_config ex_cat)) (map (\<lambda>b. received (struct_entry b)) (called ex_lenv (ex_call, s))))) =
    chars ''01-01 00:00:00.120    42    43 W/net: up (a.c:12)'' @ [10]"
proof -
  let ?b = "entry_struct (built_entry (ex_lenv\<lparr>lv_clock := Some (100, 7), lv_tid := 43\<rparr>) SILOG_WARN (chars ''net'') (chars ''a.c'') 12 (chars ''up''))"
  have f: "format_no_args (chars ''up'') = Some (chars ''up'')" by code_simp
  have "sc_minLevel g_silogCatConfig \<le> le_level (received (struct_entry ?b))" by code_simp
  moreover have "cstr (sc_filterTag g_silogCatConfig) = []" by code_simp
  ultimately have "cat_shows g_silogCatConfig (received (struct_entry ?b))"
    unfolding cat_shows_def by (metis append_Nil)
  moreover have "cat_line (cv_localtime ex_cat_env) g_silogCatConfig (received (struct_entry ?b)) =
      chars ''01-01 00:00:00.120    42    43 W/net: up (a.c:12)'' @ [10]"
    by code_simp
  moreover have "called ex_lenv (ex_call, s) = [?b]" using f assms by (simp add: SILOG_DEBUG_def)
  ultimately show ?thesis by (simp add: ex_cat_def del: called.simps)
qed


text \<open>
  C24. A start of the daemon that cannot create one of its two threads reports that and leaves the
  daemon stopped, with no writing thread and no remote service; a receiving thread that was already
  created ends by itself. The ring and the file manager are not released. Once that thread has ended,
  a further start succeeds with an empty ring of its own and a log file that still has its old text.
\<close>

theorem SilogDaemonInit_thread_failure:
  assumes d: "daemon_fresh d" and env: "start_env (env\<lparr>dv_create_recv := 0, dv_create_write := 0\<rparr>) (da_fs d)"
    and fails: "dv_create_recv env \<noteq> 0 \<or> dv_create_write env \<noteq> 0"
    and again: "malloc_ok (dv_fm env')" "dv_create_recv env' = 0" "dv_create_write env' = 0"
  shows "\<exists>d1 d2 d3 d4. SilogDaemonInit env d = Some (SILOG_THREAD_CREATE, d1) \<and> \<not> da_running d1 \<and>
    da_writeThread d1 = NoThread \<and> \<not> rm_isInit (da_remote d1) \<and> fm_initialized (da_files d1) \<and> mq_ok (da_logQueue d1) \<and>
    SilogDaemonRecvThreadFunc env d1 = Some d2 \<and> SilogDaemonRecvThreadFunc env d2 = Some d3 \<and>
    da_recvThread d3 \<in> {NoThread, Returned} \<and>
    SilogDaemonInit env' d3 = Some (SILOG_OK, d4) \<and> da_running d4 \<and> da_recvThread d4 = Created \<and> da_writeThread d4 = Created \<and>
    mq_ok (da_logQueue d4) \<and> daemon_queue d4 = [] \<and> sink_ok (da_files d4, da_fs d4) \<and>
    log_text (da_files d4) (da_fs d4) = old_log (da_fs d)"
proof -
  have f: "\<not> da_running d" "\<not> fm_initialized (da_files d)" "\<not> da_remoteEnabled d" "remote_ok (da_remote d)" "\<not> rm_isInit (da_remote d)"
      "da_recvThread d = NoThread" "da_writeThread d = NoThread"
    using d by (simp_all add: daemon_fresh_def)
  have m: "malloc_ok (dv_fm env)" using env by (simp add: start_env_def)
  obtain g fs where g: "SilogFileManagerInit (dv_fm env) None (da_files d) (da_fs d) = (SILOG_OK, g, fs)" "sink_ok (g, fs)"
      "log_text g fs = old_log (da_fs d)"
    using file_manager_starts [OF f(2) env] by auto
  from daemon_init_run [OF f(1) g(1) m f(4,5,3)] fails f(7) obtain d1 where
    d1: "SilogDaemonInit env d = Some (SILOG_THREAD_CREATE, d1)" "mq_ok (da_logQueue d1)" "da_files d1 = g" "da_fs d1 = fs"
      "remote_ok (da_remote d1)" "da_remoteEnabled d1 = rm_isInit (da_remote d1)" "\<not> da_running d1" "da_remote d1 = da_remote d"
      "da_recvThread d1 \<in> {NoThread, Created}" "da_writeThread d1 = NoThread"
    by (auto split: if_splits)
  from RecvThread_ends [OF d1(7,9), of env] obtain ipc th d2 where
    t: "SilogDaemonRecvThreadFunc env d1 = Some d2" "th \<in> {NoThread, Returned}"
      "SilogDaemonRecvThreadFunc env d2 = Some (d1\<lparr>da_ipc := ipc, da_recvThread := th\<rparr>)" by blast
  let ?d3 = "d1\<lparr>da_ipc := ipc, da_recvThread := th\<rparr>"
  have i: "fm_initialized g" using g(2) by (simp add: sink_ok_def)
  have g3: "SilogFileManagerInit (dv_fm env') None (da_files ?d3) (da_fs ?d3) = (SILOG_OK, g, fs)"
    using file_manager_again [OF i] d1(3,4) by simp
  from daemon_init_run [OF _ g3 again(1)] d1(5-8) f(5) again(2,3) obtain d4 where
    "SilogDaemonInit env' ?d3 = Some (SILOG_OK, d4)" "mq_ok (da_logQueue d4)" "daemon_queue d4 = []" "da_files d4 = g" "da_fs d4 = fs"
      "da_running d4" "da_recvThread d4 = Created" "da_writeThread d4 = Created"
    by auto
  then show ?thesis using d1 t g(2,3) i f(5) by (intro exI [of _ d1] exI [of _ d2] exI [of _ ?d3] exI [of _ d4]) auto
qed

theorem SilogDaemonInit_thread_failure_witness:
  "\<exists>d1 d2 d3 d4. SilogDaemonInit (ex_denv\<lparr>dv_create_write := 11\<rparr>) ex_start_daemon = Some (SILOG_THREAD_CREATE, d1) \<and>
     SilogDaemonRecvThreadFunc (ex_denv\<lparr>dv_create_write := 11\<rparr>) d1 = Some d2 \<and>
     SilogDaemonRecvThreadFunc (ex_denv\<lparr>dv_create_write := 11\<rparr>) d2 = Some d3 \<and>
     SilogDaemonInit ex_denv d3 = Some (SILOG_OK, d4) \<and> da_running d4"
proof -
  have e: "(ex_denv\<lparr>dv_create_write := 11\<rparr>)\<lparr>dv_create_recv := 0, dv_create_write := 0\<rparr> = ex_denv" by (simp add: ex_denv_def)
  have "malloc_ok (dv_fm ex_denv)" "dv_create_recv ex_denv = 0" "dv_create_write ex_denv = 0"
    using ex_start(1) by (simp_all add: start_env_def)
  then show ?thesis
    using SilogDaemonInit_thread_failure [of ex_start_daemon "ex_denv\<lparr>dv_create_write := 11\<rparr>" ex_denv] ex_fresh(1) ex_start(1)
    unfolding e by auto
qed

end
