(* ===== verification/Silog_Exe.thy ===== *)
theory Silog_Exe
  imports Silog_Daemon_Ok
begin

text \<open>
  The program that starts, stops and tests the daemon (\<open>silog_exe/src/silog_exe.c\<close>). The record holds
  the globals of the process (those of the daemon it may become), the pid file, the output, the signals
  and the datagrams it has sent. The daemon is probed by connecting to its socket, so what a probe finds
  is an argument, one for each probe. A function that ends in the endless loop returns \<open>Serving\<close>.
\<close>

section \<open>State\<close>

record silog_exe =
  xe_daemon :: SilogDaemon
  xe_pidfile :: "byte list option"
  xe_stdout :: "byte list"
  xe_stderr :: "byte list"
  xe_signals :: "(int \<times> nat) list"
  xe_sent :: "byte list list"

datatype exe_end = Exit int | Serving

abbreviation (input) "SIGKILL \<equiv> (9::nat)"
abbreviation (input) "SIGTERM \<equiv> (15::nat)"

record exe_env =
  xv_probe :: "nat \<Rightarrow> ipc_env"
  xv_fopen_pid :: bool
  xv_fork :: int
  xv_setsid :: int
  xv_kill :: "nat \<Rightarrow> int"
  xv_pid :: u32
  xv_strerror :: "byte list"
  xv_daemon :: daemon_env

definition exe_print :: "byte list \<Rightarrow> silog_exe \<Rightarrow> silog_exe" where
  "exe_print t x = x\<lparr>xe_stdout := xe_stdout x @ t\<rparr>"

definition exe_error :: "byte list \<Rightarrow> silog_exe \<Rightarrow> silog_exe" where
  "exe_error t x = x\<lparr>xe_stderr := xe_stderr x @ t\<rparr>"

definition exe_kill :: "int \<Rightarrow> nat \<Rightarrow> silog_exe \<Rightarrow> silog_exe" where
  "exe_kill pid sig x = x\<lparr>xe_signals := xe_signals x @ [(pid, sig)]\<rparr>"

section \<open>Probing and the pid file\<close>

text \<open>The text is in UTF-8.\<close>

definition SilogExePrintUsage :: "byte list \<Rightarrow> silog_exe \<Rightarrow> silog_exe" where
  "SilogExePrintUsage program = exe_print
     (chars ''SiLog - '' @ [230, 151, 165, 229, 191, 151, 231, 179, 187, 231, 187, 159, 229, 174, 136, 230, 138, 164, 232, 191, 155, 231, 168, 139, 231, 174, 161, 231, 144, 134, 229, 183, 165, 229, 133, 183] @ [10] @ [10] @
      chars ''Usage: '' @ program @ chars '' [command] [options]'' @ [10] @ [10] @
      chars ''Commands:'' @ [10] @
      chars ''  start                '' @ [229, 144, 175, 229, 138, 168, 229, 174, 136, 230, 138, 164, 232, 191, 155, 231, 168, 139] @ [10] @
      chars ''  stop                 '' @ [229, 129, 156, 230, 173, 162, 229, 174, 136, 230, 138, 164, 232, 191, 155, 231, 168, 139] @ [10] @
      chars ''  status               '' @ [230, 159, 165, 231, 156, 139, 229, 174, 136, 230, 138, 164, 232, 191, 155, 231, 168, 139, 231, 138, 182, 230, 128, 129] @ [10] @
      chars ''  test                 '' @ [229, 143, 145, 233, 128, 129, 230, 181, 139, 232, 175, 149, 230, 151, 165, 229, 191, 151] @ [10] @
      [10] @ chars ''Options:'' @ [10] @
      chars ''  -d, --daemon         '' @ [229, 144, 142, 229, 143, 176, 232, 191, 144, 232, 161, 140, 230, 168, 161, 229, 188, 143] @ [10] @
      chars ''  -h, --help           '' @ [230, 152, 190, 231, 164, 186, 229, 184, 174, 229, 138, 169] @ [10] @
      [10] @ chars ''Examples:'' @ [10] @
      chars ''  '' @ program @ chars '' start             # '' @ [229, 137, 141, 229, 143, 176, 229, 144, 175, 229, 138, 168, 229, 174, 136, 230, 138, 164, 232, 191, 155, 231, 168, 139] @ [10] @
      chars ''  '' @ program @ chars '' start -d          # '' @ [229, 144, 142, 229, 143, 176, 229, 144, 175, 229, 138, 168, 229, 174, 136, 230, 138, 164, 232, 191, 155, 231, 168, 139] @ [10] @
      chars ''  '' @ program @ chars '' status            # '' @ [230, 159, 165, 231, 156, 139, 229, 174, 136, 230, 138, 164, 232, 191, 155, 231, 168, 139, 231, 138, 182, 230, 128, 129] @ [10] @
      chars ''  '' @ program @ chars '' stop              # '' @ [229, 129, 156, 230, 173, 162, 229, 174, 136, 230, 138, 164, 232, 191, 155, 231, 168, 139] @ [10] @
      chars ''  '' @ program @ chars '' test              # '' @ [229, 143, 145, 233, 128, 129, 230, 181, 139, 232, 175, 149, 230, 151, 165, 229, 191, 151] @ [10])"

definition SilogExeDaemonIsRunning :: "ipc_env \<Rightarrow> silog_exe \<Rightarrow> bool \<times> silog_exe" where
  "SilogExeDaemonIsRunning env x =
     (case SilogIpcClientInit env (SilogIpcInit SILOG_IPC_TYPE_UNIX_DGRAM (da_ipc (xe_daemon x))) of (ret, ipc) \<Rightarrow>
        if ret = SILOG_OK then (True, x\<lparr>xe_daemon := (xe_daemon x)\<lparr>da_ipc := SilogIpcClientClose ipc\<rparr>\<rparr>)
        else (False, x\<lparr>xe_daemon := (xe_daemon x)\<lparr>da_ipc := ipc\<rparr>\<rparr>))"

definition SilogExeWritePidFile :: "exe_env \<Rightarrow> int \<Rightarrow> silog_exe \<Rightarrow> silog_exe" where
  "SilogExeWritePidFile env pid x = (if xv_fopen_pid env then x\<lparr>xe_pidfile := Some (dec_int pid @ [10])\<rparr> else x)"

text \<open>\<open>fscanf\<close> with \<open>%d\<close>: no number if the first character after blanks and sign is no digit.\<close>

definition scan_int :: "byte list \<Rightarrow> int option c_result" where
  "scan_int s =
     (let t = dropWhile c_isspace s; d = (case t of c # cs \<Rightarrow> if c = 45 \<or> c = 43 then cs else t | [] \<Rightarrow> [])
      in case d of
           [] \<Rightarrow> Some None
         | c # cs \<Rightarrow> if 48 \<le> c \<and> c \<le> 57 then map_option Some (c_atoi t) else Some None)"

definition SilogExeReadPidFile :: "silog_exe \<Rightarrow> int c_result" where
  "SilogExeReadPidFile x =
     (case xe_pidfile x of
        None \<Rightarrow> Some (-1)
      | Some s \<Rightarrow> do { r \<leftarrow> scan_int s; Some (case r of None \<Rightarrow> -1 | Some pid \<Rightarrow> pid) })"

definition SilogExeRemovePidFile :: "silog_exe \<Rightarrow> silog_exe" where
  "SilogExeRemovePidFile x = x\<lparr>xe_pidfile := None\<rparr>"

text \<open>The waiting loops: a probe every 100 ms until the daemon is, or is no longer, running.\<close>

fun probe_until :: "(nat \<Rightarrow> ipc_env) \<Rightarrow> bool \<Rightarrow> nat list \<Rightarrow> silog_exe \<Rightarrow> bool \<times> silog_exe" where
  "probe_until probe goal [] x = (False, x)"
| "probe_until probe goal (i # is) x =
     (case SilogExeDaemonIsRunning (probe i) x of (running, x1) \<Rightarrow>
        if running = goal then (True, x1) else probe_until probe goal is x1)"

section \<open>Commands\<close>

text \<open>The part both ways of starting share: the diagnostics and the daemon itself.\<close>

definition exe_serve :: "exe_env \<Rightarrow> bool \<Rightarrow> silog_exe \<Rightarrow> (ErrorCode \<times> silog_exe) c_result" where
  "exe_serve env enableStdout x =
     (case SilogPrelogInit (dv_fopen (xv_daemon env))
        (Some \<lparr>pc_path = chars ''/tmp/silog_exe.txt'', pc_minLevel = SILOG_PRELOG_LEVEL_DEBUG, pc_enableStdout = enableStdout\<rparr>)
        (da_prelog (xe_daemon x)) (da_out (xe_daemon x)) of (r, pl, out) \<Rightarrow> do {
          (ret, d) \<leftarrow> SilogDaemonInit (xv_daemon env) ((xe_daemon x)\<lparr>da_prelog := pl, da_out := out\<rparr>);
          Some (ret, x\<lparr>xe_daemon := d\<rparr>)
        })"

definition SilogExeStartForeground :: "exe_env \<Rightarrow> silog_exe \<Rightarrow> (exe_end \<times> silog_exe) c_result" where
  "SilogExeStartForeground env x = do {
     (ret, x1) \<leftarrow> exe_serve env True x;
     if ret \<noteq> SILOG_OK then Some (Exit (error_value ret), x1)
     else Some (Serving, exe_print (chars ''SiLog Daemon is running (PID: '' @ dec_int (sint (xv_pid env)) @ chars '')'' @ [10] @
       chars ''Press Ctrl+C to stop'' @ [10, 10]) x1)
   }"

text \<open>
  The parent's and, when \<open>fork\<close> returns 0, the child's part. The child's output goes to
  \<open>/dev/null\<close>.
\<close>

definition SilogExeStartDaemon :: "exe_env \<Rightarrow> silog_exe \<Rightarrow> (exe_end \<times> silog_exe) c_result" where
  "SilogExeStartDaemon env x =
     (case SilogExeDaemonIsRunning (xv_probe env 0) x of (running, x1) \<Rightarrow>
        if running then Some (Exit (error_value SILOG_OK), exe_print (chars ''SiLog Daemon is already running'' @ [10]) x1)
        else
          let pid = xv_fork env
          in if pid < 0 then Some (Exit (error_value SILOG_SYS_CALL), exe_error (chars ''fork failed: '' @ xv_strerror env @ [10]) x1)
             else if pid > 0 then
               let x2 = exe_print (chars ''Starting SiLog Daemon...'' @ [10]) x1
               in case probe_until (xv_probe env) True [1..<31] x2 of (started, x3) \<Rightarrow>
                    if started then Some (Exit (error_value SILOG_OK), SilogExeWritePidFile env pid
                      (exe_print (chars ''SiLog Daemon started successfully (PID: '' @ dec_int pid @ chars '')'' @ [10]) x3))
                    else Some (Exit (error_value SILOG_TIMEOUT), exe_error (chars ''Failed to start SiLog Daemon'' @ [10]) x3)
             else if xv_setsid env < 0 then Some (Exit 1, exe_error (chars ''setsid failed: '' @ xv_strerror env @ [10]) x1)
             else do {
               (ret, x2) \<leftarrow> exe_serve env False x1;
               if ret \<noteq> SILOG_OK then Some (Exit 1, x2) else Some (Serving, x2)
             })"

definition exe_stopped :: "silog_exe \<Rightarrow> silog_exe" where
  "exe_stopped x = exe_print (chars ''SiLog Daemon stopped'' @ [10]) x"

definition SilogExeStopDaemon :: "exe_env \<Rightarrow> silog_exe \<Rightarrow> (ErrorCode \<times> silog_exe) c_result" where
  "SilogExeStopDaemon env x =
     (case SilogExeDaemonIsRunning (xv_probe env 0) x of (running, x1) \<Rightarrow>
        if \<not> running then
          Some (SILOG_OK, SilogExeRemovePidFile (exe_print (chars ''SiLog Daemon is not running'' @ [10]) x1))
        else do {
          pid \<leftarrow> SilogExeReadPidFile x1;
          if pid > 0 then
            let x2 = exe_kill pid SIGTERM x1
            in if xv_kill env SIGTERM = 0 then
                 (case probe_until (xv_probe env) False [1..<31] x2 of (gone, x3) \<Rightarrow>
                    if gone then Some (SILOG_OK, SilogExeRemovePidFile (exe_stopped x3))
                    else Some (SILOG_OK, exe_stopped (SilogExeRemovePidFile
                      (exe_kill pid SIGKILL (exe_print (chars ''Force stopping SiLog Daemon...'' @ [10]) x3)))))
               else Some (SILOG_OK, exe_stopped (SilogExeRemovePidFile x2))
          else Some (SILOG_OK, exe_stopped (SilogExeRemovePidFile x1))
        })"

definition SilogExeShowStatus :: "exe_env \<Rightarrow> silog_exe \<Rightarrow> (ErrorCode \<times> silog_exe) c_result" where
  "SilogExeShowStatus env x =
     (case SilogExeDaemonIsRunning (xv_probe env 0) x of (running, x1) \<Rightarrow>
        let x2 = exe_print (chars ''SiLog Daemon Status:'' @ [10] @
          chars ''  Running: '' @ (if running then chars ''Yes'' else chars ''No'') @ [10]) x1
        in if running then do {
             pid \<leftarrow> SilogExeReadPidFile x2;
             let x3 = (if pid > 0 then exe_print (chars ''  PID: '' @ dec_int pid @ [10]) x2 else x2);
             let clientCount = SilogRemoteGetClientCount (da_remote (xe_daemon x3));
             Some (SILOG_OK, exe_print (chars ''  Remote clients: '' @ dec (unat clientCount) @ [10] @
               [10] @ chars ''SiLog is ready to receive logs.'' @ [10] @
               chars ''Use SILOG_I(), SILOG_D(), etc. macros to send logs.'' @ [10]) x3)
           }
           else Some (SILOG_OK, exe_print ([10] @ chars ''SiLog Daemon is not running.'' @ [10] @
             chars ''Start it with: silog start'' @ [10]) x2))"

section \<open>Test logs\<close>

definition exe_send :: "ipc_env \<Rightarrow> logEntry_t \<Rightarrow> silog_exe \<Rightarrow> silog_exe" where
  "exe_send env e x =
     (case SilogIpcClientSend env (entry_struct e) 384 (da_ipc (xe_daemon x)) of (r, out, ipc) \<Rightarrow>
        x\<lparr>xe_daemon := (xe_daemon x)\<lparr>da_ipc := ipc\<rparr>, xe_sent := xe_sent x @ out\<rparr>)"

text \<open>Level and text of an entry are changed between two sends, the rest stays.\<close>

definition test_entry :: "u32 \<Rightarrow> byte list \<Rightarrow> logEntry_t \<Rightarrow> logEntry_t c_result" where
  "test_entry level t e = do {
     msg \<leftarrow> c_strncpy (le_msg e) t (SILOG_MSG_MAX_LEN - 1);
     m \<leftarrow> array_string msg;
     Some (e\<lparr>le_level := level, le_msg := msg, le_msgLen := word_of_nat (length m)\<rparr>)
   }"

definition SilogExeSendTestLogs :: "exe_env \<Rightarrow> silog_exe \<Rightarrow> (ErrorCode \<times> silog_exe) c_result" where
  "SilogExeSendTestLogs env x =
     (case SilogExeDaemonIsRunning (xv_probe env 0) x of (running, x0) \<Rightarrow>
        if \<not> running then Some (SILOG_TRANS_NOT_INIT, exe_error (chars ''Error: SiLog Daemon is not running.'' @ [10] @
          chars ''Start it with: silog start'' @ [10]) x0)
        else
          let x1 = exe_print (chars ''Sending test logs to SiLog Daemon...'' @ [10, 10]) x0
          in case SilogIpcClientInit (xv_probe env 1) (SilogIpcInit SILOG_IPC_TYPE_UNIX_DGRAM (da_ipc (xe_daemon x1))) of (ret, ipc) \<Rightarrow>
               let x2 = x1\<lparr>xe_daemon := (xe_daemon x1)\<lparr>da_ipc := ipc\<rparr>\<rparr>
               in if ret \<noteq> SILOG_OK then Some (ret, exe_error (chars ''Failed to connect to daemon: '' @ dec_int (error_value ret) @ [10]) x2)
                  else do {
                    let entry = \<lparr>le_ts = 0, le_pid = xv_pid env, le_tid = xv_pid env, le_level = 0, le_tag = replicate 32 0,
                      le_file = replicate 64 0, le_line = 1, le_msg = replicate 256 0, le_msgLen = 0, le_enabled = 1\<rparr>;
                    tag \<leftarrow> c_strncpy (le_tag entry) (chars ''Test'') (SILOG_TAG_MAX_LEN - 1);
                    fname \<leftarrow> c_strncpy (le_file entry) (chars ''test.cpp'') (SILOG_FILE_MAX_LEN - 1);
                    e1 \<leftarrow> test_entry SILOG_DEBUG (chars ''This is a DEBUG test message'') (entry\<lparr>le_tag := tag, le_file := fname\<rparr>);
                    let x3 = exe_print (chars ''[DEBUG] Test message sent'' @ [10]) (exe_send (xv_probe env 1) e1 x2);
                    e2 \<leftarrow> test_entry SILOG_INFO (chars ''This is an INFO test message'') e1;
                    let x4 = exe_print (chars ''[INFO] Test message sent'' @ [10]) (exe_send (xv_probe env 2) e2 x3);
                    e3 \<leftarrow> test_entry SILOG_WARN (chars ''This is a WARN test message'') e2;
                    let x5 = exe_print (chars ''[WARN] Test message sent'' @ [10]) (exe_send (xv_probe env 3) e3 x4);
                    e4 \<leftarrow> test_entry SILOG_ERROR (chars ''This is an ERROR test message'') e3;
                    let x6 = exe_print (chars ''[ERROR] Test message sent'' @ [10]) (exe_send (xv_probe env 4) e4 x5);
                    let x7 = x6\<lparr>xe_daemon := (xe_daemon x6)\<lparr>da_ipc := SilogIpcClientClose (da_ipc (xe_daemon x6))\<rparr>\<rparr>;
                    Some (SILOG_OK, exe_print ([10] @ chars ''Test logs sent successfully.'' @ [10] @
                      chars ''Check the log file: /tmp/silog_daemon.txt'' @ [10]) x7)
                  })"

section \<open>The program\<close>

definition silog_main :: "exe_env \<Rightarrow> byte list list \<Rightarrow> silog_exe \<Rightarrow> (exe_end \<times> silog_exe) c_result" where
  "silog_main env argv x =
     (if length argv < 2 then Some (Exit 1, SilogExePrintUsage (hd argv) x)
      else
        let command = argv ! 1;
            daemon_mode = (length argv \<ge> 3 \<and> (argv ! 2 = chars ''-d'' \<or> argv ! 2 = chars ''--daemon''))
        in if command = chars ''start'' then
             if daemon_mode then SilogExeStartDaemon env x else SilogExeStartForeground env x
           else if command = chars ''stop'' then map_option (\<lambda>(r, x'). (Exit (error_value r), x')) (SilogExeStopDaemon env x)
           else if command = chars ''status'' then map_option (\<lambda>(r, x'). (Exit (error_value r), x')) (SilogExeShowStatus env x)
           else if command = chars ''test'' then map_option (\<lambda>(r, x'). (Exit (error_value r), x')) (SilogExeSendTestLogs env x)
           else if command = chars ''-h'' \<or> command = chars ''--help'' then Some (Exit 0, SilogExePrintUsage (hd argv) x)
           else Some (Exit 1, SilogExePrintUsage (hd argv) (exe_error (chars ''Unknown command: '' @ command @ [10, 10]) x)))"

section \<open>Probes\<close>

text \<open>A probe finds a daemon when a socket can be connected to its address.\<close>

definition answers :: "ipc_env \<Rightarrow> bool" where
  "answers e \<longleftrightarrow> 0 \<le> ie_socket e \<and> setNonblock (ie_fcntl e) (ie_socket e) = SILOG_OK \<and> 0 \<le> ie_connect e logd_address"

definition only_ipc :: "silog_exe \<Rightarrow> silog_exe \<Rightarrow> bool" where
  "only_ipc x x' \<longleftrightarrow> (\<exists>ipc. x' = x\<lparr>xe_daemon := (xe_daemon x)\<lparr>da_ipc := ipc\<rparr>\<rparr>)"

lemma only_ipcD:
  assumes "only_ipc x x'"
  shows "xe_pidfile x' = xe_pidfile x" "xe_signals x' = xe_signals x" "xe_stdout x' = xe_stdout x" "xe_sent x' = xe_sent x"
  using assms by (auto simp: only_ipc_def)

lemma only_ipc_trans: "only_ipc x y \<Longrightarrow> only_ipc y z \<Longrightarrow> only_ipc x z"
  by (auto simp: only_ipc_def)

lemma ipc_is_init: "ia_isInit (SilogIpcInit SILOG_IPC_TYPE_UNIX_DGRAM g)"
  by (simp add: SilogIpcInit_def)

lemma IsRunning_answers:
  obtains x' where "SilogExeDaemonIsRunning e x = (answers e, x')" and "only_ipc x x'"
proof -
  obtain r b where x': "SilogIpcClientInit e (SilogIpcInit SILOG_IPC_TYPE_UNIX_DGRAM (da_ipc (xe_daemon x))) = (r, b)" by fastforce
  have "r = SILOG_OK \<longleftrightarrow> answers e"
    using x' ipc_is_init setNonblock_codes [of "ie_fcntl e" "ie_socket e"]
    by (auto simp: SilogIpcClientInit_def SilogIpcDgramClientInit_def answers_def Let_def split: if_splits)
  then show thesis
    using x' by (intro that [of "x\<lparr>xe_daemon := (xe_daemon x)\<lparr>da_ipc := (if r = SILOG_OK then SilogIpcClientClose b else b)\<rparr>\<rparr>"])
      (auto simp: SilogExeDaemonIsRunning_def only_ipc_def)
qed

lemma probe_until_answers:
  obtains x' where "probe_until probe goal is x = ((\<exists>i \<in> set is. answers (probe i) = goal), x')" and "only_ipc x x'"
proof -
  have "\<exists>x'. probe_until probe goal is x = ((\<exists>i \<in> set is. answers (probe i) = goal), x') \<and> only_ipc x x'"
  proof (induction "is" arbitrary: x)
    case Nil
    then show ?case by (auto simp: only_ipc_def intro: exI [of _ "da_ipc (xe_daemon x)"])
  next
    case (Cons i "is")
    obtain x1 where x1: "SilogExeDaemonIsRunning (probe i) x = (answers (probe i), x1)" "only_ipc x x1" by (rule IsRunning_answers)
    obtain x2 where "probe_until probe goal is x1 = ((\<exists>i \<in> set is. answers (probe i) = goal), x2)" "only_ipc x1 x2"
      using Cons.IH by blast
    then show ?case using x1 only_ipc_trans by auto
  qed
  then show thesis using that by blast
qed

section \<open>The pid file\<close>

lemma digit_word: "n < 10 \<Longrightarrow> unat (word_of_nat (48 + n) :: byte) = 48 + n"
  by (simp add: unat_of_nat del: of_nat_add)

lemma digit_range: "n < 10 \<Longrightarrow> 48 \<le> (word_of_nat (48 + n) :: byte) \<and> (word_of_nat (48 + n) :: byte) \<le> 57"
  using digit_word [of n] by (simp add: word_le_nat_alt del: of_nat_add)

lemma digits_value_dec: "digits_value acc (dec n @ cs) = digits_value (acc * 10 ^ length (dec n) + n) cs"
proof (induction n arbitrary: cs rule: dec.induct)
  case (1 n)
  have d: "digits_value a (word_of_nat (48 + n mod 10) # cs) = digits_value (10 * a + n mod 10) cs" for a
    using digit_range [of "n mod 10"] digit_word [of "n mod 10"] by (simp del: of_nat_add)
  show ?case
  proof (cases "n < 10")
    case True
    then show ?thesis using d [of acc] by (simp add: dec.simps [of n] mult.commute)
  next
    case False
    have "digits_value acc (dec n @ cs) = digits_value acc (dec (n div 10) @ word_of_nat (48 + n mod 10) # cs)"
      using False by (simp add: dec.simps [of n])
    also have "\<dots> = digits_value (10 * (acc * 10 ^ length (dec (n div 10)) + n div 10) + n mod 10) cs"
      by (simp only: 1 [OF False] d)
    also have "10 * (acc * 10 ^ length (dec (n div 10)) + n div 10) + n mod 10 = acc * 10 ^ length (dec n) + n"
      using False by (simp add: dec.simps [of n] algebra_simps)
    finally show ?thesis .
  qed
qed

lemma dec_head: "\<exists>c cs. dec n = c # cs \<and> 48 \<le> c \<and> c \<le> 57"
proof (induction n rule: dec.induct)
  case (1 n)
  then show ?case using digit_range [of n] by (cases "n < 10") (auto simp: dec.simps [of n] simp del: of_nat_add)
qed

lemma scan_dec:
  assumes "n < 2 ^ 31"
  shows "scan_int (dec n @ [10]) = Some (Some (int n))"
proof -
  obtain c cs where c: "dec n = c # cs" "48 \<le> c" "c \<le> 57" using dec_head by blast
  have "\<not> c_isspace c" "c \<noteq> 45" "c \<noteq> 43" using c(2,3) by (auto simp: c_isspace_def word_le_nat_alt)
  moreover have "digits_value 0 (dec n @ [10]) = n" by (simp add: digits_value_dec)
  ultimately show ?thesis using c assms by (simp add: scan_int_def c_atoi_def)
qed

lemma pid_round_trip_file:
  assumes "0 \<le> pid" and "pid < 2 ^ 31" and "xe_pidfile x = Some (dec_int pid @ [10])"
  shows "SilogExeReadPidFile x = Some pid"
  using assms scan_dec [of "nat pid"]
  by (simp add: SilogExeReadPidFile_def dec_int_def int_pad_def dec_pad_def nat_less_iff)

section \<open>Stopping\<close>

definition stop_signals :: "exe_env \<Rightarrow> int \<Rightarrow> (int \<times> nat) list" where
  "stop_signals env pid =
     (if pid \<le> 0 then []
      else if xv_kill env SIGTERM = 0 \<and> (\<forall>i \<in> {1..<31}. answers (xv_probe env i)) then [(pid, SIGTERM), (pid, SIGKILL)]
      else [(pid, SIGTERM)])"

lemmas exe_updates = exe_print_def exe_error_def exe_kill_def exe_stopped_def SilogExeRemovePidFile_def

lemma StopDaemon_run:
  assumes "answers (xv_probe env 0)" and "SilogExeReadPidFile x = Some pid"
  shows "\<exists>x' forced. SilogExeStopDaemon env x = Some (SILOG_OK, x') \<and> xe_pidfile x' = None \<and>
    xe_signals x' = xe_signals x @ stop_signals env pid \<and>
    xe_stdout x' = xe_stdout x @ forced @ chars ''SiLog Daemon stopped'' @ [10] \<and> (pid \<le> 0 \<longrightarrow> forced = [])"
proof -
  obtain x1 where x1: "SilogExeDaemonIsRunning (xv_probe env 0) x = (True, x1)" "only_ipc x x1"
    using IsRunning_answers [of "xv_probe env 0" x] assms(1) by auto
  note o1 = only_ipcD [OF x1(2)]
  have p: "SilogExeReadPidFile x1 = Some pid" using assms(2) o1(1) by (simp add: SilogExeReadPidFile_def)
  obtain x3 where x3: "probe_until (xv_probe env) False [1..<31] (exe_kill pid SIGTERM x1) =
      ((\<exists>i \<in> set [1..<31]. answers (xv_probe env i) = False), x3)" "only_ipc (exe_kill pid SIGTERM x1) x3"
    by (rule probe_until_answers)
  note o3 = only_ipcD [OF x3(2)]
  show ?thesis
  proof (cases "pid > 0 \<and> xv_kill env SIGTERM = 0")
    case False
    then show ?thesis using x1 p o1
      by (cases "pid > 0") (simp_all add: SilogExeStopDaemon_def stop_signals_def exe_updates)
  next
    case True
    show ?thesis
    proof (cases "\<forall>i \<in> {1..<31}. answers (xv_probe env i)")
      case all: True
      then show ?thesis using True x1 p x3(1) o3 o1
        by (simp add: SilogExeStopDaemon_def stop_signals_def exe_updates)
    next
      case some: False
      then have "probe_until (xv_probe env) False [1..<31] (exe_kill pid SIGTERM x1) = (True, x3)" using x3(1) by auto
      then show ?thesis using True some x1 p o3 o1
        by (simp add: SilogExeStopDaemon_def stop_signals_def exe_updates)
    qed
  qed
qed

section \<open>Test entries\<close>

lemma strncpy_zero:
  assumes "length dest = Suc n" and "dest ! n = 0" and "length v \<le> n"
  shows "c_strncpy dest v n = Some (v @ replicate (Suc n - length v) 0)"
proof -
  have "drop n dest = [0]" using assms(1,2) by (metis Cons_nth_drop_Suc drop_eq_Nil le_refl lessI)
  then show ?thesis
    using assms by (simp add: c_strncpy_def store_def overwrite_def Suc_diff_le replicate_append_same)
qed

definition message_of :: "u32 \<Rightarrow> byte list \<Rightarrow> logEntry_t \<Rightarrow> logEntry_t" where
  "message_of level t e = e\<lparr>le_level := level, le_msg := t @ replicate (256 - length t) 0, le_msgLen := word_of_nat (length t)\<rparr>"

lemma test_entry_run:
  assumes "entry_ok e" and "0 \<notin> set t" and "length t < 256" and "level \<le> SILOG_FATAL"
  shows "test_entry level t e = Some (message_of level t e) \<and> entry_ok (message_of level t e) \<and> cstr (le_msg (message_of level t e)) = t"
proof -
  let ?m = "t @ replicate (256 - length t) 0"
  have m: "c_strncpy (le_msg e) t 255 = Some ?m" using assms(1,3) strncpy_zero [of "le_msg e" 255 t]
    by (simp add: entry_ok_def entry_shape_def)
  obtain k where k: "256 - length t = Suc k" using assms(3) by (metis Suc_diff_Suc)
  have c: "cstr ?m = t" unfolding k using cstr_append_zero [OF assms(2), of "replicate k 0"] by simp
  have "?m ! 255 = 0" using assms(3) by (simp add: nth_append)
  moreover have "array_string ?m = Some t" using c k by (simp add: array_string_def)
  ultimately show ?thesis using assms m c by (simp add: test_entry_def message_of_def entry_ok_def entry_shape_def)
qed

definition blank_test :: "u32 \<Rightarrow> logEntry_t" where
  "blank_test pid = \<lparr>le_ts = 0, le_pid = pid, le_tid = pid, le_level = 0, le_tag = chars ''Test'' @ replicate 28 0,
     le_file = chars ''test.cpp'' @ replicate 56 0, le_line = 1, le_msg = replicate 256 0, le_msgLen = 0, le_enabled = 1\<rparr>"

lemma blank_test_ok: "entry_ok (blank_test pid)"
  by (simp add: blank_test_def entry_ok_def entry_shape_def chars_def)

text \<open>The four entries, each made from the one before.\<close>

definition test_entries :: "u32 \<Rightarrow> logEntry_t list" where
  "test_entries pid =
     (let e1 = message_of SILOG_DEBUG (chars ''This is a DEBUG test message'') (blank_test pid);
          e2 = message_of SILOG_INFO (chars ''This is an INFO test message'') e1;
          e3 = message_of SILOG_WARN (chars ''This is a WARN test message'') e2;
          e4 = message_of SILOG_ERROR (chars ''This is an ERROR test message'') e3
      in [e1, e2, e3, e4])"

lemmas levels = SILOG_DEBUG_def SILOG_INFO_def SILOG_WARN_def SILOG_ERROR_def SILOG_FATAL_def

definition connected :: "silog_exe \<Rightarrow> bool" where
  "connected x \<longleftrightarrow> ia_isInit (da_ipc (xe_daemon x)) \<and> 0 \<le> ia_sendFd (da_ipc (xe_daemon x))"

lemma exe_send_run:
  assumes "connected x" and "ie_send env = DgramSent" and "entry_ok e"
  shows "exe_send env e x = x\<lparr>xe_sent := xe_sent x @ [entry_struct e]\<rparr>"
  using assms length_entry_struct [of e]
  by (simp add: exe_send_def connected_def SilogIpcClientSend_def SilogIpcDgramClientSend_def entry_ok_def)

lemma connected_simps [simp]:
  "connected (exe_print t x) = connected x" "connected (x\<lparr>xe_sent := ds\<rparr>) = connected x" "xe_sent (exe_print t x) = xe_sent x"
  by (simp_all add: connected_def exe_print_def)

lemma connects:
  assumes "answers env"
  shows "\<exists>ipc. SilogIpcClientInit env (SilogIpcInit SILOG_IPC_TYPE_UNIX_DGRAM g) = (SILOG_OK, ipc) \<and> ia_isInit ipc \<and> 0 \<le> ia_sendFd ipc"
  using assms ipc_is_init [of g]
  by (simp add: SilogIpcClientInit_def SilogIpcDgramClientInit_def answers_def Let_def ipc_open_def)

lemma test_messages:
  "0 \<notin> set (chars ''This is a DEBUG test message'') \<and> 0 \<notin> set (chars ''This is an INFO test message'') \<and>
   0 \<notin> set (chars ''This is a WARN test message'') \<and> 0 \<notin> set (chars ''This is an ERROR test message'')"
  by (simp add: chars_def)

lemma test_entries_ok:
  "(\<forall>e \<in> set (test_entries pid). entry_ok e) \<and> map (\<lambda>e. cstr (le_msg e)) (test_entries pid) =
     [chars ''This is a DEBUG test message'', chars ''This is an INFO test message'',
      chars ''This is a WARN test message'', chars ''This is an ERROR test message'']"
proof -
  have m: "entry_ok (message_of l t e) \<and> cstr (le_msg (message_of l t e)) = t"
    if "entry_ok e" "0 \<notin> set t" "length t < 256" "l \<le> SILOG_FATAL" for l t e
    using test_entry_run [OF that] by blast
  show ?thesis using test_messages by (simp add: test_entries_def Let_def m blank_test_ok levels)
qed

lemma SendTestLogs_run:
  assumes "\<forall>i \<in> {0, 1}. answers (xv_probe env i)" and "\<forall>i \<in> {1, 2, 3, 4}. ie_send (xv_probe env i) = DgramSent"
  shows "\<exists>x'. SilogExeSendTestLogs env x = Some (SILOG_OK, x') \<and>
    xe_sent x' = xe_sent x @ map entry_struct (test_entries (xv_pid env))"
proof -
  obtain x0 where x0: "SilogExeDaemonIsRunning (xv_probe env 0) x = (True, x0)" "only_ipc x x0"
    using IsRunning_answers [of "xv_probe env 0" x] assms(1) by auto
  define x1 where "x1 = exe_print (chars ''Sending test logs to SiLog Daemon...'' @ [10, 10]) x0"
  obtain ipc where ipc: "SilogIpcClientInit (xv_probe env 1) (SilogIpcInit SILOG_IPC_TYPE_UNIX_DGRAM (da_ipc (xe_daemon x1))) = (SILOG_OK, ipc)"
      "ia_isInit ipc" "0 \<le> ia_sendFd ipc"
    using connects assms(1) by blast
  define x2 where "x2 = x1\<lparr>xe_daemon := (xe_daemon x1)\<lparr>da_ipc := ipc\<rparr>\<rparr>"
  have c: "connected x2" "xe_sent x2 = xe_sent x"
    using ipc only_ipcD(4) [OF x0(2)] by (simp_all add: x2_def x1_def connected_def exe_print_def)
  note m = test_messages
  let ?b = "blank_test (xv_pid env)"
  define e1 where "e1 = message_of SILOG_DEBUG (chars ''This is a DEBUG test message'') ?b"
  define e2 where "e2 = message_of SILOG_INFO (chars ''This is an INFO test message'') e1"
  define e3 where "e3 = message_of SILOG_WARN (chars ''This is a WARN test message'') e2"
  define e4 where "e4 = message_of SILOG_ERROR (chars ''This is an ERROR test message'') e3"
  have e1: "test_entry SILOG_DEBUG (chars ''This is a DEBUG test message'') ?b = Some e1" "entry_ok e1"
    using test_entry_run [OF blank_test_ok, of "chars ''This is a DEBUG test message''" SILOG_DEBUG "xv_pid env"] m
    by (simp_all add: levels e1_def)
  have e2: "test_entry SILOG_INFO (chars ''This is an INFO test message'') e1 = Some e2" "entry_ok e2"
    using test_entry_run [OF e1(2), of "chars ''This is an INFO test message''" SILOG_INFO] m by (simp_all add: levels e2_def)
  have e3: "test_entry SILOG_WARN (chars ''This is a WARN test message'') e2 = Some e3" "entry_ok e3"
    using test_entry_run [OF e2(2), of "chars ''This is a WARN test message''" SILOG_WARN] m by (simp_all add: levels e3_def)
  have e4: "test_entry SILOG_ERROR (chars ''This is an ERROR test message'') e3 = Some e4" "entry_ok e4"
    using test_entry_run [OF e3(2), of "chars ''This is an ERROR test message''" SILOG_ERROR] m by (simp_all add: levels e4_def)
  have cp: "c_strncpy (replicate 32 0) (chars ''Test'') 31 = Some (chars ''Test'' @ replicate 28 0)"
      "c_strncpy (replicate 64 0) (chars ''test.cpp'') 63 = Some (chars ''test.cpp'' @ replicate 56 0)"
    using strncpy_zero [of "replicate 32 0" 31 "chars ''Test''"] strncpy_zero [of "replicate 64 0" 63 "chars ''test.cpp''"] by simp_all
  note s = exe_send_run [OF _ _ e1(2)] exe_send_run [OF _ _ e2(2)] exe_send_run [OF _ _ e3(2)] exe_send_run [OF _ _ e4(2)]
  have "test_entries (xv_pid env) = [e1, e2, e3, e4]" by (simp add: test_entries_def Let_def e1_def e2_def e3_def e4_def)
  moreover have "\<exists>x'. SilogExeSendTestLogs env x = Some (SILOG_OK, x') \<and> xe_sent x' = xe_sent x2 @ map entry_struct [e1, e2, e3, e4]"
    using x0(1) ipc(1) e1(1) e2(1) e3(1) e4(1) cp assms(2) c(1) s unfolding SilogExeSendTestLogs_def blank_test_def
    by (simp add: Let_def flip: x1_def x2_def)
  ultimately show ?thesis using c(2) by simp
qed

section \<open>Starting\<close>

lemma StartDaemon_parent:
  assumes "\<not> answers (xv_probe env 0)" and "0 < xv_fork env" and "xv_fopen_pid env"
    and "\<exists>i \<in> {1..<31}. answers (xv_probe env i)"
  shows "\<exists>x'. SilogExeStartDaemon env x = Some (Exit 0, x') \<and> xe_pidfile x' = Some (dec_int (xv_fork env) @ [10]) \<and>
    xe_signals x' = xe_signals x"
proof -
  obtain x1 where x1: "SilogExeDaemonIsRunning (xv_probe env 0) x = (False, x1)" "only_ipc x x1"
    using IsRunning_answers [of "xv_probe env 0" x] assms(1) by auto
  let ?x2 = "exe_print (chars ''Starting SiLog Daemon...'' @ [10]) x1"
  obtain x3 where x3: "probe_until (xv_probe env) True [1..<31] ?x2 = (True, x3)" "only_ipc ?x2 x3"
    using probe_until_answers [of "xv_probe env" True "[1..<31]" ?x2] assms(4) by auto
  show ?thesis
    using x1 x3 assms(2,3) only_ipcD [OF x1(2)] only_ipcD [OF x3(2)]
    by (simp add: SilogExeStartDaemon_def SilogExeWritePidFile_def exe_print_def Let_def)
qed

lemma StartForeground_pidfile:
  assumes "SilogExeStartForeground env x = Some (Serving, x1)"
  shows "xe_pidfile x1 = xe_pidfile x"
  using assms
  by (auto simp: SilogExeStartForeground_def exe_serve_def exe_print_def split: prod.splits if_splits Option.bind_splits)

section \<open>Example instances\<close>

definition ex_up :: ipc_env where
  "ex_up = good_env"

definition ex_down :: ipc_env where
  "ex_down = good_env\<lparr>ie_connect := (\<lambda>_. -1)\<rparr>"

lemma ex_answers: "answers ex_up" "\<not> answers ex_down" "ie_send ex_up = DgramSent"
  by (simp_all add: answers_def ex_up_def ex_down_def good_env_def setNonblock_def)

definition ex_exe_env :: "(nat \<Rightarrow> ipc_env) \<Rightarrow> exe_env" where
  "ex_exe_env probe = \<lparr>xv_probe = probe, xv_fopen_pid = True, xv_fork = 4711, xv_setsid = 0, xv_kill = (\<lambda>_. 0), xv_pid = 42,
     xv_strerror = [], xv_daemon = ex_denv\<rparr>"

definition ex_exe :: silog_exe where
  "ex_exe = \<lparr>xe_daemon = ex_daemon, xe_pidfile = None, xe_stdout = [], xe_stderr = [], xe_signals = [], xe_sent = []\<rparr>"

lemma ex_foreground: "\<exists>x1. SilogExeStartForeground (ex_exe_env probe) ex_exe = Some (Serving, x1)"
proof -
  obtain r pl out where p: "SilogPrelogInit (\<lambda>_. True)
      (Some \<lparr>pc_path = chars ''/tmp/silog_exe.txt'', pc_minLevel = SILOG_PRELOG_LEVEL_DEBUG, pc_enableStdout = True\<rparr>)
      (da_prelog ex_daemon) (da_out ex_daemon) = (r, pl, out)" by (rule prod_cases3)
  obtain d where "daemon_init_create ex_denv (ex_daemon\<lparr>da_prelog := pl, da_out := out\<rparr>) = Some (SILOG_OK, True, d)"
    using ex_init_create by blast
  moreover have "dv_fopen ex_denv = (\<lambda>_. True)" by (simp add: ex_denv_def)
  ultimately show ?thesis
    using p by (simp add: SilogExeStartForeground_def exe_serve_def SilogDaemonInit_def ex_exe_env_def ex_exe_def)
qed

section \<open>Properties\<close>

text \<open>
  C40. Starting in the background and stopping again: when the forked daemon answers within the thirty
  probes, the pid file makes \<open>stop\<close> signal exactly that process, first with \<open>SIGTERM\<close>, and with
  \<open>SIGKILL\<close> exactly if the daemon still answers all thirty probes; the pid file is gone afterwards.
\<close>

theorem SilogExe_start_then_stop:
  assumes "\<not> answers (xv_probe env 0)" and "0 < xv_fork env" and "xv_fork env < 2 ^ 31" and "xv_fopen_pid env"
    and "\<exists>i \<in> {1..<31}. answers (xv_probe env i)" and "answers (xv_probe env' 0)" and "xv_kill env' SIGTERM = 0"
  shows "\<exists>x1 x2. SilogExeStartDaemon env x = Some (Exit 0, x1) \<and> SilogExeStopDaemon env' x1 = Some (SILOG_OK, x2) \<and>
    xe_pidfile x2 = None \<and> xe_signals x2 = xe_signals x @ (xv_fork env, SIGTERM) #
      (if \<forall>i \<in> {1..<31}. answers (xv_probe env' i) then [(xv_fork env, SIGKILL)] else [])"
proof -
  obtain x1 where x1: "SilogExeStartDaemon env x = Some (Exit 0, x1)" "xe_pidfile x1 = Some (dec_int (xv_fork env) @ [10])"
      "xe_signals x1 = xe_signals x"
    using StartDaemon_parent [OF assms(1,2,4,5)] by blast
  have "SilogExeReadPidFile x1 = Some (xv_fork env)" using assms(2,3) x1(2) by (intro pid_round_trip_file) simp_all
  from StopDaemon_run [OF assms(6) this] obtain x2 where
    "SilogExeStopDaemon env' x1 = Some (SILOG_OK, x2)" "xe_pidfile x2 = None"
    "xe_signals x2 = xe_signals x1 @ stop_signals env' (xv_fork env)" by blast
  then show ?thesis using x1 assms(2,7) by (intro exI [of _ x1] exI [of _ x2]) (simp add: stop_signals_def)
qed

theorem SilogExe_start_then_stop_witness:
  "\<exists>x1 x2. SilogExeStartDaemon (ex_exe_env (\<lambda>i. if i < 3 then ex_down else ex_up)) ex_exe = Some (Exit 0, x1) \<and>
     SilogExeStopDaemon (ex_exe_env (\<lambda>i. if i < 3 then ex_up else ex_down)) x1 = Some (SILOG_OK, x2) \<and>
     xe_signals x2 = [(4711, SIGTERM)]"
proof -
  let ?e = "ex_exe_env (\<lambda>i. if i < 3 then ex_down else ex_up)" and ?e' = "ex_exe_env (\<lambda>i. if i < 3 then ex_up else ex_down)"
  have s: "\<exists>i \<in> {1..<31}. answers (xv_probe ?e i)" using ex_answers by (intro bexI [of _ 3]) (simp_all add: ex_exe_env_def)
  have g: "\<not> (\<forall>i \<in> {1..<31}. answers (xv_probe ?e' i))"
  proof
    assume "\<forall>i \<in> {1..<31}. answers (xv_probe ?e' i)"
    then have "answers (xv_probe ?e' 3)" by (rule bspec) simp
    then show False using ex_answers by (simp add: ex_exe_env_def)
  qed
  have f: "xv_fork ?e = 4711" "xv_fopen_pid ?e" "\<not> answers (xv_probe ?e 0)" "answers (xv_probe ?e' 0)" "xv_kill ?e' SIGTERM = 0"
    "xe_signals ex_exe = []" using ex_answers by (simp_all add: ex_exe_env_def ex_exe_def)
  from SilogExe_start_then_stop [of ?e ?e' ex_exe] s g f show ?thesis by (simp only: if_False) auto
qed

text \<open>
  A daemon started in the foreground cannot be stopped: that way of starting leaves the pid file as it
  was, and without a pid file \<open>stop\<close> finds the daemon running, signals no process and still reports
  success and that the daemon has stopped.
\<close>

lemma SilogExe_foreground_not_stopped:
  assumes "SilogExeStartForeground env x = Some (Serving, x1)" and "xe_pidfile x = None" and "xe_pidfile y = xe_pidfile x1"
    and "answers (xv_probe env' 0)"
  shows "\<exists>y'. SilogExeStopDaemon env' y = Some (SILOG_OK, y') \<and> xe_signals y' = xe_signals y \<and>
    xe_stdout y' = xe_stdout y @ chars ''SiLog Daemon stopped'' @ [10]"
proof -
  have "SilogExeReadPidFile y = Some (-1)"
    using StartForeground_pidfile [OF assms(1)] assms(2,3) by (simp add: SilogExeReadPidFile_def)
  from StopDaemon_run [OF assms(4) this] show ?thesis by (auto simp: stop_signals_def)
qed

text \<open>
  The \<open>test\<close> command sends four datagrams, which are the bytes of four proper entries with the
  levels from debug to error; they carry the time stamp 0, which the daemon writes to the log as it is.
\<close>

lemma SilogExeSendTestLogs_entries:
  assumes "\<forall>i \<in> {0, 1}. answers (xv_probe env i)" and "\<forall>i \<in> {1, 2, 3, 4}. ie_send (xv_probe env i) = DgramSent"
  shows "\<exists>x' es. SilogExeSendTestLogs env x = Some (SILOG_OK, x') \<and> xe_sent x' = xe_sent x @ map entry_struct es \<and>
    (\<forall>e \<in> set es. entry_ok e \<and> struct_entry (entry_struct e) = e \<and> le_ts e = 0 \<and> le_pid e = xv_pid env) \<and>
    map le_level es = [SILOG_DEBUG, SILOG_INFO, SILOG_WARN, SILOG_ERROR] \<and>
    map (\<lambda>e. cstr (le_msg e)) es = [chars ''This is a DEBUG test message'', chars ''This is an INFO test message'',
      chars ''This is a WARN test message'', chars ''This is an ERROR test message'']"
proof -
  let ?es = "test_entries (xv_pid env)"
  obtain x' where x': "SilogExeSendTestLogs env x = Some (SILOG_OK, x')" "xe_sent x' = xe_sent x @ map entry_struct ?es"
    using SendTestLogs_run [OF assms] by blast
  have f: "\<forall>e \<in> set ?es. le_ts e = 0 \<and> le_pid e = xv_pid env"
      "map le_level ?es = [SILOG_DEBUG, SILOG_INFO, SILOG_WARN, SILOG_ERROR]"
    by (simp_all add: test_entries_def Let_def message_of_def blank_test_def)
  show ?thesis
    using x' f test_entries_ok [of "xv_pid env"] struct_entry_struct
    by (intro exI [of _ x'] exI [of _ ?es]) (auto simp: entry_ok_def)
qed

end
