(* ===== verification/Spec2Isabelle.thy ===== *)
theory Spec2Isabelle
  imports Silog_Mpsc_Conc Silog_Remote_Conc Silog_Apps Silog_System Silog_Exe
begin

text \<open>
  A verification library for SiLog, a logging system in C. An application calls the logging library;
  a thread of the library sends the entries over a local datagram socket to the daemon; the daemon
  writes them as lines to a log file, which it rotates and compresses, and sends them over TCP to viewers.

  \<^bold>\<open>Parts of the program and their theories.\<close>

  \<^item> \<open>Silog_Prelude\<close>: the error codes (\<open>silog_comm/include/silog_error.h\<close>), byte strings, undefined
    behaviour as the value \<open>None\<close> of \<open>c_result\<close>, bounded \<open>for\<close> loops, and the facts on lists and
    machine words that the other theories share.
  \<^item> \<open>Silog_CMem\<close>, \<open>Silog_Securec\<close>: the memory of a C program as a list of bytes with pointers as
    offsets, what is used of the C library on it, and every function of \<open>silog_comm/src/silog_securec.c\<close>.
    An access outside the block is undefined.
  \<^item> \<open>Silog_Slots\<close>: a block of bytes as an array of elements of equal size, shared by the two queues.
  \<^item> \<open>Silog_Queue_Specs\<close>: the contracts of the queues as locales, \<open>bounded_bag\<close> and \<open>bounded_fifo\<close>, which is
    one, and what the loops of their clients do.
  \<^item> \<open>Silog_PQueue\<close>: the priority queue (\<open>silog_comm/src/silog_pqueue.c\<close>) on bytes with 32-bit sizes. The
    locale \<open>pq_order\<close> is what the comparison promises; \<open>bounded_bag\<close> is interpreted on the code.
  \<^item> \<open>Silog_Mpsc\<close>, \<open>Silog_Mpsc_Conc\<close>: the ring (\<open>silog_comm/src/silog_mpsc.c\<close>) twice: call by call on
    bytes, interpreting \<open>bounded_fifo\<close>; and as a step relation with one access to shared memory
    per step for any number of producers and one consumer.
  \<^item> \<open>Silog_Codec\<close>: the log entry and its wire format (\<open>silog_comm/src/silog_remote.c\<close>, serialisation).
  \<^item> \<open>Silog_Remote_Server\<close>, \<open>Silog_Remote_Client\<close>: the remote service and its client (the rest of
    \<open>silog_remote.c\<close>), with the descriptors they own as part of the state. The locale \<open>frame_reader\<close> is
    the contract of a reassembler of frames; the code's receive function interprets it.
  \<^item> \<open>Silog_Remote_Conc\<close>: the broadcast of \<open>silog_remote.c\<close> once more, as a state machine whose steps are
    the critical sections between its \<open>send\<close> calls, interleaved with the accepting thread.
  \<^item> \<open>Silog_Time\<close>: clocks (the Linux and the Windows branches), time stamps, level names and the thread id
    (\<open>silog_time.c\<close>, \<open>silog_utils.c\<close>) and the decimal conversions of \<open>printf\<close>.
  \<^item> \<open>Silog_File_Manager\<close>, \<open>Silog_File_Manager_Ok\<close>: the log files (\<open>silog_dae/src/silog_file_manager.c\<close>),
    with the file system as a map from paths to contents and the stream's buffer apart from the file.
    The locale \<open>line_sink\<close> is what the daemon relies on: text that is appended, across rotations.
  \<^item> \<open>Silog_Prelog\<close>: the diagnostics of SiLog itself (\<open>silog_comm/src/silog_prelog.c\<close>).
  \<^item> \<open>Silog_Ipc\<close>: the local socket (\<open>silog_comm/src/silog_ipc.c\<close>), with its address, its descriptors and its
    file, which other processes may remove or replace.
  \<^item> \<open>Silog_Logger\<close>: the library in the application (\<open>silog_logger/src/silog_logger.c\<close>).
  \<^item> \<open>Silog_Daemon\<close>, \<open>Silog_Daemon_Ok\<close>: the daemon and its three threads (\<open>silog_dae/src/silog_daemon.c\<close>).
  \<^item> \<open>Silog_Pipeline\<close>: library, socket, daemon, compression thread and viewers' connections composed into
    one system whose steps interleave freely.
  \<^item> \<open>Silog_Apps\<close>: several applications with their libraries and one daemon, each step being one of the
    system above as one of the applications sees it.
  \<^item> \<open>Silog_Cat\<close>: the viewer (\<open>silog_cat/src/silog_cat.c\<close>) on top of the remote client.
  \<^item> \<open>Silog_System\<close>: the start of daemon and library from fresh processes, a start that fails, and the
    system with \<open>silogcat\<close> at the end of a connection.
  \<^item> \<open>Silog_Exe\<close>: the control program (\<open>silog_exe/src/silog_exe.c\<close>) on top of the daemon and the socket.

  \<^bold>\<open>How the code is rendered.\<close> A struct is a record, an enumeration a datatype or named constants, a
  C function a definition of the same name that takes the globals it uses and returns them updated. Sizes and
  counters are 32-bit words and wrap around. A returned error code is a value of \<open>ErrorCode\<close>; undefined
  behaviour is \<open>None\<close>, so a theorem that a function returns \<open>Some\<close> is also one of memory safety.
  System calls and allocations are arguments: a record of outcomes or a function from what is asked for
  to the outcome. The iterations of an endless thread loop are single steps. A global of another module
  is a field of the state of its user.

  \<^bold>\<open>What the properties show.\<close>

  \<^item> The whole path (\<open>Silog_Pipeline\<close>, \<open>Silog_Apps\<close>, \<open>Silog_System\<close>): in every interleaving, for any number of calls and
    rotations, the closed logs, the current log and the lines on their way are one line per log call in
    call order; what is missing are exactly the entries that met a full ring. Finitely many turns of the
    threads deliver everything on its way. With several applications this holds for each of them: the
    lines with its process id are its calls in their order. Fresh processes reach such a system, and what a
    viewer prints is what was written while it was connected and passes its filters.
  \<^item> The ring: the byte-level code refines a bounded queue across the wrap-around of its counters;
    with one producer, and with several as long as roll-backs do not cross other producers, every
    interleaving of single memory accesses is ordered and free of races; crossing roll-backs wedge it.
  \<^item> Log files: a write appends exactly its bytes or rotates first; no sequence of writes loses a byte; every reachable state of the manager is
    consistent; the clean-up leaves the configured number of files, and which files it removes.
  \<^item> Remote service: the client table, its counter and the owned descriptors agree in every reachable state;
    what a broadcast sends to whom, alone and while clients connect, and what a shutdown in its middle
    does; what survives the wire format; the viewer prints exactly the
    matching entries for every way the stream is cut, and ends cleanly.
  \<^item> Library and daemon: the entry a log call builds, the sizes of entries at every boundary, the line an
    entry becomes, what stopping the daemon releases and drops, a start that cannot create its threads and the
    next one, the race in the start, short datagrams, lost arguments.
  \<^item> Memory library and priority queue: results and bounds of the string functions, heap order, permutation.
  \<^item> Control program: start, stop and test; what \<open>stop\<close> does to a daemon that was started in the
    foreground.

  \<^bold>\<open>Bounds and termination.\<close> No definition takes fuel: loops are structural recursions, have a
  measure, or are partial functions into \<open>option\<close> (sifting down, the removal of old files and the
  emptying of the compression queue), which the properties that use them prove to return. The waiting loops of the control program are the thirty probes of the source. The
  compare-and-exchange loop of the ring is, call by call, a test that must succeed at once (otherwise the
  call does not return and the result is \<open>None\<close>); \<open>SilogMpscQueue_refines_fifo\<close> proves that it returns.
  The steps of the pipeline that write assume that rotating succeeds when the log is full and that
  compression is off or left to its thread; a rotation that fails has its own property. A broadcast that is
  interleaved with accepting ends after at most one step per slot.

  \<^bold>\<open>Not modelled.\<close> The calls of the \<open>SILOG_PRELOG\<close> macros inside the other components, which only add
  lines to the diagnostics file, or to the standard output where the diagnostics go there; mutexes, whose critical sections are single steps; sleeping; the
  conversions of \<open>printf\<close> formats other than the ones the program uses and the \<open>scanf\<close> engines, which
  are arguments; the copy of each line to the console under \<open>SILOG_EXE\<close>, which no build compiles in;
  the allocator's bookkeeping, which block is live; the platform adapter, whose functions pass their argument to the allocator, which is an argument here; the
  tests. The weak memory effects of the atomic accesses are not modelled: the steps of the ring are
  sequentially consistent, as its default-ordered atomics are.
\<close>

end
